(* ===== verification/Prelude.thy ===== *)
theory Prelude
  imports Main "HOL-Library.Word" "HOL-Library.Sublist"
begin

text \<open>
  Shared vocabulary of the development: the machine types of the Go program, the
  pieces of its standard library that several components use (big-endian integers of
  \<^verbatim>\<open>encoding/binary\<close>, decimal numbers of \<^verbatim>\<open>strconv\<close>, string prefixes and
  suffixes), slices, and the generic facts on lists and words that component proofs
  reuse.

  A Go \<^verbatim>\<open>byte\<close>, \<^verbatim>\<open>uint32\<close> and \<^verbatim>\<open>uint64\<close> is a word of that width, so arithmetic on
  sequences wraps exactly as in the code. An \<^verbatim>\<open>int64\<close> time stamp is kept as the 64-bit
  pattern the wire carries (the source only casts it to \<^verbatim>\<open>uint64\<close> and back); \<open>sint\<close>
  reads it as a signed number. A Go \<^verbatim>\<open>int\<close> that holds a length is a \<open>nat\<close> or an
  \<open>int\<close>: no slice in the program reaches \<open>2 ^ 63\<close> bytes.
\<close>

unbundle bit_operations_syntax

section \<open>Machine types\<close>

type_synonym byte = "8 word"
type_synonym u32 = "32 word"
type_synonym u64 = "64 word"
type_synonym i64 = "64 word"
type_synonym bytes = "byte list"

text \<open>\<^verbatim>\<open>math.MaxUint32\<close>, the last representable ledger sequence.\<close>

abbreviation max_u32 :: u32 where
  "max_u32 \<equiv> 4294967295"

named_theorems codec_simps \<open>fixed-width fields: lengths and read-back\<close>

text \<open>The SDK's \<^verbatim>\<open>ledgerbackend.Range\<close>, by its three accessors.\<close>

record ledger_range =
  rg_from :: u32
  rg_to :: u32
  rg_bounded :: bool

section \<open>Words as sequence numbers\<close>

lemma unat_lt_u32 [simp]: "unat (w :: u32) < 4294967296"
  using unsigned_less [of w] by simp

lemma unat_u32_max_iff: "unat w = 4294967295 \<longleftrightarrow> w = max_u32" for w :: u32
proof
  assume "unat w = 4294967295"
  then have "unat w = unat max_u32" by simp
  then show "w = max_u32" by (simp only: word_unat_eq_iff)
qed simp

lemma unat_u32_Suc: "w \<noteq> max_u32 \<Longrightarrow> unat (w + 1 :: u32) = Suc (unat w)"
proof -
  assume "w \<noteq> max_u32"
  with unat_u32_max_iff have "unat w \<noteq> 4294967295" by blast
  with unat_lt_u32 [of w] have "unat w < 4294967295" by linarith
  then show ?thesis by (simp add: unat_plus_if')
qed

lemma unat_sub_step:
  fixes lat old :: u32
  assumes "lat \<noteq> old"
  shows "unat (lat - old) = Suc (unat (lat - (old + 1)))"
proof -
  have step: "lat - old = (lat - (old + 1)) + 1"
    by (simp add: algebra_simps)
  moreover have "lat - (old + 1) \<noteq> max_u32"
  proof
    assume "lat - (old + 1) = max_u32"
    with step have "lat - old = 0" by simp
    with assms show False by simp
  qed
  ultimately show ?thesis
    by (metis unat_u32_Suc)
qed

lemma u32_Suc_le_iff: "a \<noteq> max_u32 \<Longrightarrow> a + 1 \<le> x \<longleftrightarrow> a < x" for a x :: u32
  by (simp add: word_less_nat_alt word_le_nat_alt unat_u32_Suc Suc_le_eq)

lemma u32_less_not_max: "a < b \<Longrightarrow> a \<noteq> max_u32" for a b :: u32
proof
  assume "a < b" "a = max_u32"
  then have "4294967295 < unat b" by (simp add: word_less_nat_alt)
  with unat_lt_u32 [of b] show False by linarith
qed

lemma u32_interval_step: "a \<noteq> max_u32 \<Longrightarrow> insert a {a + 1..<b} = (if a < b then {a..<b} else {a})"
  for a b :: u32
  by (auto simp: u32_Suc_le_iff)

lemma u32_interval_step_le: "a < b \<Longrightarrow> insert a {a + 1..b} = {a..b}"
  for a b :: u32
proof -
  assume lt: "a < b"
  then have "a \<noteq> max_u32"
    by (rule u32_less_not_max)
  from u32_Suc_le_iff [OF this] lt show ?thesis
    by (intro set_eqI) (simp, metis order_less_imp_le order_le_less)
qed

lemma unat_of_nat_u32: "n < 4294967296 \<Longrightarrow> unat (word_of_nat n :: u32) = n"
  by (simp add: unsigned_of_nat take_bit_nat_eq_self)

lemma unat_of_nat_u64: "n < 18446744073709551616 \<Longrightarrow> unat (word_of_nat n :: u64) = n"
  by (simp add: unsigned_of_nat take_bit_nat_eq_self)

text \<open>The sequences from \<open>a\<close> to \<open>b\<close>, in order.\<close>

definition seq_range :: "u32 \<Rightarrow> u32 \<Rightarrow> u32 list" where
  "seq_range a b = map word_of_nat [unat a..<Suc (unat b)]"

lemma length_seq_range [simp]: "length (seq_range a b) = Suc (unat b) - unat a"
  by (simp add: seq_range_def del: upt_Suc)

lemma set_seq_range [simp]: "set (seq_range a b) = {a..b}"
proof -
  have "x \<in> word_of_nat ` {unat a..<Suc (unat b)}" if "a \<le> x" "x \<le> b" for x
    using that by (intro image_eqI [of _ _ "unat x"]) (auto simp: word_le_nat_alt)
  moreover have "a \<le> word_of_nat n \<and> word_of_nat n \<le> b" if "unat a \<le> n" "n \<le> unat b" for n
  proof -
    have "n < 4294967296" using that unat_lt_u32 [of b] by linarith
    with that show ?thesis by (simp add: word_le_nat_alt unat_of_nat_u32)
  qed
  ultimately show ?thesis
    by (force simp: seq_range_def)
qed

lemma seq_range_snoc: "a \<le> b \<Longrightarrow> b \<noteq> max_u32 \<Longrightarrow> seq_range a (b + 1) = seq_range a b @ [b + 1]"
  by (simp add: seq_range_def unat_u32_Suc word_le_nat_alt)

lemma seq_range_drop: "a \<le> a' \<Longrightarrow> a' \<le> b \<Longrightarrow> seq_range a' b = drop (unat a' - unat a) (seq_range a b)"
  by (simp add: seq_range_def drop_map word_le_nat_alt)

lemma seq_range_single [simp]: "seq_range a a = [a]"
  by (simp add: seq_range_def)

section \<open>Slices\<close>

text \<open>The Go slice expression \<open>xs[a:b]\<close> for bounds that are in range.\<close>

definition sub_slice :: "nat \<Rightarrow> nat \<Rightarrow> 'a list \<Rightarrow> 'a list" where
  "sub_slice a b xs = take (b - a) (drop a xs)"

lemma length_sub_slice [simp]: "length (sub_slice a b xs) = min (b - a) (length xs - a)"
  by (simp add: sub_slice_def)

lemma sub_slice_append_skip: "length xs = a \<Longrightarrow> sub_slice a b (xs @ ys) = take (b - a) ys"
  by (simp add: sub_slice_def)

lemma take_append_exact: "length xs = n \<Longrightarrow> take n (xs @ ys) = xs"
  by simp

lemma drop_sub_slice_split: "a \<le> b \<Longrightarrow> drop a xs = sub_slice a b xs @ drop b xs"
  unfolding sub_slice_def by (metis append_take_drop_id drop_drop le_add_diff_inverse2)

lemma drop_sub_slice_end: "length xs \<le> b \<Longrightarrow> drop a xs = sub_slice a b xs"
  by (simp add: sub_slice_def)

lemma split_first_two: "2 \<le> length xs \<Longrightarrow> xs = xs ! 0 # xs ! 1 # drop 2 xs"
  by (metis Cons_nth_drop_Suc One_nat_def Suc_1 drop0 lessI less_le_trans zero_less_Suc less_Suc_eq)

lemma map_filter_guard:
  "List.map_filter (\<lambda>x. if P x then None else f x) xs =
     map (the \<circ> f) (filter (\<lambda>x. \<not> P x \<and> f x \<noteq> None) xs)"
  by (induction xs) (auto simp: List.map_filter_simps split: option.split)

text \<open>The reference for every chunking loop: pieces of \<open>n\<close> elements, the last one shorter.\<close>

function pieces :: "nat \<Rightarrow> 'a list \<Rightarrow> 'a list list" where
  "pieces n xs = (if xs = [] then [] else if n = 0 then [xs] else take n xs # pieces n (drop n xs))"
  by pat_completeness auto

termination pieces
  by (relation "measure (\<lambda>(n, xs). length xs)") (auto simp: neq_Nil_conv)

declare pieces.simps [simp del]

lemma pieces_nil [simp]: "pieces n [] = []"
  by (simp add: pieces.simps)

lemma pieces_step: "xs \<noteq> [] \<Longrightarrow> 0 < n \<Longrightarrow> pieces n xs = take n xs # pieces n (drop n xs)"
  by (simp add: pieces.simps [of n xs])

lemma pieces_short: "xs \<noteq> [] \<Longrightarrow> length xs \<le> n \<Longrightarrow> pieces n xs = [xs]"
  by (simp add: pieces.simps [of n xs] pieces.simps [of n "[]"])

lemma concat_pieces [simp]: "concat (pieces n xs) = xs"
proof (induction n xs rule: pieces.induct)
  case (1 n xs)
  then show ?case by (cases "n = 0"; cases "xs = []") (auto simp: pieces.simps [of n xs] pieces.simps [of 0 xs])
qed

lemma pieces_full: "0 < n \<Longrightarrow> \<forall>p \<in> set ps. length p = n \<Longrightarrow> pieces n (concat ps @ xs) = ps @ pieces n xs"
  by (induction ps) (auto simp: pieces_step)

lemma pieces_bounds: "0 < n \<Longrightarrow> p \<in> set (pieces n xs) \<Longrightarrow> p \<noteq> [] \<and> length p \<le> n"
proof (induction n xs rule: pieces.induct)
  case (1 n xs)
  then show ?case by (cases "xs = []") (auto simp: pieces_step)
qed

lemma length_pieces: "0 < n \<Longrightarrow> length (pieces n xs) = (length xs + n - 1) div n"
proof (induction n xs rule: pieces.induct)
  case (1 n xs)
  show ?case
  proof (cases "length xs \<le> n")
    case True
    with "1.prems" show ?thesis
      by (cases "xs = []") (auto simp: pieces_short neq_Nil_conv intro!: div_nat_eqI [symmetric])
  next
    case False
    then have xs: "xs \<noteq> []" and len: "length xs + n - 1 = (length (drop n xs) + n - 1) + n"
      using "1.prems" by auto
    have "length (pieces n xs) = Suc (length (pieces n (drop n xs)))"
      using xs "1.prems" by (simp add: pieces_step)
    also have "\<dots> = Suc ((length (drop n xs) + n - 1) div n)"
      using "1.IH" xs "1.prems" by simp
    also have "\<dots> = (length xs + n - 1) div n"
      using "1.prems" unfolding len by (subst div_add_self2) simp_all
    finally show ?thesis .
  qed
qed

section \<open>Big-endian integers\<close>

text \<open>\<^verbatim>\<open>binary.BigEndian.PutUint32/AppendUint32\<close> and \<^verbatim>\<open>Uint32\<close>, and the 64-bit pair.\<close>

definition put_be32 :: "u32 \<Rightarrow> bytes" where
  "put_be32 v = [ucast (drop_bit 24 v), ucast (drop_bit 16 v), ucast (drop_bit 8 v), ucast v]"

definition put_be64 :: "u64 \<Rightarrow> bytes" where
  "put_be64 v =
     [ucast (drop_bit 56 v), ucast (drop_bit 48 v), ucast (drop_bit 40 v), ucast (drop_bit 32 v),
      ucast (drop_bit 24 v), ucast (drop_bit 16 v), ucast (drop_bit 8 v), ucast v]"

definition get_be32 :: "bytes \<Rightarrow> u32" where
  "get_be32 b = push_bit 24 (ucast (b ! 0)) OR push_bit 16 (ucast (b ! 1))
     OR push_bit 8 (ucast (b ! 2)) OR ucast (b ! 3)"

definition get_be64 :: "bytes \<Rightarrow> u64" where
  "get_be64 b = push_bit 56 (ucast (b ! 0)) OR push_bit 48 (ucast (b ! 1))
     OR push_bit 40 (ucast (b ! 2)) OR push_bit 32 (ucast (b ! 3))
     OR push_bit 24 (ucast (b ! 4)) OR push_bit 16 (ucast (b ! 5))
     OR push_bit 8 (ucast (b ! 6)) OR ucast (b ! 7)"

lemma bit_byte_ge: "8 \<le> n \<Longrightarrow> \<not> bit (b :: byte) n"
  using bit_imp_le_length [of b n] by auto

lemma bit_pos_cases:
  fixes n :: nat
  assumes "n < 64"
  obtains k where "k < 8" "n = k \<or> n = k + 8 \<or> n = k + 16 \<or> n = k + 24
    \<or> n = k + 32 \<or> n = k + 40 \<or> n = k + 48 \<or> n = k + 56"
proof -
  define k d where "k = n mod 8" and "d = n div 8"
  have n: "n = k + 8 * d" and k: "k < 8" by (simp_all add: k_def d_def)
  with assms have "d = 0 \<or> d = 1 \<or> d = 2 \<or> d = 3 \<or> d = 4 \<or> d = 5 \<or> d = 6 \<or> d = 7"
    by linarith
  with n k show thesis by (intro that [OF k]) auto
qed

lemma get_put_be32: "get_be32 (put_be32 v) = v"
proof (rule bit_word_eqI)
  fix n assume "n < LENGTH(32)"
  then have "n < 64" and 32: "n < 32" by simp_all
  from this(1) obtain k where "k < 8" "n = k \<or> n = k + 8 \<or> n = k + 16 \<or> n = k + 24
    \<or> n = k + 32 \<or> n = k + 40 \<or> n = k + 48 \<or> n = k + 56"
    by (rule bit_pos_cases)
  with 32 show "bit (get_be32 (put_be32 v)) n = bit v n"
    by (elim disjE) (simp_all add: get_be32_def put_be32_def bit_simps add.commute)
qed

lemma get_put_be64: "get_be64 (put_be64 v) = v"
proof (rule bit_word_eqI)
  fix n assume "n < LENGTH(64)"
  then have "n < 64" by simp
  then obtain k where "k < 8" "n = k \<or> n = k + 8 \<or> n = k + 16 \<or> n = k + 24
    \<or> n = k + 32 \<or> n = k + 40 \<or> n = k + 48 \<or> n = k + 56"
    by (rule bit_pos_cases)
  then show "bit (get_be64 (put_be64 v)) n = bit v n"
    by (elim disjE) (simp_all add: get_be64_def put_be64_def bit_simps add.commute)
qed

lemma put_get_be32: "length bs = 4 \<Longrightarrow> put_be32 (get_be32 bs) = bs"
proof -
  assume "length bs = 4"
  then obtain a b c d where bs: "bs = [a, b, c, d]"
    by (auto simp: numeral_eq_Suc length_Suc_conv)
  show ?thesis
    unfolding bs by (auto simp: get_be32_def put_be32_def bit_simps bit_byte_ge intro!: bit_word_eqI)
qed

lemma put_get_be64: "length bs = 8 \<Longrightarrow> put_be64 (get_be64 bs) = bs"
proof -
  assume "length bs = 8"
  then obtain a b c d e f g h where bs: "bs = [a, b, c, d, e, f, g, h]"
    by (auto simp: numeral_eq_Suc length_Suc_conv)
  show ?thesis
    unfolding bs by (auto simp: get_be64_def put_be64_def bit_simps bit_byte_ge intro!: bit_word_eqI)
qed

text \<open>
  What a message codec relies on: a field has a fixed width and reading it back, at
  whatever offset it was placed, gives the value; re-writing what was read gives the bytes.
\<close>

locale fixed_codec =
  fixes put :: "'w \<Rightarrow> bytes" and get :: "bytes \<Rightarrow> 'w" and width :: nat
  assumes length_put: "length (put v) = width"
    and get_put: "get (put v) = v"
    and put_get: "length bs = width \<Longrightarrow> put (get bs) = bs"
begin

lemma read_at:
  "length pre = a \<Longrightarrow> b = a + width \<Longrightarrow> get (sub_slice a b (pre @ put v @ post)) = v"
  by (simp add: sub_slice_append_skip length_put get_put)

lemma read_at_end:
  "length pre = a \<Longrightarrow> b = a + width \<Longrightarrow> get (sub_slice a b (pre @ put v)) = v"
  using read_at [of pre a b v "[]"] by simp

lemma rewrite_at:
  "b = a + width \<Longrightarrow> b \<le> length msg \<Longrightarrow> put (get (sub_slice a b msg)) = sub_slice a b msg"
  by (simp add: put_get)

lemma put_inject: "put v = put w \<Longrightarrow> v = w"
  by (metis get_put)

end

interpretation c32: fixed_codec put_be32 get_be32 4
  by unfold_locales (simp add: put_be32_def, rule get_put_be32, rule put_get_be32)

interpretation c64: fixed_codec put_be64 get_be64 8
  by unfold_locales (simp add: put_be64_def, rule get_put_be64, rule put_get_be64)

lemmas length_put_be [simp, codec_simps] = c32.length_put c64.length_put

section \<open>Decimal numbers\<close>

text \<open>
  \<^verbatim>\<open>strconv.FormatUint(v, 10)\<close> and \<^verbatim>\<open>strconv.ParseUint(s, 10, bits)\<close>: digits only (no
  sign, no underscore, leading zeros allowed), at least one, and in range of the width.
\<close>

definition digit_char :: "nat \<Rightarrow> char" where
  "digit_char d = char_of (48 + d)"

definition is_digit :: "char \<Rightarrow> bool" where
  "is_digit c \<longleftrightarrow> 48 \<le> (of_char c :: nat) \<and> (of_char c :: nat) \<le> 57"

definition digit_val :: "char \<Rightarrow> nat" where
  "digit_val c = of_char c - 48"

fun format_uint :: "nat \<Rightarrow> string" where
  "format_uint n =
     (if n < 10 then [digit_char n] else format_uint (n div 10) @ [digit_char (n mod 10)])"

declare format_uint.simps [simp del]

fun parse_digits :: "nat \<Rightarrow> string \<Rightarrow> nat option" where
  "parse_digits acc [] = Some acc"
| "parse_digits acc (c # cs) =
     (if is_digit c then parse_digits (acc * 10 + digit_val c) cs else None)"

definition parse_uint :: "nat \<Rightarrow> string \<Rightarrow> nat option" where
  "parse_uint bits s =
     (if s = [] then None
      else case parse_digits 0 s of
        None \<Rightarrow> None
      | Some n \<Rightarrow> if n < 2 ^ bits then Some n else None)"

definition format_int :: "int \<Rightarrow> string" where
  "format_int i = (if i < 0 then CHR ''-'' # format_uint (nat (- i)) else format_uint (nat i))"

lemma digit_char_digit [simp]:
  assumes "d < 10"
  shows "is_digit (digit_char d)" "digit_val (digit_char d) = d"
  using assms by (simp_all add: is_digit_def digit_val_def digit_char_def)

lemma parse_digits_append:
  "parse_digits acc (xs @ ys) = Option.bind (parse_digits acc xs) (\<lambda>a. parse_digits a ys)"
  by (induction xs arbitrary: acc) auto

lemma parse_digits_format: "parse_digits 0 (format_uint n) = Some n"
proof (induction n rule: format_uint.induct)
  case (1 n)
  show ?case
  proof (cases "n < 10")
    case True
    then show ?thesis by (simp add: format_uint.simps [of n])
  next
    case False
    with "1.IH" show ?thesis
      by (simp add: format_uint.simps [of n] parse_digits_append)
  qed
qed

lemma format_uint_nonempty [simp]: "format_uint n \<noteq> []"
  by (subst format_uint.simps) simp

lemma format_uint_digits: "\<forall>c \<in> set (format_uint n). is_digit c"
proof (induction n rule: format_uint.induct)
  case (1 n)
  then show ?case
    by (cases "n < 10") (auto simp: format_uint.simps [of n])
qed

lemma parse_format_uint: "n < 2 ^ bits \<Longrightarrow> parse_uint bits (format_uint n) = Some n"
  by (simp add: parse_uint_def parse_digits_format)

lemma parse_uint_bound: "parse_uint bits s = Some n \<Longrightarrow> n < 2 ^ bits"
  by (auto simp: parse_uint_def split: if_splits option.splits)

lemma format_uint_inject: "format_uint m = format_uint n \<Longrightarrow> m = n"
  by (metis option.inject parse_digits_format)

end
