(* ===== verification/Disk.thy ===== *)
theory Disk
  imports Prelude "HOL-Library.AList"
begin

text \<open>
  The file operations of Go's \<^verbatim>\<open>os\<close> package that the retention ring and the dump replayer
  use, over an explicit disk. A path is a directory and an entry name; the entries are an
  association list, so every operation evaluates. Any call can fail: the disk carries the
  outcomes of the calls to come (\<open>faults\<close>, consumed one per call; an empty list is a
  disk that works), and a failing write may leave any prefix of its bytes behind. A process
  that dies in the middle of an operation is the case where every remaining call fails.
\<close>

datatype node = RegFile bytes | SubDir

datatype fault = Fine | Fails nat

type_synonym path = "string \<times> string"

record disk =
  files :: "(path \<times> node) list"
  faults :: "fault list"

datatype os_error = NotExist | OsFailure

definition next_fault :: "disk \<Rightarrow> fault" where
  "next_fault d = (case faults d of [] \<Rightarrow> Fine | f # _ \<Rightarrow> f)"

definition tick :: "disk \<Rightarrow> disk" where
  "tick d = d\<lparr>faults := tl (faults d)\<rparr>"

definition set_file :: "path \<Rightarrow> bytes \<Rightarrow> disk \<Rightarrow> disk" where
  "set_file p b d = d\<lparr>files := AList.update p (RegFile b) (files d)\<rparr>"

definition unlink :: "path \<Rightarrow> disk \<Rightarrow> disk" where
  "unlink p d = d\<lparr>files := AList.delete p (files d)\<rparr>"

text \<open>\<^verbatim>\<open>os.MkdirAll\<close>: the directory exists afterwards; entries are unchanged.\<close>

definition os_mkdir_all :: "string \<Rightarrow> disk \<Rightarrow> os_error option \<times> disk" where
  "os_mkdir_all dr d = (case next_fault d of Fine \<Rightarrow> (None, tick d) | Fails _ \<Rightarrow> (Some OsFailure, tick d))"

text \<open>\<^verbatim>\<open>os.ReadDir\<close>: the entry names, each with \<^verbatim>\<open>IsDir\<close>.\<close>

definition dir_names :: "string \<Rightarrow> disk \<Rightarrow> string list" where
  "dir_names dr d = map snd (filter (\<lambda>p. fst p = dr) (remdups (map fst (files d))))"

definition os_read_dir :: "string \<Rightarrow> disk \<Rightarrow> (os_error + (string \<times> bool) list) \<times> disk" where
  "os_read_dir dr d =
     (case next_fault d of
        Fine \<Rightarrow>
          (Inr (map (\<lambda>name. (name, map_of (files d) (dr, name) = Some SubDir)) (dir_names dr d)), tick d)
      | Fails _ \<Rightarrow> (Inl OsFailure, tick d))"

text \<open>\<^verbatim>\<open>os.OpenFile\<close> with \<^verbatim>\<open>O_WRONLY|O_CREATE|O_TRUNC\<close>.\<close>

definition os_open_trunc :: "path \<Rightarrow> disk \<Rightarrow> os_error option \<times> disk" where
  "os_open_trunc p d =
     (case next_fault d of
        Fine \<Rightarrow>
          if map_of (files d) p = Some SubDir then (Some OsFailure, tick d)
          else (None, set_file p [] (tick d))
      | Fails _ \<Rightarrow> (Some OsFailure, tick d))"

definition file_bytes :: "path \<Rightarrow> disk \<Rightarrow> bytes option" where
  "file_bytes p d = (case map_of (files d) p of Some (RegFile b) \<Rightarrow> Some b | _ \<Rightarrow> None)"

text \<open>A write to a file opened above: its handle appends to what was written so far.\<close>

definition os_write :: "path \<Rightarrow> bytes \<Rightarrow> disk \<Rightarrow> os_error option \<times> disk" where
  "os_write p part d =
     (let old = (case file_bytes p d of None \<Rightarrow> [] | Some b \<Rightarrow> b) in
      case next_fault d of
        Fine \<Rightarrow> (None, set_file p (old @ part) (tick d))
      | Fails n \<Rightarrow> (Some OsFailure, set_file p (old @ take n part) (tick d)))"

definition os_close :: "disk \<Rightarrow> os_error option \<times> disk" where
  "os_close d = (case next_fault d of Fine \<Rightarrow> (None, tick d) | Fails _ \<Rightarrow> (Some OsFailure, tick d))"

text \<open>\<^verbatim>\<open>os.Rename\<close> replaces the target in one step.\<close>

definition os_rename :: "path \<Rightarrow> path \<Rightarrow> disk \<Rightarrow> os_error option \<times> disk" where
  "os_rename old new d =
     (case next_fault d of
        Fine \<Rightarrow>
          (case file_bytes old d of
             None \<Rightarrow> (Some NotExist, tick d)
           | Some b \<Rightarrow>
               if map_of (files d) new = Some SubDir then (Some OsFailure, tick d)
               else (None, set_file new b (unlink old (tick d))))
      | Fails _ \<Rightarrow> (Some OsFailure, tick d))"

text \<open>\<^verbatim>\<open>os.Remove\<close>; a directory entry is taken to be non-empty, so removing it fails.\<close>

definition os_remove :: "path \<Rightarrow> disk \<Rightarrow> os_error option \<times> disk" where
  "os_remove p d =
     (case next_fault d of
        Fine \<Rightarrow>
          (case map_of (files d) p of
             None \<Rightarrow> (Some NotExist, tick d)
           | Some SubDir \<Rightarrow> (Some OsFailure, tick d)
           | Some (RegFile _) \<Rightarrow> (None, unlink p (tick d)))
      | Fails _ \<Rightarrow> (Some OsFailure, tick d))"

definition os_read_file :: "path \<Rightarrow> disk \<Rightarrow> (os_error + bytes) \<times> disk" where
  "os_read_file p d =
     (case next_fault d of
        Fine \<Rightarrow>
          (case map_of (files d) p of
             None \<Rightarrow> (Inl NotExist, tick d)
           | Some SubDir \<Rightarrow> (Inl OsFailure, tick d)
           | Some (RegFile b) \<Rightarrow> (Inr b, tick d))
      | Fails _ \<Rightarrow> (Inl OsFailure, tick d))"

section \<open>Frame facts\<close>

named_theorems disk_simps \<open>how each call changes the entries\<close>

definition entry :: "disk \<Rightarrow> path \<Rightarrow> node option" where
  "entry d p = map_of (files d) p"

lemma files_tick [simp]: "files (tick d) = files d"
  by (simp add: tick_def)

lemma faults_tick [simp]: "faults (tick d) = tl (faults d)"
  by (simp add: tick_def)

lemma entry_tick [simp, disk_simps]: "entry (tick d) = entry d"
  by (simp add: entry_def fun_eq_iff)

lemma entry_set_file [simp, disk_simps]: "entry (set_file p b d) = (entry d)(p \<mapsto> RegFile b)"
  by (simp add: entry_def set_file_def fun_eq_iff update_conv')

lemma entry_unlink [simp, disk_simps]: "entry (unlink p d) = (entry d)(p := None)"
  by (simp add: entry_def unlink_def fun_eq_iff delete_conv')

lemma faults_set_file [simp]: "faults (set_file p b d) = faults d"
  by (simp add: set_file_def)

lemma faults_unlink [simp]: "faults (unlink p d) = faults d"
  by (simp add: unlink_def)

lemma no_faults [simp]: "faults d = [] \<Longrightarrow> next_fault d = Fine"
  by (simp add: next_fault_def)

lemma file_bytes_entry:
  "file_bytes p d = (case entry d p of Some (RegFile b) \<Rightarrow> Some b | _ \<Rightarrow> None)"
  by (simp add: file_bytes_def entry_def)

lemmas os_defs = os_mkdir_all_def os_read_dir_def os_open_trunc_def os_write_def os_close_def
  os_rename_def os_remove_def os_read_file_def

lemma os_remove_cases:
  assumes "os_remove p d = (e, d')"
  shows "(e = Some OsFailure \<and> entry d' = entry d \<or> e = Some NotExist \<and> entry d p = None \<and> entry d' = entry d
      \<or> e = None \<and> entry d' = (entry d)(p := None))"
  using assms
  by (auto simp: os_remove_def entry_def [symmetric] split: fault.splits option.splits node.splits)

lemma distinct_dir_names: "distinct (dir_names dr d)"
  by (auto simp: dir_names_def distinct_map inj_on_def)

lemma set_dir_names: "set (dir_names dr d) = {name. entry d (dr, name) \<noteq> None}"
  by (force simp: dir_names_def entry_def map_of_eq_None_iff)

end
