(* ===== verification/Ring.thy ===== *)
theory Ring
  imports Prelude
begin

text \<open>
  What the server relies on from the retention ring: the interface between
  \<^verbatim>\<open>internal/server\<close> (the client) and \<^verbatim>\<open>internal/store\<close> (the provider). \<open>bounds\<close> and
  \<open>lookup\<close> are the two calls of the catch-up path (\<open>None\<close> is \<open>ErrNotRetained\<close>), \<open>store\<close> is
  the call of the source loop. The lemmas are what the catch-up path needs of any ring
  with these laws; the theory of the store interprets the locale on its model.
\<close>

locale ledger_ring =
  fixes ok :: "'s \<Rightarrow> bool"
    and bounds :: "'s \<Rightarrow> u32 \<times> u32 \<times> bool"
    and lookup :: "'s \<Rightarrow> u32 \<Rightarrow> bytes option"
    and store :: "'s \<Rightarrow> u32 \<Rightarrow> bytes list \<Rightarrow> 's"
  assumes bounds_lookup: "ok s \<Longrightarrow> bounds s = (lo, hi, f) \<Longrightarrow> lookup s q \<noteq> None \<longleftrightarrow> f \<and> lo \<le> q \<and> q \<le> hi"
    and store_ok: "ok s \<Longrightarrow> q \<noteq> 0 \<Longrightarrow> ok (store s q parts)"
    and store_bounds: "ok s \<Longrightarrow> q \<noteq> 0 \<Longrightarrow> \<exists>lo. bounds (store s q parts) = (lo, q, True)"
    and store_new: "ok s \<Longrightarrow> q \<noteq> 0 \<Longrightarrow> lookup (store s q parts) q = Some (concat parts)"
    and store_old: "ok s \<Longrightarrow> q \<noteq> 0 \<Longrightarrow> q' \<noteq> q \<Longrightarrow> lookup (store s q parts) q' = Some b \<Longrightarrow>
      lookup s q' = Some b"
begin

text \<open>A ring whose retained ledgers are the ledgers of the chain \<open>L\<close>.\<close>

definition agrees :: "(u32 \<Rightarrow> bytes) \<Rightarrow> 's \<Rightarrow> bool" where
  "agrees L s \<longleftrightarrow> (\<forall>q b. lookup s q = Some b \<longrightarrow> b = L q)"

lemma agrees_store:
  assumes "ok s" "q \<noteq> 0" "agrees L s" "concat parts = L q"
  shows "agrees L (store s q parts)"
  unfolding agrees_def
proof (intro allI impI)
  fix q' b assume "lookup (store s q parts) q' = Some b"
  then show "b = L q'"
    using assms store_new [OF assms(1,2), of parts] store_old [OF assms(1,2)]
    by (cases "q' = q") (auto simp: agrees_def)
qed

text \<open>After a store, everything up to it is either readable or older than the oldest.\<close>

lemma lookup_latest_bound: "ok s \<Longrightarrow> bounds s = (lo, hi, f) \<Longrightarrow> lookup s q \<noteq> None \<Longrightarrow> q \<le> hi"
  using bounds_lookup by blast

lemma store_readable: "ok s \<Longrightarrow> q \<noteq> 0 \<Longrightarrow> lookup (store s q parts) q \<noteq> None"
  by (simp add: store_new)

end

end
