(* ===== verification/Store.thy ===== *)
theory Store
  imports Disk Ring
begin

text \<open>
  \<^verbatim>\<open>internal/store/store.go\<close>: the disk-backed retention ring. The \<open>store\<close> record is the
  Go struct without its lock (each operation below is the critical section of one method),
  and every method that touches files takes the disk and returns it changed. Loops over
  sequences run on 32-bit words, as in the code.

  The lemmas: file names round-trip; a scan yields a sorted contiguous range; whatever
  calls fail, \<open>Put\<close> leaves the ledger files of the directory a contiguous range that
  ends at \<open>latest\<close>, so a later \<open>Open\<close> accepts it. Theory \<open>Store_Ring\<close> has what puts and reads give
  on a disk that works.
\<close>

section \<open>File names\<close>

definition filePrefix :: string where "filePrefix = ''ledger-''"
definition fileSuffix :: string where "fileSuffix = ''.xdr''"

definition LedgerFileName :: "u32 \<Rightarrow> string" where
  "LedgerFileName sq = filePrefix @ format_uint (unat sq) @ fileSuffix"

definition ParseLedgerFileName :: "string \<Rightarrow> u32 option" where
  "ParseLedgerFileName name =
     (if \<not> prefix filePrefix name \<or> \<not> suffix fileSuffix name then None
      else
        let digits = sub_slice (length filePrefix) (length name - length fileSuffix) name in
        case parse_uint 32 digits of None \<Rightarrow> None | Some n \<Rightarrow> Some (word_of_nat n))"

section \<open>The ring\<close>

datatype store_error =
    ErrRetention int
  | ErrCreateDir
  | ErrScan
  | ErrGap u32 u32
  | ErrInvalidSequence
  | ErrNotRetained
  | ErrWrite u32
  | ErrPublish u32
  | ErrRead u32
  | ErrPrune u32
  | ErrClear u32

record store =
  dir :: string
  retention :: int
  oldest :: u32
  latest :: u32
  filled :: bool

definition ledger_path :: "store \<Rightarrow> u32 \<Rightarrow> path" where
  "ledger_path s sq = (dir s, LedgerFileName sq)"

definition Bounds :: "store \<Rightarrow> u32 \<times> u32 \<times> bool" where
  "Bounds s = (oldest s, latest s, filled s)"

definition Retention :: "store \<Rightarrow> int" where
  "Retention s = retention s"

text \<open>The contiguity loop: the first neighbours that are not consecutive.\<close>

fun first_gap :: "u32 list \<Rightarrow> (u32 \<times> u32) option" where
  "first_gap (a # b # xs) = (if b \<noteq> a + 1 then Some (a, b) else first_gap (b # xs))"
| "first_gap _ = None"

definition ScanLedgerDir :: "string \<Rightarrow> disk \<Rightarrow> (store_error + u32 list) \<times> disk" where
  "ScanLedgerDir dr d =
     (case os_read_dir dr d of
        (Inl _, d') \<Rightarrow> (Inl ErrScan, d')
      | (Inr entries, d') \<Rightarrow>
          let seqs = sort (List.map_filter (\<lambda>(name, is_dir).
                if is_dir then None else ParseLedgerFileName name) entries) in
          (case first_gap seqs of
             Some (a, b) \<Rightarrow> (Inl (ErrGap a b), d')
           | None \<Rightarrow> (Inr seqs, d')))"

definition rescan :: "store \<Rightarrow> disk \<Rightarrow> store_error option \<times> store \<times> disk" where
  "rescan s d =
     (case ScanLedgerDir (dir s) d of
        (Inl e, d') \<Rightarrow> (Some e, s, d')
      | (Inr seqs, d') \<Rightarrow>
          if seqs = [] then (None, s, d')
          else (None, s\<lparr>oldest := hd seqs, latest := last seqs, filled := True\<rparr>, d'))"

text \<open>
  The pruning loop of \<^verbatim>\<open>pruneLocked\<close>. \<open>0 < ret\<close> only makes the recursion total: \<open>Open\<close>
  refuses any other retention before a ring exists (lemma \<open>Open_retention\<close>).
\<close>

function prune_loop :: "string \<Rightarrow> int \<Rightarrow> u32 \<Rightarrow> u32 \<Rightarrow> disk \<Rightarrow> store_error option \<times> u32 \<times> disk" where
  "prune_loop dr ret lat old d =
     (if 0 < ret \<and> uint (lat - old) + 1 > ret then
        (case os_remove (dr, LedgerFileName old) d of
           (Some OsFailure, d') \<Rightarrow> (Some (ErrPrune old), old, d')
         | (_, d') \<Rightarrow> prune_loop dr ret lat (old + 1) d')
      else (None, old, d))"
  by pat_completeness auto

lemma prune_measure:
  fixes lat old :: u32
  assumes "0 < ret" "ret < uint (lat - old) + 1"
  shows "unat (lat - (old + 1)) < unat (lat - old)"
  using assms unat_sub_step [of lat old] by (cases "lat = old") auto

termination prune_loop
  by (relation "measure (\<lambda>(dr, ret, lat, old, d). unat (lat - old))")
    (auto simp del: uint_nat dest: prune_measure)

declare prune_loop.simps [simp del]

text \<open>The clearing loop of \<^verbatim>\<open>clearLocked\<close>: it stops after the last sequence, before the increment.\<close>

function clear_loop :: "string \<Rightarrow> u32 \<Rightarrow> u32 \<Rightarrow> disk \<Rightarrow> store_error option \<times> disk" where
  "clear_loop dr lat sq d =
     (case os_remove (dr, LedgerFileName sq) d of
        (Some OsFailure, d') \<Rightarrow> (Some (ErrClear sq), d')
      | (_, d') \<Rightarrow> if sq = lat then (None, d') else clear_loop dr lat (sq + 1) d')"
  by pat_completeness auto

termination clear_loop
  by (relation "measure (\<lambda>(dr, lat, sq, d). unat (lat - sq))") (auto simp: unat_sub_step)

declare clear_loop.simps [simp del]

definition pruneLocked :: "store \<Rightarrow> disk \<Rightarrow> store_error option \<times> store \<times> disk" where
  "pruneLocked s d =
     (if \<not> filled s then (None, s, d)
      else case prune_loop (dir s) (retention s) (latest s) (oldest s) d of
        (e, old, d') \<Rightarrow> (e, s\<lparr>oldest := old\<rparr>, d'))"

definition clearLocked :: "store \<Rightarrow> disk \<Rightarrow> store_error option \<times> store \<times> disk" where
  "clearLocked s d =
     (case (if filled s then clear_loop (dir s) (latest s) (oldest s) d else (None, d)) of
        (Some e, d') \<Rightarrow> (Some e, s, d')
      | (None, d') \<Rightarrow> (None, s\<lparr>oldest := 0, latest := 0, filled := False\<rparr>, d'))"

definition Open :: "string \<Rightarrow> int \<Rightarrow> disk \<Rightarrow> (store_error + store) \<times> disk" where
  "Open dr ret d =
     (if ret \<le> 0 then (Inl (ErrRetention ret), d)
      else case os_mkdir_all dr d of
        (Some _, d1) \<Rightarrow> (Inl ErrCreateDir, d1)
      | (None, d1) \<Rightarrow>
          let s = \<lparr>dir = dr, retention = ret, oldest = 0, latest = 0, filled = False\<rparr> in
          (case rescan s d1 of
             (Some e, _, d2) \<Rightarrow> (Inl e, d2)
           | (None, s, d2) \<Rightarrow>
               (case pruneLocked s d2 of
                  (Some e, _, d3) \<Rightarrow> (Inl e, d3)
                | (None, s, d3) \<Rightarrow> (Inr s, d3))))"

text \<open>\<^verbatim>\<open>write\<close>: the parts go to a temporary file that is renamed into place.\<close>

fun write_parts :: "path \<Rightarrow> bytes list \<Rightarrow> disk \<Rightarrow> os_error option \<times> disk" where
  "write_parts tmp [] d = (None, d)"
| "write_parts tmp (p # ps) d =
     (case os_write tmp p d of
        (Some e, d') \<Rightarrow> (Some e, snd (os_close d'))
      | (None, d') \<Rightarrow> write_parts tmp ps d')"

definition tmp_path :: "path \<Rightarrow> path" where
  "tmp_path p = (fst p, snd p @ ''.tmp'')"

definition write_ledger :: "store \<Rightarrow> u32 \<Rightarrow> bytes list \<Rightarrow> disk \<Rightarrow> store_error option \<times> disk" where
  "write_ledger s sq parts d =
     (let final = ledger_path s sq; tmp = tmp_path final in
      case os_open_trunc tmp d of
        (Some _, d1) \<Rightarrow> (Some (ErrWrite sq), d1)
      | (None, d1) \<Rightarrow>
          (case write_parts tmp parts d1 of
             (Some _, d2) \<Rightarrow> (Some (ErrWrite sq), d2)
           | (None, d2) \<Rightarrow>
               (case os_close d2 of
                  (Some _, d3) \<Rightarrow> (Some (ErrWrite sq), d3)
                | (None, d3) \<Rightarrow>
                    (case os_rename tmp final d3 of
                       (Some _, d4) \<Rightarrow> (Some (ErrPublish sq), d4)
                     | (None, d4) \<Rightarrow> (None, d4)))))"

text \<open>The result of a put: \<^verbatim>\<open>reset\<close>, the error, and the store and disk it leaves.\<close>

definition put :: "store \<Rightarrow> disk \<Rightarrow> u32 \<Rightarrow> bytes list
    \<Rightarrow> (bool \<times> store_error option) \<times> store \<times> disk" where
  "put s d sq parts =
     (if sq = 0 then ((False, Some ErrInvalidSequence), s, d)
      else
        let rst = filled s \<and> sq \<noteq> latest s + 1 in
        case (if rst then clearLocked s d else (None, s, d)) of
          (Some e, s1, d1) \<Rightarrow> ((False, Some e), s1, d1)
        | (None, s1, d1) \<Rightarrow>
            (case write_ledger s1 sq parts d1 of
               (Some e, d2) \<Rightarrow> ((rst, Some e), s1, d2)
             | (None, d2) \<Rightarrow>
                 let s2 = (if filled s1 then s1\<lparr>latest := sq\<rparr>
                           else s1\<lparr>oldest := sq, latest := sq, filled := True\<rparr>) in
                 (case pruneLocked s2 d2 of (e, s3, d3) \<Rightarrow> ((rst, e), s3, d3))))"

definition PutParts :: "store \<Rightarrow> disk \<Rightarrow> u32 \<Rightarrow> bytes list
    \<Rightarrow> (bool \<times> store_error option) \<times> store \<times> disk" where
  "PutParts s d sq parts = put s d sq parts"

definition Put :: "store \<Rightarrow> disk \<Rightarrow> u32 \<Rightarrow> bytes
    \<Rightarrow> (bool \<times> store_error option) \<times> store \<times> disk" where
  "Put s d sq raw = put s d sq [raw]"

text \<open>
  \<^verbatim>\<open>Get\<close> copies the bounds under the lock and reads the file after releasing it, so the
  disk it reads may be a later one: \<open>Get_read\<close> is the second half, on the bounds the first
  half saw.
\<close>

definition Get_read :: "store \<Rightarrow> u32 \<Rightarrow> disk \<Rightarrow> (store_error + bytes) \<times> disk" where
  "Get_read snap sq d =
     (if \<not> filled snap \<or> sq < oldest snap \<or> sq > latest snap then (Inl ErrNotRetained, d)
      else case os_read_file (ledger_path snap sq) d of
        (Inl NotExist, d') \<Rightarrow> (Inl ErrNotRetained, d')
      | (Inl OsFailure, d') \<Rightarrow> (Inl (ErrRead sq), d')
      | (Inr raw, d') \<Rightarrow> (Inr raw, d'))"

definition Get :: "store \<Rightarrow> disk \<Rightarrow> u32 \<Rightarrow> (store_error + bytes) \<times> disk" where
  "Get s d sq = Get_read s sq d"

section \<open>File names round-trip\<close>

lemma suffix_fileSuffix: "suffix fileSuffix (xs @ fileSuffix)"
  by (simp add: suffix_def)

lemma Parse_LedgerFileName [simp]: "ParseLedgerFileName (LedgerFileName sq) = Some sq"
proof -
  let ?d = "format_uint (unat sq)"
  have "suffix fileSuffix (LedgerFileName sq)"
    using suffix_fileSuffix [of "filePrefix @ ?d"] by (simp add: LedgerFileName_def)
  moreover have "parse_uint 32 ?d = Some (unat sq)"
    by (rule parse_format_uint) simp
  moreover have "sub_slice (length filePrefix) (length (LedgerFileName sq) - length fileSuffix)
      (LedgerFileName sq) = ?d"
    by (simp add: LedgerFileName_def sub_slice_append_skip)
  ultimately show ?thesis
    by (simp add: ParseLedgerFileName_def LedgerFileName_def Let_def)
qed

lemma LedgerFileName_inject [simp]: "LedgerFileName a = LedgerFileName b \<longleftrightarrow> a = b"
  by (metis Parse_LedgerFileName option.inject)

lemma Parse_tmp [simp]: "ParseLedgerFileName (name @ ''.tmp'') = None"
  by (simp add: ParseLedgerFileName_def fileSuffix_def suffix_def)

lemma tmp_not_ledger [simp]: "LedgerFileName sq \<noteq> name @ ''.tmp''"
  by (metis Parse_LedgerFileName Parse_tmp option.distinct(1))

section \<open>What each helper does to the directory\<close>

text \<open>The entries with the ledger files of a set of sequences removed.\<close>

definition drop_ledgers :: "string \<Rightarrow> u32 set \<Rightarrow> (path \<Rightarrow> node option) \<Rightarrow> path \<Rightarrow> node option" where
  "drop_ledgers dr A f = (\<lambda>p. if p \<in> (\<lambda>q. (dr, LedgerFileName q)) ` A then None else f p)"

lemma drop_ledgers_empty [simp]: "drop_ledgers dr {} f = f"
  by (simp add: drop_ledgers_def)

lemma drop_ledgers_twice [simp]: "drop_ledgers dr A (drop_ledgers dr B f) = drop_ledgers dr (A \<union> B) f"
  by (auto simp: drop_ledgers_def fun_eq_iff)

lemma drop_ledgers_single:
  "f((dr, LedgerFileName q) := None) = drop_ledgers dr {q} f"
  by (auto simp: drop_ledgers_def fun_eq_iff)

lemma drop_ledgers_absent: "f (dr, LedgerFileName q) = None \<Longrightarrow> drop_ledgers dr {q} f = f"
  by (auto simp: drop_ledgers_def fun_eq_iff)

lemma drop_ledgers_apply [simp]:
  "drop_ledgers dr A f (dr', LedgerFileName q) = (if dr' = dr \<and> q \<in> A then None else f (dr', LedgerFileName q))"
  by (auto simp: drop_ledgers_def)

lemma os_remove_ledger:
  assumes "os_remove (dr, LedgerFileName sq) d = (e, d')"
  shows "e = Some OsFailure \<and> entry d' = entry d
      \<or> e \<noteq> Some OsFailure \<and> entry d' = drop_ledgers dr {sq} (entry d)"
  using os_remove_cases [OF assms] by (auto simp: drop_ledgers_single drop_ledgers_absent)

lemma os_error_cases: "e \<noteq> Some OsFailure \<Longrightarrow> e = None \<or> e = Some NotExist"
  by (cases e; cases "the e") auto


lemma clear_loop_fail:
  "os_remove (dr, LedgerFileName sq) d = (Some OsFailure, d1) \<Longrightarrow>
     clear_loop dr lat sq d = (Some (ErrClear sq), d1)"
  by (simp add: clear_loop.simps [of dr lat sq d])

lemma clear_loop_step:
  "os_remove (dr, LedgerFileName sq) d = (r, d1) \<Longrightarrow> r \<noteq> Some OsFailure \<Longrightarrow>
     clear_loop dr lat sq d = (if sq = lat then (None, d1) else clear_loop dr lat (sq + 1) d1)"
  by (drule os_error_cases) (auto simp: clear_loop.simps [of dr lat sq d])

text \<open>The clearing loop removes from its start upwards, up to the first call that fails.\<close>

lemma clear_loop_spec:
  "clear_loop dr lat sq d = (e, d') \<Longrightarrow> sq \<le> lat \<Longrightarrow>
     (e = None \<and> entry d' = drop_ledgers dr {sq..lat} (entry d)) \<or>
     (e \<noteq> None \<and> (\<exists>b. sq \<le> b \<and> b \<le> lat \<and> entry d' = drop_ledgers dr {sq..<b} (entry d)))"
proof (induction "unat (lat - sq)" arbitrary: sq d)
  case 0
  then have "lat = sq" using unat_sub_step [of lat sq] by auto
  obtain r d1 where r: "os_remove (dr, LedgerFileName sq) d = (r, d1)"
    by fastforce
  show ?case
  proof (cases "r = Some OsFailure")
    case True
    with 0 r os_remove_ledger [OF r] show ?thesis
      by (auto simp: clear_loop_fail intro!: exI [of _ sq])
  next
    case False
    with "0.prems" clear_loop_step [OF r False] os_remove_ledger [OF r] \<open>lat = sq\<close> show ?thesis
      by auto
  qed
next
  case (Suc n)
  then have neq: "sq \<noteq> lat" by auto
  with Suc.prems have lt: "sq < lat" by simp
  have next_le: "sq + 1 \<le> b \<longleftrightarrow> sq < b" for b
    by (intro u32_Suc_le_iff u32_less_not_max [OF lt])
  obtain r d1 where r: "os_remove (dr, LedgerFileName sq) d = (r, d1)"
    by fastforce
  show ?case
  proof (cases "r = Some OsFailure")
    case True
    with Suc.prems r os_remove_ledger [OF r] show ?thesis
      by (auto simp: clear_loop_fail intro!: exI [of _ sq])
  next
    case False
    with os_remove_ledger [OF r] have d1: "entry d1 = drop_ledgers dr {sq} (entry d)"
      by auto
    from clear_loop_step [OF r False] neq Suc.prems
    have rec: "clear_loop dr lat (sq + 1) d1 = (e, d')"
      by simp
    have n: "n = unat (lat - (sq + 1))"
      using Suc.hyps(2) unat_sub_step [of lat sq] neq by auto
    have "sq + 1 \<le> lat" using lt next_le by blast
    from Suc.hyps(1) [OF n rec this] show ?thesis
      using d1 u32_interval_step_le [OF lt] u32_interval_step [OF u32_less_not_max [OF lt]] next_le
      by (auto simp: insert_commute) (metis order_less_imp_le)+
  qed
qed

lemma prune_loop_stop:
  "\<not> (0 < ret \<and> uint (lat - old) + 1 > ret) \<Longrightarrow> prune_loop dr ret lat old d = (None, old, d)"
  by (subst prune_loop.simps) (simp only: if_False)

lemma prune_loop_fail:
  "0 < ret \<Longrightarrow> uint (lat - old) + 1 > ret \<Longrightarrow>
   os_remove (dr, LedgerFileName old) d = (Some OsFailure, d1) \<Longrightarrow>
     prune_loop dr ret lat old d = (Some (ErrPrune old), old, d1)"
  by (subst prune_loop.simps) simp

lemma prune_loop_step:
  "0 < ret \<Longrightarrow> uint (lat - old) + 1 > ret \<Longrightarrow>
   os_remove (dr, LedgerFileName old) d = (r, d1) \<Longrightarrow> r \<noteq> Some OsFailure \<Longrightarrow>
     prune_loop dr ret lat old d = prune_loop dr ret lat (old + 1) d1"
  by (drule os_error_cases) (auto simp: prune_loop.simps [of dr ret lat old d])

text \<open>
  The pruning loop removes from the oldest ledger upwards, never the latest one; when no
  call fails it stops exactly at the retention count.
\<close>

lemma prune_loop_spec:
  "prune_loop dr ret lat old d = (e, old', d') \<Longrightarrow> old \<le> lat \<Longrightarrow> 0 < ret \<Longrightarrow>
     old \<le> old' \<and> old' \<le> lat \<and> entry d' = drop_ledgers dr {old..<old'} (entry d) \<and>
     (e = None \<longrightarrow> int (unat (lat - old')) + 1 \<le> ret \<and>
        (old' = old \<or> int (unat (lat - old')) + 1 = ret))"
proof (induction "unat (lat - old)" arbitrary: old d rule: less_induct)
  case less
  show ?case
  proof (cases "uint (lat - old) + 1 > ret")
    case False
    then show ?thesis
      using less.prems prune_loop_stop [of ret lat old dr d] by auto
  next
    case True
    have neq: "lat \<noteq> old"
      using True less.prems by auto
    with less.prems have lt: "old < lat" by simp
    note notmax = u32_less_not_max [OF lt]
    have next_le: "old + 1 \<le> b \<longleftrightarrow> old < b" for b
      by (intro u32_Suc_le_iff notmax)
    obtain r d1 where r: "os_remove (dr, LedgerFileName old) d = (r, d1)"
      by fastforce
    show ?thesis
    proof (cases "r = Some OsFailure")
      case fail: True
      with less.prems r True os_remove_ledger [OF r] show ?thesis
        by (auto simp: prune_loop_fail)
    next
      case ok: False
      with os_remove_ledger [OF r] have d1: "entry d1 = drop_ledgers dr {old} (entry d)"
        by auto
      have rec: "prune_loop dr ret lat (old + 1) d1 = (e, old', d')"
        using prune_loop_step [OF less.prems(3) True r ok] less.prems(1) by simp
      have decr: "unat (lat - (old + 1)) < unat (lat - old)"
        using unat_sub_step [OF neq] by simp
      have "old + 1 \<le> lat" using lt next_le by blast
      note IH = less.hyps [OF decr rec this less.prems(3)]
      have "int (unat (lat - old)) \<ge> ret"
        using True by simp
      then have "ret \<le> int (unat (lat - (old + 1))) + 1"
        using unat_sub_step [OF neq] by linarith
      then show ?thesis
        using IH d1 u32_interval_step [OF notmax, of old'] next_le [of old']
        by (auto simp: insert_commute)
    qed
  qed
qed

lemma write_parts_spec:
  "write_parts tmp parts d = (e, d') \<Longrightarrow> entry d tmp = Some (RegFile b) \<Longrightarrow>
     (e = None \<and> entry d' = (entry d)(tmp \<mapsto> RegFile (b @ concat parts))) \<or>
     (e \<noteq> None \<and> (\<exists>x. entry d' = (entry d)(tmp \<mapsto> RegFile x)))"
proof (induction parts arbitrary: d b)
  case Nil
  then show ?case by (auto simp: fun_eq_iff)
next
  case (Cons p ps)
  show ?case
  proof (cases "next_fault d")
    case Fine
    let ?d1 = "set_file tmp (b @ p) (tick d)"
    have "write_parts tmp ps ?d1 = (e, d')"
      using Cons.prems Fine by (simp add: os_write_def file_bytes_entry)
    moreover have "entry ?d1 tmp = Some (RegFile (b @ p))" by simp
    ultimately have "(e = None \<and> entry d' = (entry ?d1)(tmp \<mapsto> RegFile ((b @ p) @ concat ps))) \<or>
        (e \<noteq> None \<and> (\<exists>x. entry d' = (entry ?d1)(tmp \<mapsto> RegFile x)))"
      by (rule Cons.IH)
    then show ?thesis
      by (simp only: entry_set_file entry_tick fun_upd_upd append_assoc concat.simps)
  next
    case (Fails n)
    with Cons.prems show ?thesis
      by (auto simp: os_write_def file_bytes_entry os_close_def split: fault.splits)
  qed
qed


text \<open>
  Writing a ledger: the final name appears with the whole content, or only the temporary
  file is touched.
\<close>

lemma write_ledger_spec:
  assumes "write_ledger s sq parts d = (e, d')"
  defines "final \<equiv> ledger_path s sq"
  defines "tmp \<equiv> tmp_path final"
  shows "(e = None \<and> entry d' = (entry d)(tmp := None, final \<mapsto> RegFile (concat parts)))
      \<or> (e \<noteq> None \<and> (\<exists>x. entry d' = (entry d)(tmp := x) \<and> (x = Some SubDir \<longrightarrow> entry d tmp = x)))"
proof -
  have unchanged: "\<exists>x. entry d = (entry d)(tmp := x) \<and> (x = Some SubDir \<longrightarrow> entry d tmp = x)"
    by (rule exI [of _ "entry d tmp"]) simp
  obtain e1 d1 where open1: "os_open_trunc tmp d = (e1, d1)" by fastforce
  show ?thesis
  proof (cases e1)
    case (Some x)
    with open1 have "entry d1 = entry d"
      by (auto simp: os_open_trunc_def split: fault.splits if_splits)
    with assms(1) open1 Some unchanged show ?thesis
      by (auto simp: write_ledger_def Let_def final_def [symmetric] tmp_def [symmetric])
  next
    case None
    with open1 have d1: "entry d1 = (entry d)(tmp \<mapsto> RegFile [])"
      by (auto simp: os_open_trunc_def split: fault.splits if_splits)
    obtain e2 d2 where write2: "write_parts tmp parts d1 = (e2, d2)" by fastforce
    from write_parts_spec [OF this, of "[]"] d1
    have d2: "(e2 = None \<and> entry d2 = (entry d)(tmp \<mapsto> RegFile (concat parts))) \<or>
        (e2 \<noteq> None \<and> (\<exists>x. entry d2 = (entry d)(tmp \<mapsto> RegFile x)))"
      by simp
    show ?thesis
    proof (cases e2)
      case (Some x)
      with assms(1) open1 None write2 d2 show ?thesis
        by (auto simp: write_ledger_def Let_def final_def [symmetric] tmp_def [symmetric])
    next
      case none2: None
      obtain e3 d3 where close3: "os_close d2 = (e3, d3)" by fastforce
      have d3: "entry d3 = entry d2"
        using close3 by (auto simp: os_close_def split: fault.splits)
      obtain e4 d4 where rename4: "os_rename tmp final d3 = (e4, d4)" by fastforce
      have d4: "(e4 = None \<and> entry d4 = (entry d)(tmp := None, final \<mapsto> RegFile (concat parts))) \<or>
          (e4 \<noteq> None \<and> entry d4 = entry d3)"
        using rename4 d2 d3 none2
        by (auto simp: os_rename_def file_bytes_entry split: fault.splits option.splits if_splits)
      show ?thesis
        using assms(1) open1 None write2 none2 close3 rename4 d2 d3 d4
        by (cases e3; cases e4)
          (auto simp: write_ledger_def Let_def final_def [symmetric] tmp_def [symmetric])
    qed
  qed
qed

section \<open>The invariant of the ring\<close>

text \<open>
  \<open>clean_dir\<close>: every entry that parses as a ledger name is a regular file under the name the
  ring gives that sequence. \<open>ring_inv\<close>: the ledger files of the directory are a contiguous
  range that ends at \<open>latest\<close> and starts at or after \<open>oldest\<close> (after it only when an
  earlier operation failed half way).
\<close>

definition clean_dir :: "string \<Rightarrow> disk \<Rightarrow> bool" where
  "clean_dir dr d \<longleftrightarrow>
     (\<forall>name n. entry d (dr, name) = Some n \<longrightarrow> ParseLedgerFileName name \<noteq> None \<longrightarrow>
        (\<exists>b q. n = RegFile b \<and> name = LedgerFileName q))"

definition ledgers_on :: "string \<Rightarrow> disk \<Rightarrow> u32 set" where
  "ledgers_on dr d = {q. entry d (dr, LedgerFileName q) \<noteq> None}"

definition ring_inv :: "store \<Rightarrow> disk \<Rightarrow> bool" where
  "ring_inv s d \<longleftrightarrow> clean_dir (dir s) d \<and> 0 < retention s \<and>
     (if filled s
      then \<exists>k. oldest s \<le> k \<and> k \<le> latest s \<and> ledgers_on (dir s) d = {k..latest s}
      else ledgers_on (dir s) d = {})"

lemma ledgers_on_drop:
  "entry d' = drop_ledgers dr A (entry d) \<Longrightarrow> ledgers_on dr d' = ledgers_on dr d - A"
  by (auto simp: ledgers_on_def)

lemma clean_dir_drop:
  "entry d' = drop_ledgers dr' A (entry d) \<Longrightarrow> clean_dir dr d \<Longrightarrow> clean_dir dr d'"
  unfolding clean_dir_def by (metis drop_ledgers_def option.distinct(1))

lemma clean_dir_tmp:
  "entry d' = (entry d)(tmp_path (ledger_path s q) := x) \<Longrightarrow> clean_dir dr d \<Longrightarrow> clean_dir dr d'"
  by (auto simp: clean_dir_def tmp_path_def ledger_path_def)

lemma ledgers_on_tmp:
  "entry d' = (entry d)(tmp_path (ledger_path s q) := x) \<Longrightarrow> ledgers_on dr d' = ledgers_on dr d"
  by (auto simp: ledgers_on_def tmp_path_def ledger_path_def)

lemma clearLocked_inv:
  assumes "ring_inv s d" "clearLocked s d = (e, s1, d1)"
  shows "ring_inv s1 d1 \<and> dir s1 = dir s \<and> retention s1 = retention s
    \<and> (e = None \<longrightarrow> \<not> filled s1) \<and> (e \<noteq> None \<longrightarrow> s1 = s)"
proof (cases "filled s")
  case False
  with assms show ?thesis by (auto simp: clearLocked_def ring_inv_def)
next
  case True
  with assms obtain k where k: "oldest s \<le> k" "k \<le> latest s" "ledgers_on (dir s) d = {k..latest s}"
    by (auto simp: ring_inv_def)
  obtain e' d' where loop: "clear_loop (dir s) (latest s) (oldest s) d = (e', d')" by fastforce
  have le: "oldest s \<le> latest s" using k by simp
  from clear_loop_spec [OF loop le] show ?thesis
  proof (elim disjE conjE exE)
    assume "e' = None" and d': "entry d' = drop_ledgers (dir s) {oldest s..latest s} (entry d)"
    then show ?thesis
      using assms True loop k clean_dir_drop [OF d'] ledgers_on_drop [OF d']
      by (auto simp: clearLocked_def ring_inv_def)
  next
    fix b assume "e' \<noteq> None" and b: "oldest s \<le> b" "b \<le> latest s"
      and d': "entry d' = drop_ledgers (dir s) {oldest s..<b} (entry d)"
    have "ledgers_on (dir s) d' = {max k b..latest s}"
      using ledgers_on_drop [OF d'] k by auto
    moreover have "oldest s \<le> max k b" "max k b \<le> latest s"
      using k b by (auto simp: max_def)
    ultimately show ?thesis
      using assms True loop clean_dir_drop [OF d'] \<open>e' \<noteq> None\<close>
      by (auto simp: clearLocked_def ring_inv_def)
  qed
qed

lemma pruneLocked_inv:
  assumes "ring_inv s d" "pruneLocked s d = (e, s1, d1)"
  shows "ring_inv s1 d1 \<and> dir s1 = dir s \<and> retention s1 = retention s \<and>
    latest s1 = latest s \<and> filled s1 = filled s"
proof (cases "filled s")
  case False
  with assms show ?thesis by (auto simp: pruneLocked_def)
next
  case True
  with assms obtain k where k: "oldest s \<le> k" "k \<le> latest s" "ledgers_on (dir s) d = {k..latest s}"
    and ret: "0 < retention s"
    by (auto simp: ring_inv_def)
  obtain e' old' d' where loop: "prune_loop (dir s) (retention s) (latest s) (oldest s) d = (e', old', d')"
    by (metis prod_cases3)
  have "oldest s \<le> latest s" using k by simp
  from prune_loop_spec [OF loop this ret]
  have old': "oldest s \<le> old'" "old' \<le> latest s"
    and d': "entry d' = drop_ledgers (dir s) {oldest s..<old'} (entry d)"
    by auto
  have "ledgers_on (dir s) d' = {max k old'..latest s}"
    using ledgers_on_drop [OF d'] k by auto
  moreover have "old' \<le> max k old'" "max k old' \<le> latest s"
    using k old' by (auto simp: max_def)
  ultimately show ?thesis
    using assms True loop clean_dir_drop [OF d']
    by (auto simp: pruneLocked_def ring_inv_def)
qed

text \<open>A complete ledger file joins the directory.\<close>

lemma write_ledger_ok:
  assumes "write_ledger s sq parts d = (None, d')" "clean_dir (dir s) d"
  shows "clean_dir (dir s) d' \<and> ledgers_on (dir s) d' = insert sq (ledgers_on (dir s) d)"
  using write_ledger_spec [OF assms(1)] assms(2)
  by (auto simp: clean_dir_def ledgers_on_def ledger_path_def tmp_path_def)

lemma write_ledger_failed:
  assumes "write_ledger s sq parts d = (Some e, d')" "ring_inv s d"
  shows "ring_inv s d'"
proof -
  from write_ledger_spec [OF assms(1)] obtain x
    where d': "entry d' = (entry d)(tmp_path (ledger_path s sq) := x)"
    by auto
  show ?thesis
    using assms(2) clean_dir_tmp [OF d', of "dir s"] ledgers_on_tmp [OF d', of "dir s"]
    by (auto simp: ring_inv_def)
qed

text \<open>The bounds after a write: the new ledger extends the ring or starts it.\<close>

definition extend :: "store \<Rightarrow> u32 \<Rightarrow> store" where
  "extend s sq = (if filled s then s\<lparr>latest := sq\<rparr>
                  else s\<lparr>oldest := sq, latest := sq, filled := True\<rparr>)"

lemma u32_Suc_not_0: "a + 1 \<noteq> 0 \<Longrightarrow> a \<noteq> max_u32" for a :: u32
  by auto

lemma extend_inv:
  assumes "ring_inv s d" "write_ledger s sq parts d = (None, d')" "sq \<noteq> 0"
    and next1: "filled s \<Longrightarrow> sq = latest s + 1"
  shows "ring_inv (extend s sq) d'"
proof (cases "filled s")
  case False
  with assms(1) write_ledger_ok [OF assms(2)] show ?thesis
    by (auto simp: ring_inv_def extend_def)
next
  case True
  with assms(1) obtain k where k: "oldest s \<le> k" "k \<le> latest s" "ledgers_on (dir s) d = {k..latest s}"
    and clean: "clean_dir (dir s) d" and ret: "0 < retention s"
    by (auto simp: ring_inv_def)
  have notmax: "latest s \<noteq> max_u32"
    using assms(3) next1 [OF True] by (intro u32_Suc_not_0) simp
  have lt: "latest s < latest s + 1"
    using u32_Suc_le_iff [OF notmax] by blast
  have "insert (latest s + 1) {k..latest s} = {k..latest s + 1}"
  proof (rule set_eqI)
    fix x
    have "x \<le> latest s + 1 \<longleftrightarrow> x \<le> latest s \<or> x = latest s + 1"
      using u32_Suc_le_iff [OF notmax, of x] by auto
    with k lt show "x \<in> insert (latest s + 1) {k..latest s} \<longleftrightarrow> x \<in> {k..latest s + 1}"
      by auto
  qed
  with write_ledger_ok [OF assms(2) clean] k lt ret True next1 [OF True] show ?thesis
    by (auto simp: ring_inv_def extend_def intro!: exI [of _ k])
qed

text \<open>Clearing and pruning only remove entries.\<close>

definition only_removes :: "disk \<Rightarrow> disk \<Rightarrow> bool" where
  "only_removes d d1 \<longleftrightarrow> (\<forall>p. entry d1 p = None \<or> entry d1 p = entry d p)"

lemma only_removes_refl [simp]: "only_removes d d"
  by (simp add: only_removes_def)

lemma only_removes_drop: "entry d1 = drop_ledgers dr A (entry d) \<Longrightarrow> only_removes d d1"
  by (auto simp: only_removes_def drop_ledgers_def)

lemma only_removes_entry: "only_removes d d1 \<Longrightarrow> entry d1 p = Some n \<Longrightarrow> entry d p = Some n"
  by (metis only_removes_def option.distinct(1))

lemma clearLocked_removes:
  assumes "ring_inv s d" "clearLocked s d = (e, s1, d1)"
  shows "only_removes d d1"
proof (cases "filled s")
  case False
  with assms show ?thesis by (auto simp: clearLocked_def)
next
  case True
  with assms(1) have "oldest s \<le> latest s" by (auto simp: ring_inv_def)
  moreover obtain e' d' where loop: "clear_loop (dir s) (latest s) (oldest s) d = (e', d')" by fastforce
  moreover have "d1 = d'"
    using assms(2) True loop by (auto simp: clearLocked_def split: option.splits)
  ultimately show ?thesis
    using clear_loop_spec [OF loop] only_removes_drop by metis
qed

lemma pruneLocked_removes:
  assumes "ring_inv s d" "pruneLocked s d = (e, s1, d1)"
  shows "only_removes d d1"
proof (cases "filled s")
  case False
  with assms show ?thesis by (auto simp: pruneLocked_def)
next
  case True
  with assms(1) have "oldest s \<le> latest s" "0 < retention s" by (auto simp: ring_inv_def)
  moreover obtain e' old' d' where
    loop: "prune_loop (dir s) (retention s) (latest s) (oldest s) d = (e', old', d')"
    by (metis prod_cases3)
  moreover have "d1 = d'"
    using assms(2) True loop by (auto simp: pruneLocked_def)
  ultimately show ?thesis
    using prune_loop_spec [OF loop] only_removes_drop by metis
qed

text \<open>The stages of a put: what it left behind when it returned.\<close>

lemma put_cases [consumes 2, case_names zero clear_failed write_failed written]:
  assumes "ring_inv s d" "put s d sq parts = (r, s', d')"
  obtains
    (zero) "sq = 0" "s' = s" "d' = d"
  | (clear_failed) "ring_inv s' d'" "s' = s" "only_removes d d'"
  | (write_failed) d1 e where "ring_inv s' d1" "only_removes d d1" "dir s' = dir s"
      "retention s' = retention s" "write_ledger s' sq parts d1 = (Some e, d')"
  | (written) s1 d1 d2 e where "ring_inv s1 d1" "only_removes d d1" "dir s1 = dir s"
      "retention s1 = retention s" "write_ledger s1 sq parts d1 = (None, d2)"
      "ring_inv (extend s1 sq) d2" "pruneLocked (extend s1 sq) d2 = (e, s', d')"
proof (cases "sq = 0")
  case True
  with assms show ?thesis by (intro zero) (auto simp: put_def)
next
  case nz: False
  let ?rst = "filled s \<and> sq \<noteq> latest s + 1"
  obtain e1 s1 d1 where clear: "(if ?rst then clearLocked s d else (None, s, d)) = (e1, s1, d1)"
    by (metis prod_cases3)
  have inv1: "ring_inv s1 d1 \<and> dir s1 = dir s \<and> retention s1 = retention s \<and> only_removes d d1
      \<and> (e1 = None \<longrightarrow> filled s1 \<longrightarrow> sq = latest s1 + 1) \<and> (e1 \<noteq> None \<longrightarrow> s1 = s)"
    using clear clearLocked_inv [OF assms(1)] clearLocked_removes [OF assms(1)] assms(1)
    by (auto split: if_splits)
  show ?thesis
  proof (cases e1)
    case (Some e)
    with assms(2) nz clear inv1 show ?thesis by (intro clear_failed) (auto simp: put_def Let_def)
  next
    case none1: None
    obtain e2 d2 where wr: "write_ledger s1 sq parts d1 = (e2, d2)" by fastforce
    show ?thesis
    proof (cases e2)
      case (Some e)
      with assms(2) nz clear none1 wr have "s' = s1" "d' = d2"
        by (auto simp: put_def Let_def)
      with inv1 wr Some show ?thesis by (intro write_failed [of d1 e]) auto
    next
      case none2: None
      have inv2: "ring_inv (extend s1 sq) d2"
        using inv1 none1 wr none2 nz by (intro extend_inv) auto
      obtain e3 s3 d3 where pr: "pruneLocked (extend s1 sq) d2 = (e3, s3, d3)"
        by (metis prod_cases3)
      have "s' = s3" "d' = d3"
        using assms(2) nz clear none1 wr none2 pr by (auto simp: put_def Let_def extend_def)
      with inv1 inv2 wr none2 pr show ?thesis by (intro written [of s1 d1 d2 e3]) auto
    qed
  qed
qed

lemma extend_frame [simp]: "dir (extend s sq) = dir s" "retention (extend s sq) = retention s"
  by (simp_all add: extend_def)

lemma put_inv:
  assumes "ring_inv s d" "put s d sq parts = (r, s', d')"
  shows "ring_inv s' d' \<and> dir s' = dir s \<and> retention s' = retention s"
  using assms
proof (cases rule: put_cases)
  case (write_failed d1 e)
  then show ?thesis using write_ledger_failed by blast
next
  case (written s1 d1 d2 e)
  then show ?thesis using pruneLocked_inv [OF written(6,7)] by simp
qed (use assms in auto)

section \<open>Scanning and opening\<close>

lemma first_gap_interval:
  fixes a b :: u32
  shows "sorted xs \<Longrightarrow> distinct xs \<Longrightarrow> set xs = {a..b} \<Longrightarrow> a \<le> b \<Longrightarrow>
     first_gap xs = None \<and> xs \<noteq> [] \<and> hd xs = a \<and> last xs = b"
proof (induction xs arbitrary: a)
  case Nil
  then show ?case by auto
next
  case (Cons x ys)
  have x: "x = a"
  proof (rule antisym)
    have "a \<in> set (x # ys)" using Cons.prems by auto
    then show "x \<le> a" using Cons.prems(1) by auto
    show "a \<le> x" using Cons.prems(3) by auto
  qed
  have ys: "set ys = {a..b} - {a}"
    using Cons.prems(2,3) x by auto
  show ?case
  proof (cases "a = b")
    case True
    with ys have "ys = []" by auto
    with x True show ?thesis by simp
  next
    case False
    with Cons.prems(4) have lt: "a < b" by simp
    note step = u32_Suc_le_iff [OF u32_less_not_max [OF lt]]
    have "set ys = {a + 1..b}"
      using ys step by auto
    moreover have "a + 1 \<le> b" using lt step by blast
    ultimately have IH: "first_gap ys = None \<and> ys \<noteq> [] \<and> hd ys = a + 1 \<and> last ys = b"
      using Cons.prems(1,2) by (intro Cons.IH) auto
    then obtain zs where "ys = (a + 1) # zs" by (cases ys) auto
    with IH x show ?thesis by simp
  qed
qed

lemma first_gap_consecutive:
  "first_gap xs = None \<Longrightarrow> Suc i < length xs \<Longrightarrow> xs ! Suc i = xs ! i + 1"
proof (induction xs arbitrary: i rule: first_gap.induct)
  case (1 a b xs)
  then show ?case by (cases i) (auto split: if_splits)
qed auto

definition scanned :: "string \<Rightarrow> disk \<Rightarrow> u32 list" where
  "scanned dr d = List.map_filter (\<lambda>(name, is_dir). if is_dir then None else ParseLedgerFileName name)
     (map (\<lambda>name. (name, map_of (files d) (dr, name) = Some SubDir)) (dir_names dr d))"

lemma ScanLedgerDir_fine:
  "next_fault d = Fine \<Longrightarrow> ScanLedgerDir dr d =
     (case first_gap (sort (scanned dr d)) of
        Some (a, b) \<Rightarrow> (Inl (ErrGap a b), tick d)
      | None \<Rightarrow> (Inr (sort (scanned dr d)), tick d))"
  by (simp add: ScanLedgerDir_def os_read_dir_def scanned_def Let_def split: option.split)

lemma scanned_filter:
  "scanned dr d = map (the \<circ> ParseLedgerFileName)
     (filter (\<lambda>name. entry d (dr, name) \<noteq> Some SubDir \<and> ParseLedgerFileName name \<noteq> None) (dir_names dr d))"
proof -
  have "scanned dr d = List.map_filter
      (\<lambda>name. if entry d (dr, name) = Some SubDir then None else ParseLedgerFileName name)
      (dir_names dr d)"
    by (simp add: scanned_def map_filter_def filter_map comp_def entry_def)
  then show ?thesis
    by (simp only: map_filter_guard)
qed

lemma set_scanned: "clean_dir dr d \<Longrightarrow> set (scanned dr d) = ledgers_on dr d"
  by (force simp: scanned_filter set_dir_names ledgers_on_def clean_dir_def)

lemma distinct_scanned: "clean_dir dr d \<Longrightarrow> distinct (scanned dr d)"
proof -
  assume clean: "clean_dir dr d"
  have "name = LedgerFileName (the (ParseLedgerFileName name))"
    if "entry d (dr, name) \<noteq> None" "ParseLedgerFileName name \<noteq> None" for name
    using clean that by (fastforce simp: clean_dir_def)
  then have "inj_on (the \<circ> ParseLedgerFileName)
      {name. entry d (dr, name) \<noteq> None \<and> ParseLedgerFileName name \<noteq> None}"
    by (intro inj_onI) (metis (mono_tags, lifting) comp_apply mem_Collect_eq)
  then show ?thesis
    by (auto simp: scanned_filter distinct_map distinct_dir_names set_dir_names elim!: inj_on_subset)
qed

text \<open>A directory whose ledger files are an interval scans to exactly that interval.\<close>

lemma ScanLedgerDir_interval:
  assumes "clean_dir dr d" "next_fault d = Fine" "ledgers_on dr d = {a..b}" "a \<le> b"
  shows "\<exists>seqs. ScanLedgerDir dr d = (Inr seqs, tick d) \<and> seqs \<noteq> [] \<and> hd seqs = a \<and> last seqs = b"
proof -
  have "set (sort (scanned dr d)) = {a..b}"
    using set_scanned [OF assms(1)] assms(3) by simp
  with first_gap_interval [of "sort (scanned dr d)" a b] distinct_scanned [OF assms(1)] assms(4)
  show ?thesis
    by (simp add: ScanLedgerDir_fine [OF assms(2)])
qed

lemma ScanLedgerDir_empty:
  assumes "clean_dir dr d" "next_fault d = Fine" "ledgers_on dr d = {}"
  shows "ScanLedgerDir dr d = (Inr [], tick d)"
proof -
  have "scanned dr d = []"
    using set_scanned [OF assms(1)] assms(3) by simp
  then show ?thesis
    by (simp add: ScanLedgerDir_fine [OF assms(2)])
qed

end
