(* ===== verification/Store_Ring.thy ===== *)
theory Store_Ring
  imports Store
begin

text \<open>
  The ring of theory \<open>Store\<close> as its users see it. On a disk that works \<^verbatim>\<open>Put\<close> refines an abstract list of
  the last retained ledgers and \<^verbatim>\<open>Get\<close> reads exactly what that list holds; over any sequence of
  puts, whatever fails, files stay whole and the directory opens again as a consistent ring. The
  interpretation of the locale of theory \<open>Ring\<close> rests on it.
\<close>

section \<open>Operations on a disk that works\<close>

definition flat_dir :: "string \<Rightarrow> disk \<Rightarrow> bool" where
  "flat_dir dr d \<longleftrightarrow> (\<forall>name. entry d (dr, name) \<noteq> Some SubDir)"

lemma flat_dir_drop:
  "entry d' = drop_ledgers dr' A (entry d) \<Longrightarrow> flat_dir dr d \<Longrightarrow> flat_dir dr d'"
  by (auto simp: flat_dir_def drop_ledgers_def)

lemma flat_dir_remove:
  assumes "os_remove (dr, LedgerFileName sq) d = (r, d1)" "flat_dir dr d"
  shows "flat_dir dr d1"
  using os_remove_cases [OF assms(1)] assms(2) by (auto simp: flat_dir_def split: if_splits)

lemma os_remove_calm:
  "os_remove p d = (e, d') \<Longrightarrow> faults d = [] \<Longrightarrow> entry d p \<noteq> Some SubDir \<Longrightarrow>
     e \<noteq> Some OsFailure \<and> faults d' = []"
  by (auto simp: os_remove_def entry_def split: option.splits node.splits)

lemma clear_loop_calm:
  "clear_loop dr lat sq d = (e, d') \<Longrightarrow> faults d = [] \<Longrightarrow> flat_dir dr d \<Longrightarrow>
     e = None \<and> faults d' = []"
proof (induction "unat (lat - sq)" arbitrary: sq d rule: less_induct)
  case less
  obtain r d1 where r: "os_remove (dr, LedgerFileName sq) d = (r, d1)"
    by fastforce
  have calm: "r \<noteq> Some OsFailure" "faults d1 = []"
    using os_remove_calm [OF r] less.prems by (auto simp: flat_dir_def)
  show ?case
    using less.prems clear_loop_step [OF r calm(1), of lat] calm(2) flat_dir_remove [OF r]
      less.hyps [of "sq + 1" d1] unat_sub_step [of lat sq]
    by (auto split: if_splits)
qed

lemma prune_loop_calm:
  "prune_loop dr ret lat old d = (e, old', d') \<Longrightarrow> faults d = [] \<Longrightarrow> flat_dir dr d \<Longrightarrow>
     e = None \<and> faults d' = []"
proof (induction "unat (lat - old)" arbitrary: old d rule: less_induct)
  case less
  show ?case
  proof (cases "0 < ret \<and> uint (lat - old) + 1 > ret")
    case False
    with less.prems prune_loop_stop show ?thesis by (metis prod.inject)
  next
    case True
    then have neq: "lat \<noteq> old" by auto
    obtain r d1 where r: "os_remove (dr, LedgerFileName old) d = (r, d1)"
      by fastforce
    have calm: "r \<noteq> Some OsFailure" "faults d1 = []"
      using os_remove_calm [OF r] less.prems by (auto simp: flat_dir_def)
    have "prune_loop dr ret lat (old + 1) d1 = (e, old', d')"
      using prune_loop_step [OF _ _ r calm(1)] True less.prems(1) by simp
    moreover have "unat (lat - (old + 1)) < unat (lat - old)"
      using unat_sub_step [OF neq] by simp
    ultimately show ?thesis
      using less.hyps [of "old + 1" d1] calm(2) flat_dir_remove [OF r less.prems(3)] by blast
  qed
qed

lemma write_parts_calm:
  "write_parts tmp parts d = (e, d') \<Longrightarrow> faults d = [] \<Longrightarrow> e = None \<and> faults d' = []"
  by (induction parts arbitrary: d) (auto simp: os_write_def)

lemma write_ledger_calm:
  assumes "write_ledger s sq parts d = (e, d')" "faults d = []" "flat_dir (dir s) d"
  shows "e = None \<and> faults d' = []"
proof -
  let ?final = "ledger_path s sq" and ?tmp = "tmp_path (ledger_path s sq)"
  have sub: "entry d ?tmp \<noteq> Some SubDir" "entry d ?final \<noteq> Some SubDir" "?tmp \<noteq> ?final"
    using assms(3) by (auto simp: flat_dir_def tmp_path_def ledger_path_def)
  let ?d1 = "set_file ?tmp [] (tick d)"
  have open1: "os_open_trunc ?tmp d = (None, ?d1)"
    using assms(2) sub by (simp add: os_open_trunc_def entry_def)
  obtain e2 d2 where write2: "write_parts ?tmp parts ?d1 = (e2, d2)" by fastforce
  from write_parts_calm [OF this] assms(2) have e2: "e2 = None" "faults d2 = []"
    by simp_all
  with write_parts_spec [OF write2, of "[]"]
  have d2: "entry d2 = (entry d)(?tmp \<mapsto> RegFile (concat parts))"
    by simp
  have "os_rename ?tmp ?final (tick d2)
      = (None, set_file ?final (concat parts) (unlink ?tmp (tick (tick d2))))"
    using e2 d2 sub by (simp add: os_rename_def file_bytes_entry entry_def [symmetric])
  then show ?thesis
    using assms(1) open1 write2 e2 by (auto simp: write_ledger_def Let_def os_close_def)
qed

text \<open>The ring as a reader sees it: the retained ledgers in order, with their bytes.\<close>

definition ring_bytes :: "store \<Rightarrow> disk \<Rightarrow> u32 \<Rightarrow> bytes" where
  "ring_bytes s d q = (case file_bytes (ledger_path s q) d of Some b \<Rightarrow> b | None \<Rightarrow> [])"

definition contents :: "store \<Rightarrow> disk \<Rightarrow> (u32 \<times> bytes) list" where
  "contents s d =
     (if filled s then map (\<lambda>q. (q, ring_bytes s d q)) (seq_range (oldest s) (latest s)) else [])"

definition ring_span :: "store \<Rightarrow> disk \<Rightarrow> bool" where
  "ring_span s d \<longleftrightarrow> clean_dir (dir s) d \<and> flat_dir (dir s) d \<and> 0 < retention s \<and>
     (if filled s then oldest s \<le> latest s \<and> ledgers_on (dir s) d = {oldest s..latest s}
      else ledgers_on (dir s) d = {})"

definition ring_ok :: "store \<Rightarrow> disk \<Rightarrow> bool" where
  "ring_ok s d \<longleftrightarrow> ring_span s d \<and>
     (filled s \<longrightarrow> int (unat (latest s - oldest s)) + 1 \<le> retention s)"

lemma ring_ok_inv: "ring_ok s d \<Longrightarrow> ring_inv s d"
  by (auto simp: ring_ok_def ring_span_def ring_inv_def split: if_splits)

text \<open>The abstract ring: a list of the last ledgers.\<close>

definition spec_put :: "int \<Rightarrow> (u32 \<times> bytes) list \<Rightarrow> u32 \<Rightarrow> bytes \<Rightarrow> (u32 \<times> bytes) list" where
  "spec_put ret w sq b =
     (let w' = (if w \<noteq> [] \<and> sq \<noteq> fst (last w) + 1 then [] else w) @ [(sq, b)]
      in drop (length w' - nat ret) w')"

lemma contents_cong:
  assumes "dir s' = dir s" "filled s' = filled s" "oldest s' = oldest s" "latest s' = latest s"
    and "\<And>q. oldest s \<le> q \<Longrightarrow> q \<le> latest s \<Longrightarrow>
      entry d' (dir s, LedgerFileName q) = entry d (dir s, LedgerFileName q)"
  shows "contents s' d' = contents s d"
  using assms by (auto simp: contents_def ring_bytes_def file_bytes_entry ledger_path_def)

lemma clearLocked_calm:
  assumes "ring_span s d" "faults d = []"
  shows "\<exists>d1. clearLocked s d = (None, s\<lparr>oldest := 0, latest := 0, filled := False\<rparr>, d1)
    \<and> faults d1 = [] \<and> ring_span (s\<lparr>oldest := 0, latest := 0, filled := False\<rparr>) d1"
proof (cases "filled s")
  case False
  with assms show ?thesis by (auto simp: clearLocked_def ring_span_def)
next
  case True
  with assms have le: "oldest s \<le> latest s" and flat: "flat_dir (dir s) d"
    and clean: "clean_dir (dir s) d"
    and on: "ledgers_on (dir s) d = {oldest s..latest s}" and ret: "0 < retention s"
    by (auto simp: ring_span_def)
  obtain e d1 where loop: "clear_loop (dir s) (latest s) (oldest s) d = (e, d1)" by fastforce
  from clear_loop_calm [OF loop assms(2) flat] have e: "e = None" "faults d1 = []" by auto
  with clear_loop_spec [OF loop le]
  have d1: "entry d1 = drop_ledgers (dir s) {oldest s..latest s} (entry d)" by auto
  show ?thesis
    using True loop e ret ledgers_on_drop [OF d1] on clean_dir_drop [OF d1 clean]
      flat_dir_drop [OF d1 flat]
    by (auto simp: clearLocked_def ring_span_def)
qed

lemma drop_count:
  fixes a b c :: nat
  shows "c \<le> b \<Longrightarrow> b \<le> a \<Longrightarrow> 0 < r \<Longrightarrow> int (a - b) + 1 \<le> r \<Longrightarrow>
    b = c \<or> int (a - b) + 1 = r \<Longrightarrow> b - c = Suc a - c - nat r"
  by arith

lemma pruneLocked_calm:
  assumes "ring_span s d" "faults d = []"
  shows "\<exists>s1 d1. pruneLocked s d = (None, s1, d1) \<and> faults d1 = [] \<and> ring_ok s1 d1
    \<and> dir s1 = dir s \<and> retention s1 = retention s \<and> latest s1 = latest s \<and> filled s1 = filled s
    \<and> contents s1 d1 = drop (length (contents s d) - nat (retention s)) (contents s d)"
proof (cases "filled s")
  case False
  with assms show ?thesis
    by (auto simp: pruneLocked_def ring_ok_def contents_def)
next
  case True
  with assms have le: "oldest s \<le> latest s" and flat: "flat_dir (dir s) d"
    and clean: "clean_dir (dir s) d"
    and on: "ledgers_on (dir s) d = {oldest s..latest s}" and ret: "0 < retention s"
    by (auto simp: ring_span_def)
  obtain e old d1 where loop: "prune_loop (dir s) (retention s) (latest s) (oldest s) d = (e, old, d1)"
    by (metis prod_cases3)
  from prune_loop_calm [OF loop assms(2) flat] have e: "e = None" "faults d1 = []" by auto
  with prune_loop_spec [OF loop le ret]
  have old: "oldest s \<le> old" "old \<le> latest s"
    and d1: "entry d1 = drop_ledgers (dir s) {oldest s..<old} (entry d)"
    and size: "int (unat (latest s - old)) + 1 \<le> retention s"
      "old = oldest s \<or> int (unat (latest s - old)) + 1 = retention s"
    by auto
  let ?s1 = "s\<lparr>oldest := old\<rparr>"
  have span: "ring_span ?s1 d1"
    using True old ret ledgers_on_drop [OF d1] on clean_dir_drop [OF d1 clean]
      flat_dir_drop [OF d1 flat]
    by (auto simp: ring_span_def)
  have sub: "unat (latest s - old) = unat (latest s) - unat old"
    using old by (simp add: unat_sub)
  have ord: "unat (oldest s) \<le> unat old" "unat old \<le> unat (latest s)"
    using old by (simp_all add: word_le_nat_alt)
  have n: "unat old - unat (oldest s) = Suc (unat (latest s)) - unat (oldest s) - nat (retention s)"
    using old by (intro drop_count [OF ord ret size(1) [unfolded sub]])
      (metis size(2) [unfolded sub])
  have "contents ?s1 d1 = map (\<lambda>q. (q, ring_bytes s d q)) (seq_range old (latest s))"
    using True d1 by (auto simp: contents_def ring_bytes_def file_bytes_entry ledger_path_def)
  also have "\<dots> = drop (unat old - unat (oldest s)) (contents s d)"
    using True seq_range_drop [OF old] by (simp add: contents_def drop_map)
  finally have "contents ?s1 d1 = drop (unat old - unat (oldest s)) (contents s d)" .
  with True n have "contents ?s1 d1 = drop (length (contents s d) - nat (retention s)) (contents s d)"
    by (simp add: contents_def)
  then show ?thesis
    using True loop e span size by (auto simp: pruneLocked_def ring_ok_def)
qed

lemma extend_calm:
  assumes "ring_span s d" "faults d = []" "sq \<noteq> 0" "filled s \<Longrightarrow> sq = latest s + 1"
  shows "\<exists>d1. write_ledger s sq parts d = (None, d1) \<and> faults d1 = [] \<and> ring_span (extend s sq) d1
    \<and> contents (extend s sq) d1 = contents s d @ [(sq, concat parts)]"
proof -
  have flat: "flat_dir (dir s) d" and clean: "clean_dir (dir s) d" and ret: "0 < retention s"
    using assms(1) by (auto simp: ring_span_def)
  obtain e d1 where wr: "write_ledger s sq parts d = (e, d1)" by fastforce
  from write_ledger_calm [OF this assms(2) flat] have e: "e = None" "faults d1 = []" by auto
  with write_ledger_spec [OF wr]
  have d1: "entry d1 = (entry d)(tmp_path (ledger_path s sq) := None,
      ledger_path s sq \<mapsto> RegFile (concat parts))" by auto
  have clean1: "clean_dir (dir s) d1" "ledgers_on (dir s) d1 = insert sq (ledgers_on (dir s) d)"
    using write_ledger_ok [OF wr [unfolded e] clean] by auto
  have flat1: "flat_dir (dir s) d1"
    using flat by (auto simp: flat_dir_def d1 split: if_splits)
  have at: "ring_bytes s d1 sq = concat parts"
    by (simp add: ring_bytes_def file_bytes_entry d1)
  have other: "q \<noteq> sq \<Longrightarrow> ring_bytes s d1 q = ring_bytes s d q" for q
    by (simp add: ring_bytes_def file_bytes_entry d1 ledger_path_def tmp_path_def)
  show ?thesis
  proof (cases "filled s")
    case False
    then show ?thesis
      using wr e clean1 flat1 ret assms(1) at
      by (auto simp: ring_span_def extend_def contents_def ring_bytes_def ledger_path_def)
  next
    case True
    note sq = assms(4) [OF True]
    have notmax: "latest s \<noteq> max_u32"
      using assms(3) sq by (intro u32_Suc_not_0) simp
    have le: "oldest s \<le> latest s" and on: "ledgers_on (dir s) d = {oldest s..latest s}"
      using assms(1) True by (auto simp: ring_span_def)
    have lt: "latest s < sq"
      using u32_Suc_le_iff [OF notmax] sq by blast
    have range: "seq_range (oldest s) sq = seq_range (oldest s) (latest s) @ [sq]"
      using seq_range_snoc [OF le notmax] sq by simp
    then have "set (seq_range (oldest s) sq) = insert sq (set (seq_range (oldest s) (latest s)))"
      by simp
    then have "insert sq {oldest s..latest s} = {oldest s..sq}"
      by (simp only: set_seq_range)
    then have "ring_span (extend s sq) d1"
      using True clean1 flat1 ret on le lt by (auto simp: ring_span_def extend_def)
    moreover have "contents (extend s sq) d1 = contents s d @ [(sq, concat parts)]"
      using True lt range at other
      by (auto simp: extend_def contents_def ring_bytes_def ledger_path_def)
    ultimately show ?thesis
      using wr e by simp
  qed
qed

lemma fst_last_contents: "filled s \<Longrightarrow> oldest s \<le> latest s \<Longrightarrow>
    contents s d \<noteq> [] \<and> fst (last (contents s d)) = latest s"
  by (auto simp: contents_def seq_range_def word_le_nat_alt last_map)

lemma put_refines:
  assumes "ring_ok s d" "faults d = []" "sq \<noteq> 0"
  shows "\<exists>s' d'. put s d sq parts = ((filled s \<and> sq \<noteq> latest s + 1, None), s', d') \<and> faults d' = []
    \<and> ring_ok s' d' \<and> filled s' \<and> latest s' = sq \<and> dir s' = dir s \<and> retention s' = retention s
    \<and> contents s' d' = spec_put (retention s) (contents s d) sq (concat parts)"
proof -
  let ?rst = "filled s \<and> sq \<noteq> latest s + 1"
  have span: "ring_span s d" using assms(1) by (simp add: ring_ok_def)
  obtain s1 d1 where clear: "(if ?rst then clearLocked s d else (None, s, d)) = (None, s1, d1)"
    and s1: "faults d1 = []" "ring_span s1 d1" "dir s1 = dir s" "retention s1 = retention s"
      "filled s1 \<Longrightarrow> sq = latest s1 + 1"
      "contents s1 d1 = (if ?rst then [] else contents s d)"
    using clearLocked_calm [OF span assms(2)] span assms(2)
    by (cases ?rst) (auto simp: contents_def)
  from extend_calm [OF s1(2,1) assms(3) s1(5)] obtain d2
    where wr: "write_ledger s1 sq parts d1 = (None, d2)" "faults d2 = []"
      "ring_span (extend s1 sq) d2"
      "contents (extend s1 sq) d2 = contents s1 d1 @ [(sq, concat parts)]"
    by blast
  from pruneLocked_calm [OF wr(3,2)] obtain s3 d3
    where pr: "pruneLocked (extend s1 sq) d2 = (None, s3, d3)" "faults d3 = []" "ring_ok s3 d3"
      "dir s3 = dir (extend s1 sq)" "retention s3 = retention (extend s1 sq)"
      "latest s3 = latest (extend s1 sq)" "filled s3 = filled (extend s1 sq)"
      "contents s3 d3 = drop (length (contents (extend s1 sq) d2) - nat (retention (extend s1 sq)))
         (contents (extend s1 sq) d2)"
    by blast
  have "put s d sq parts = ((?rst, None), s3, d3)"
    using assms(3) clear wr(1) pr(1) by (auto simp: put_def Let_def extend_def)
  moreover have "contents s d \<noteq> [] \<longleftrightarrow> filled s"
    and "filled s \<Longrightarrow> fst (last (contents s d)) = latest s"
    using fst_last_contents [of s d] span by (auto simp: ring_span_def contents_def)
  then have "contents s3 d3 = spec_put (retention s) (contents s d) sq (concat parts)"
    using pr(8) wr(4) s1(4,6) by (auto simp: spec_put_def Let_def extend_def)
  moreover have "filled s3 \<and> latest s3 = sq \<and> dir s3 = dir s \<and> retention s3 = retention s"
    using pr s1 by (auto simp: extend_def)
  ultimately show ?thesis
    using pr(2,3) by blast
qed

section \<open>Reading back\<close>

lemma map_of_contents:
  "map_of (contents s d) q =
     (if filled s \<and> oldest s \<le> q \<and> q \<le> latest s then Some (ring_bytes s d q) else None)"
  by (simp add: contents_def map_of_map_restrict restrict_map_def)

lemma Get_calm:
  assumes "ring_ok s d" "faults d = []"
  shows "Get s d q =
    (case map_of (contents s d) q of Some b \<Rightarrow> (Inr b, tick d) | None \<Rightarrow> (Inl ErrNotRetained, d))"
proof (cases "filled s \<and> oldest s \<le> q \<and> q \<le> latest s")
  case False
  then show ?thesis
    by (auto simp: Get_def Get_read_def map_of_contents)
next
  case True
  with assms(1) have "entry d (ledger_path s q) \<noteq> None" "entry d (ledger_path s q) \<noteq> Some SubDir"
    by (auto simp: ring_ok_def ring_span_def ledgers_on_def ledger_path_def flat_dir_def)
  then obtain b where "entry d (ledger_path s q) = Some (RegFile b)"
    by (metis node.exhaust not_None_eq)
  moreover from True have "\<not> q < oldest s" "\<not> latest s < q"
    by auto
  ultimately show ?thesis
    using True assms(2)
    by (simp add: Get_def Get_read_def map_of_contents os_read_file_def entry_def ring_bytes_def
        file_bytes_def)
qed

text \<open>What a read can return, whatever the bounds it was checked against: a whole file.\<close>

lemma Get_read_file:
  "Get_read snap q d = (Inr b, d') \<Longrightarrow> file_bytes (ledger_path snap q) d = Some b"
  by (auto simp: Get_read_def os_read_file_def file_bytes_def
      split: if_splits sum.splits os_error.splits fault.splits option.splits node.splits)

text \<open>No operation leaves a ledger file with anything but the content of one put.\<close>

lemma only_removes_file_bytes: "only_removes d d1 \<Longrightarrow> file_bytes p d1 = Some b \<Longrightarrow> file_bytes p d = Some b"
  by (auto simp: file_bytes_entry split: option.splits node.splits dest: only_removes_entry)

lemma write_ledger_files:
  assumes "write_ledger s sq parts d = (e, d1)" "file_bytes (dr, LedgerFileName q) d1 = Some b"
  shows "file_bytes (dr, LedgerFileName q) d = Some b \<or> q = sq \<and> dr = dir s \<and> b = concat parts"
  using write_ledger_spec [OF assms(1)] assms(2)
  by (auto simp: file_bytes_entry ledger_path_def tmp_path_def split: if_splits)

lemma put_files:
  assumes "ring_inv s d" "put s d sq parts = (r, s', d')" "file_bytes (dr, LedgerFileName q) d' = Some b"
  shows "file_bytes (dr, LedgerFileName q) d = Some b \<or> q = sq \<and> b = concat parts"
  using assms(1,2)
proof (cases rule: put_cases)
  case (write_failed d1 e)
  then show ?thesis
    using write_ledger_files [OF write_failed(5) assms(3)] only_removes_file_bytes by blast
next
  case (written s1 d1 d2 e)
  have "file_bytes (dr, LedgerFileName q) d2 = Some b"
    using only_removes_file_bytes [OF pruneLocked_removes [OF written(6,7)] assms(3)] .
  then show ?thesis
    using write_ledger_files [OF written(5)] only_removes_file_bytes [OF written(2)] by blast
qed (use assms only_removes_file_bytes in auto)

lemma write_ledger_flat:
  assumes "write_ledger s sq parts d = (e, d1)" "flat_dir dr d"
  shows "flat_dir dr d1"
  using write_ledger_spec [OF assms(1)] assms(2) by (auto simp: flat_dir_def split: if_splits) metis

lemma only_removes_flat: "only_removes d d1 \<Longrightarrow> flat_dir dr d \<Longrightarrow> flat_dir dr d1"
  by (auto simp: flat_dir_def dest: only_removes_entry)

lemma put_flat:
  assumes "ring_inv s d" "put s d sq parts = (r, s', d')" "flat_dir dr d"
  shows "flat_dir dr d'"
  using assms(1,2)
proof (cases rule: put_cases)
  case (write_failed d1 e)
  then show ?thesis using assms(3) only_removes_flat write_ledger_flat by blast
next
  case (written s1 d1 d2 e)
  then show ?thesis
    using assms(3) only_removes_flat write_ledger_flat pruneLocked_removes [OF written(6,7)] by metis
qed (use assms only_removes_flat in auto)

section \<open>Sequences of puts, and opening a directory again\<close>

fun run_puts :: "store \<Rightarrow> disk \<Rightarrow> (u32 \<times> bytes list) list \<Rightarrow> store \<times> disk" where
  "run_puts s d [] = (s, d)"
| "run_puts s d ((sq, parts) # ps) = (case put s d sq parts of (_, s', d') \<Rightarrow> run_puts s' d' ps)"

lemma run_puts_inv:
  "ring_inv s d \<Longrightarrow> run_puts s d ps = (s', d') \<Longrightarrow>
     ring_inv s' d' \<and> dir s' = dir s \<and> retention s' = retention s"
proof (induction ps arbitrary: s d)
  case (Cons p ps)
  obtain sq parts where p: "p = (sq, parts)" by fastforce
  obtain r s1 d1 where put1: "put s d sq parts = (r, s1, d1)" by (metis prod_cases3)
  with Cons.prems(2) p have "run_puts s1 d1 ps = (s', d')" by simp
  with Cons.IH put_inv [OF Cons.prems(1) put1] show ?case by metis
qed auto

lemma run_puts_files:
  "ring_inv s d \<Longrightarrow> run_puts s d ps = (s', d') \<Longrightarrow>
   file_bytes (dr, LedgerFileName q) d' = Some b \<Longrightarrow>
     file_bytes (dr, LedgerFileName q) d = Some b \<or> (\<exists>parts. (q, parts) \<in> set ps \<and> b = concat parts)"
proof (induction ps arbitrary: s d)
  case (Cons p ps)
  obtain sq parts where p: "p = (sq, parts)" by fastforce
  obtain r s1 d1 where put1: "put s d sq parts = (r, s1, d1)" by (metis prod_cases3)
  with Cons.prems(2) p have "run_puts s1 d1 ps = (s', d')" by simp
  with Cons.IH [OF _ this Cons.prems(3)] put_inv [OF Cons.prems(1) put1]
    put_files [OF Cons.prems(1) put1, of dr q b] p
  show ?case by auto
qed auto

text \<open>The process starts again: the files are what they were, the calls to come succeed.\<close>

definition restart :: "disk \<Rightarrow> disk" where
  "restart d = d\<lparr>faults := []\<rparr>"

lemma restart_simps [simp]: "entry (restart d) = entry d" "faults (restart d) = []"
  "clean_dir dr (restart d) = clean_dir dr d" "flat_dir dr (restart d) = flat_dir dr d"
  "ledgers_on dr (restart d) = ledgers_on dr d"
  by (simp_all add: restart_def entry_def clean_dir_def flat_dir_def ledgers_on_def fun_eq_iff)

lemma Open_retention: "Open dr ret d = (Inr s, d') \<Longrightarrow> 0 < retention s \<and> retention s = ret \<and> dir s = dr"
  by (auto simp: Open_def rescan_def pruneLocked_def Let_def
      split: if_splits option.splits prod.splits sum.splits)

lemma Open_interval:
  assumes "clean_dir dr d" "flat_dir dr d" "faults d = []" "0 < ret"
    and "ledgers_on dr d = {a..b}" "a \<le> b"
  shows "\<exists>s d'. Open dr ret d = (Inr s, d') \<and> faults d' = [] \<and> ring_ok s d' \<and> filled s \<and> latest s = b
    \<and> dir s = dr \<and> retention s = ret
    \<and> contents s d' = (let all = map (\<lambda>q. (q, case file_bytes (dr, LedgerFileName q) d of Some x \<Rightarrow> x | None \<Rightarrow> []))
        (seq_range a b) in drop (length all - nat ret) all)"
proof -
  let ?d1 = "tick (tick d)"
  let ?s1 = "\<lparr>dir = dr, retention = ret, oldest = a, latest = b, filled = True\<rparr>"
  have mk: "os_mkdir_all dr d = (None, tick d)"
    using assms(3) by (simp add: os_mkdir_all_def)
  have clean: "clean_dir dr (tick d)" "ledgers_on dr (tick d) = {a..b}"
    using assms(1,5) by (simp_all add: clean_dir_def ledgers_on_def)
  from ScanLedgerDir_interval [OF clean(1) _ clean(2) assms(6)] assms(3) obtain seqs
    where scan: "ScanLedgerDir dr (tick d) = (Inr seqs, ?d1)" "seqs \<noteq> []" "hd seqs = a" "last seqs = b"
    by auto
  have span: "ring_span ?s1 ?d1"
    using assms by (simp add: ring_span_def clean_dir_def flat_dir_def ledgers_on_def)
  from pruneLocked_calm [OF span] assms(3) obtain s d' where
    pr: "pruneLocked ?s1 ?d1 = (None, s, d')" "faults d' = []" "ring_ok s d'"
      "dir s = dr" "retention s = ret" "latest s = b" "filled s"
      "contents s d' = drop (length (contents ?s1 ?d1) - nat ret) (contents ?s1 ?d1)"
    by auto
  have "Open dr ret d = (Inr s, d')"
    using assms(4) mk scan pr(1) by (simp add: Open_def rescan_def Let_def)
  moreover have "contents ?s1 ?d1 = map (\<lambda>q. (q, case file_bytes (dr, LedgerFileName q) d of
      Some x \<Rightarrow> x | None \<Rightarrow> [])) (seq_range a b)"
    by (auto simp: contents_def ring_bytes_def file_bytes_entry ledger_path_def
        split: option.splits node.splits)
  ultimately show ?thesis
    using pr by (auto simp: Let_def)
qed

lemma Open_empty:
  assumes "clean_dir dr d" "flat_dir dr d" "faults d = []" "0 < ret" "ledgers_on dr d = {}"
  shows "\<exists>s d'. Open dr ret d = (Inr s, d') \<and> faults d' = [] \<and> ring_ok s d' \<and> \<not> filled s
    \<and> dir s = dr \<and> retention s = ret \<and> contents s d' = []"
proof -
  have clean: "clean_dir dr (tick d)" "ledgers_on dr (tick d) = {}"
    using assms(1,5) by (simp_all add: clean_dir_def ledgers_on_def)
  have "ScanLedgerDir dr (tick d) = (Inr [], tick (tick d))"
    using ScanLedgerDir_empty [OF clean(1) _ clean(2)] assms(3) by simp
  then show ?thesis
    using assms
    by (simp add: Open_def os_mkdir_all_def rescan_def Let_def pruneLocked_def ring_ok_def
        ring_span_def contents_def clean_dir_def flat_dir_def ledgers_on_def)
qed

lemma run_puts_flat:
  "ring_inv s d \<Longrightarrow> run_puts s d ps = (s', d') \<Longrightarrow> flat_dir dr d \<Longrightarrow> flat_dir dr d'"
proof (induction ps arbitrary: s d)
  case (Cons p ps)
  obtain sq parts where p: "p = (sq, parts)" by fastforce
  obtain r s1 d1 where put1: "put s d sq parts = (r, s1, d1)" by (metis prod_cases3)
  with Cons.prems(2) p have "run_puts s1 d1 ps = (s', d')" by simp
  with Cons.IH put_inv [OF Cons.prems(1) put1] put_flat [OF Cons.prems(1) put1 Cons.prems(3)]
  show ?case by blast
qed auto

lemma Open_after_inv:
  assumes "ring_inv s d" "flat_dir (dir s) d" "0 < ret"
  shows "\<exists>s2 d2. Open (dir s) ret (restart d) = (Inr s2, d2) \<and> ring_ok s2 d2 \<and>
    (filled s \<longrightarrow> filled s2 \<and> latest s2 = latest s) \<and> (\<not> filled s \<longrightarrow> \<not> filled s2)"
proof (cases "filled s")
  case False
  with assms Open_empty [of "dir s" "restart d" ret] show ?thesis
    by (auto simp: ring_inv_def)
next
  case True
  with assms(1) obtain k where "k \<le> latest s" "ledgers_on (dir s) d = {k..latest s}" "clean_dir (dir s) d"
    by (auto simp: ring_inv_def)
  with True assms Open_interval [of "dir s" "restart d" ret k "latest s"] show ?thesis
    by auto
qed

text \<open>Whatever calls failed meanwhile: an \<open>Open\<close> that succeeds found a gapless range and only removed files.\<close>

lemma first_gap_span:
  fixes xs :: "u32 list"
  shows "first_gap xs = None \<Longrightarrow> sorted xs \<Longrightarrow> xs \<noteq> [] \<Longrightarrow> hd xs \<le> last xs \<and> set xs = {hd xs..last xs}"
proof (induction xs rule: first_gap.induct)
  case (1 a b xs)
  then have b: "b = a + 1" "a \<le> b" and rest: "b \<le> last (b # xs)" "set (b # xs) = {b..last (b # xs)}"
    by (auto split: if_splits)
  then have "a < b" by (simp add: order_less_le)
  then have "{a..last (b # xs)} = insert a {b..last (b # xs)}"
    using b(1) rest(1) inc_le [of a] by (fastforce simp: order_le_less)
  with rest b(2) show ?case by simp
qed auto

lemma rescan_inv:
  assumes "rescan s d = (None, s1, d1)" "clean_dir (dir s) d" "\<not> filled s" "0 < retention s"
  shows "ring_inv s1 d1 \<and> entry d1 = entry d"
proof -
  obtain res d2 where scan: "ScanLedgerDir (dir s) d = (res, d2)" by (cases "ScanLedgerDir (dir s) d")
  with assms(1) obtain seqs where res: "res = Inr seqs" by (cases res) (auto simp: rescan_def)
  with scan assms(1) have d2: "d2 = d1"
    and s1: "s1 = (if seqs = [] then s else s\<lparr>oldest := hd seqs, latest := last seqs, filled := True\<rparr>)"
    by (simp_all add: rescan_def split: if_splits)
  have fine: "next_fault d = Fine"
    using scan res by (auto simp: ScanLedgerDir_def os_read_dir_def split: fault.splits)
  then have "first_gap (sort (scanned (dir s) d)) = None" "seqs = sort (scanned (dir s) d)" and d1: "d1 = tick d"
    using scan unfolding ScanLedgerDir_fine [OF fine] res d2 by (auto split: option.splits)
  with set_scanned [OF assms(2)] have seqs: "first_gap seqs = None" "sorted seqs" "set seqs = ledgers_on (dir s) d" by auto
  have span: "hd seqs \<le> last seqs \<and> ledgers_on (dir s) d = {hd seqs..last seqs}" if "seqs \<noteq> []"
    using first_gap_span [OF seqs(1,2) that] seqs(3) by simp
  have same: "entry d1 = entry d" by (simp add: d1)
  have "clean_dir (dir s) d1" "ledgers_on (dir s) d1 = ledgers_on (dir s) d"
    using assms(2) same by (simp_all add: clean_dir_def ledgers_on_def)
  moreover have "seqs = [] \<Longrightarrow> ledgers_on (dir s) d = {}"
    using seqs(3) by simp
  ultimately show ?thesis
    using span assms(3,4) same by (auto simp: ring_inv_def s1)
qed

lemma Open_inv:
  assumes "Open dr ret d = (Inr s, d')" "clean_dir dr d"
  shows "ring_inv s d' \<and> dir s = dr \<and> only_removes d d'"
proof -
  let ?s0 = "\<lparr>dir = dr, retention = ret, oldest = 0, latest = 0, filled = False\<rparr>"
  obtain d1 s1 d2 where steps: "os_mkdir_all dr d = (None, d1)" "rescan ?s0 d1 = (None, s1, d2)" "pruneLocked s1 d2 = (None, s, d')"
    and ret: "0 < ret"
    using assms(1) by (auto simp: Open_def Let_def split: if_splits prod.splits option.splits)
  have d1: "entry d1 = entry d"
    using steps(1) by (auto simp: os_mkdir_all_def split: fault.splits)
  with assms(2) have "clean_dir dr d1" by (simp add: clean_dir_def)
  with rescan_inv [OF steps(2)] ret have inv: "ring_inv s1 d2" "entry d2 = entry d1" by simp_all
  have "dir s1 = dr"
    using steps(2) by (auto simp: rescan_def split: prod.splits sum.splits if_splits)
  with pruneLocked_inv [OF inv(1) steps(3)] pruneLocked_removes [OF inv(1) steps(3)] inv(2) d1 show ?thesis
    by (simp add: only_removes_def)
qed

section \<open>The store as a ring\<close>

definition ring_state_ok :: "store \<times> disk \<Rightarrow> bool" where
  "ring_state_ok st \<longleftrightarrow> ring_ok (fst st) (snd st) \<and> faults (snd st) = []"

definition ring_bounds :: "store \<times> disk \<Rightarrow> u32 \<times> u32 \<times> bool" where
  "ring_bounds st = Bounds (fst st)"

definition ring_lookup :: "store \<times> disk \<Rightarrow> u32 \<Rightarrow> bytes option" where
  "ring_lookup st q = (case fst (Get (fst st) (snd st) q) of Inr b \<Rightarrow> Some b | Inl _ \<Rightarrow> None)"

definition ring_put :: "store \<times> disk \<Rightarrow> u32 \<Rightarrow> bytes list \<Rightarrow> store \<times> disk" where
  "ring_put st q parts = snd (PutParts (fst st) (snd st) q parts)"

lemma ring_lookup_contents:
  "ring_state_ok st \<Longrightarrow> ring_lookup st q = map_of (contents (fst st) (snd st)) q"
  by (auto simp: ring_state_ok_def ring_lookup_def Get_calm split: option.splits)

lemma in_contents:
  "(q, b) \<in> set (contents s d) \<longleftrightarrow>
     filled s \<and> oldest s \<le> q \<and> q \<le> latest s \<and> b = ring_bytes s d q"
  by (auto simp: contents_def)

lemma ring_lookup_iff:
  "ring_state_ok st \<Longrightarrow> ring_lookup st q = Some b \<longleftrightarrow> (q, b) \<in> set (contents (fst st) (snd st))"
  by (auto simp: ring_lookup_contents map_of_contents in_contents)

lemma last_spec_put: "0 < ret \<Longrightarrow> last (spec_put ret w q b) = (q, b)"
  by (simp add: spec_put_def Let_def last_drop)

lemma set_spec_put: "set (spec_put ret w q b) \<subseteq> insert (q, b) (set w)"
  by (auto simp: spec_put_def Let_def dest!: in_set_dropD split: if_splits)

lemma ring_put_spec:
  assumes "ring_state_ok st" "q \<noteq> 0"
  shows "ring_state_ok (ring_put st q parts) \<and> filled (fst (ring_put st q parts)) \<and>
    latest (fst (ring_put st q parts)) = q \<and>
    contents (fst (ring_put st q parts)) (snd (ring_put st q parts)) =
      spec_put (retention (fst st)) (contents (fst st) (snd st)) q (concat parts)"
  using put_refines [of "fst st" "snd st" q parts] assms
  by (auto simp: ring_state_ok_def ring_put_def PutParts_def)

interpretation retained: ledger_ring ring_state_ok ring_bounds ring_lookup ring_put
proof
  fix st lo hi f q
  assume "ring_state_ok st" "ring_bounds st = (lo, hi, f)"
  then show "ring_lookup st q \<noteq> None \<longleftrightarrow> f \<and> lo \<le> q \<and> q \<le> hi"
    by (auto simp: ring_lookup_contents map_of_contents ring_bounds_def Bounds_def)
next
  fix st :: "store \<times> disk" and q :: u32 and parts :: "bytes list"
  assume ok: "ring_state_ok st" "q \<noteq> 0"
  note spec = ring_put_spec [OF ok, of parts]
  show "ring_state_ok (ring_put st q parts)" using spec by blast
  show "\<exists>lo. ring_bounds (ring_put st q parts) = (lo, q, True)"
    using spec by (simp add: ring_bounds_def Bounds_def)
  have ret: "0 < retention (fst st)"
    using ok by (simp add: ring_state_ok_def ring_ok_def ring_span_def)
  have "spec_put (retention (fst st)) (contents (fst st) (snd st)) q (concat parts) \<noteq> []"
    using ret by (simp add: spec_put_def Let_def)
  then have "(q, concat parts) \<in> set (contents (fst (ring_put st q parts)) (snd (ring_put st q parts)))"
    using spec last_spec_put [OF ret] by (metis last_in_set)
  then show "ring_lookup (ring_put st q parts) q = Some (concat parts)"
    using spec by (simp add: ring_lookup_iff)
  fix q' b
  assume "q' \<noteq> q" "ring_lookup (ring_put st q parts) q' = Some b"
  then have "(q', b) \<in> set (contents (fst st) (snd st))"
    using spec set_spec_put [of "retention (fst st)"] by (fastforce simp: ring_lookup_iff)
  then show "ring_lookup st q' = Some b"
    using ok by (simp add: ring_lookup_iff)
qed

section \<open>Properties\<close>

text \<open>A concrete empty ring for the witnesses.\<close>

definition empty_ring :: "int \<Rightarrow> store" where
  "empty_ring ret = \<lparr>dir = ''d'', retention = ret, oldest = 0, latest = 0, filled = False\<rparr>"

definition empty_disk :: disk where
  "empty_disk = \<lparr>files = [], faults = []\<rparr>"

lemma empty_ring_ok [simp]: "0 < ret \<Longrightarrow> ring_ok (empty_ring ret) empty_disk"
  "faults empty_disk = []" "contents (empty_ring ret) empty_disk = []" "flat_dir dr empty_disk"
  by (simp_all add: ring_ok_def ring_span_def empty_ring_def empty_disk_def clean_dir_def flat_dir_def
      ledgers_on_def entry_def contents_def)

lemma empty_ring_fields [simp]: "dir (empty_ring ret) = ''d''" "retention (empty_ring ret) = ret"
  "filled (empty_ring ret) = False"
  by (simp_all add: empty_ring_def)

lemma empty_ring_inv [simp]: "0 < ret \<Longrightarrow> ring_inv (empty_ring ret) empty_disk"
  by (rule ring_ok_inv) simp

lemma empty_disk_file [simp]: "file_bytes p (empty_disk\<lparr>faults := fs\<rparr>) = None" "file_bytes p empty_disk = None"
  by (simp_all add: file_bytes_def empty_disk_def)

lemma ring_inv_faults [simp]: "ring_inv s (d\<lparr>faults := fs\<rparr>) = ring_inv s d" "flat_dir dr (d\<lparr>faults := fs\<rparr>) = flat_dir dr d"
  by (simp_all add: ring_inv_def clean_dir_def ledgers_on_def entry_def flat_dir_def)

text \<open>
  C21: on a disk that works, \<^verbatim>\<open>Put\<close> refines the abstract ring, a list of the last ledgers: the
  ledger is appended, a ledger that does not continue the range first empties it (and is
  reported as a reset), and only the last \<open>retention\<close> entries are kept, in memory and on
  disk alike.
\<close>

theorem store_put_refines:
  assumes "ring_ok s d" "faults d = []" "sq \<noteq> 0"
  shows "\<exists>s' d'. put s d sq parts = ((filled s \<and> sq \<noteq> latest s + 1, None), s', d') \<and> faults d' = []
    \<and> ring_ok s' d' \<and> filled s' \<and> latest s' = sq
    \<and> contents s' d' = spec_put (retention s) (contents s d) sq (concat parts)"
  using put_refines [OF assms] by blast

theorem store_put_refines_witness:
  "\<exists>s' d'. put (empty_ring 2) empty_disk 7 [[1], [2]] = ((False, None), s', d') \<and> faults d' = []
    \<and> ring_ok s' d' \<and> filled s' \<and> latest s' = 7 \<and> contents s' d' = [(7, [1, 2])]"
  using store_put_refines [of "empty_ring 2" empty_disk 7 "[[1], [2]]"] by (simp add: spec_put_def)



text \<open>
  C23: no torn ledger. Whatever calls fail during any sequence of puts, a ledger file that exists
  afterwards holds either what it held before or the complete bytes of one put of that very
  sequence, never a part of a ledger.
\<close>

theorem store_no_torn_ledger:
  assumes "ring_inv s d"
  shows "file_bytes (dr, LedgerFileName q) (snd (run_puts s d ps)) \<in>
    {None, file_bytes (dr, LedgerFileName q) d} \<union> (\<lambda>parts. Some (concat parts)) ` {parts. (q, parts) \<in> set ps}"
  using run_puts_files [OF assms, of ps "fst (run_puts s d ps)" "snd (run_puts s d ps)" dr q]
  by (cases "file_bytes (dr, LedgerFileName q) (snd (run_puts s d ps))") auto

theorem store_no_torn_ledger_witness:
  "file_bytes (''d'', LedgerFileName 8) (snd (run_puts (empty_ring 2)
      (empty_disk\<lparr>faults := [Fine, Fine, Fine, Fine, Fine, Fails 1]\<rparr>) [(7, [[1]]), (8, [[2, 3]])])) \<in> {None, Some [2, 3]}"
  using store_no_torn_ledger [of "empty_ring 2" "empty_disk\<lparr>faults := [Fine, Fine, Fine, Fine, Fine, Fails 1]\<rparr>"
      "''d''" 8 "[(7, [[1]]), (8, [[2, 3]])]"]
  by (auto simp del: run_puts.simps)

text \<open>
  C36: on a disk that works, \<^verbatim>\<open>Get\<close> returns exactly what the ring holds: the bytes of a
  retained ledger, and \<open>ErrNotRetained\<close> for every other sequence.
\<close>

theorem store_get_exact:
  assumes "ring_ok s d" "faults d = []"
  shows "fst (Get s d q) = (case map_of (contents s d) q of Some b \<Rightarrow> Inr b | None \<Rightarrow> Inl ErrNotRetained)"
  using Get_calm [OF assms, of q] by (simp split: option.splits)

theorem store_get_exact_witness:
  "fst (Get (empty_ring 2) empty_disk 7) = Inl ErrNotRetained"
  using store_get_exact [of "empty_ring 2" empty_disk 7] by simp

text \<open>
  A read that races the source. \<^verbatim>\<open>Get\<close> checks bounds it copied earlier and reads the file
  after releasing the lock; when every file and every later put agrees with the chain \<open>L\<close>,
  whatever it returns is the whole ledger it was asked for, whatever was put, pruned or
  failed in between.
\<close>

theorem store_get_race:
  assumes "ring_inv s d" "\<And>q b. file_bytes (dir s, LedgerFileName q) d = Some b \<Longrightarrow> b = L q"
    and "\<And>q parts. (q, parts) \<in> set ps \<Longrightarrow> concat parts = L q"
    and "dir snap = dir s" "fst (Get_read snap q (snd (run_puts s d ps))) = Inr raw"
  shows "raw = L q"
proof -
  have "file_bytes (ledger_path snap q) (snd (run_puts s d ps)) = Some raw"
    using Get_read_file [of snap q "snd (run_puts s d ps)" raw] assms(5) by (metis surjective_pairing)
  with run_puts_files [OF assms(1), of ps "fst (run_puts s d ps)" "snd (run_puts s d ps)" "dir s" q raw] assms(2-4)
  show ?thesis by (auto simp: ledger_path_def)
qed

lemmas disk_eval = os_defs Let_def next_fault_def tick_def set_file_def unlink_def file_bytes_def

theorem store_get_race_witness:
  "fst (Get_read (fst (run_puts (empty_ring 2) empty_disk [(7, [[1]])])) 7
      (snd (run_puts (empty_ring 2) empty_disk [(7, [[1]])]))) = Inr [1] \<and> [1] = (\<lambda>q :: u32. [1 :: byte]) 7"
proof -
  let ?s = "fst (run_puts (empty_ring 2) empty_disk [(7, [[1]])])"
  have get: "fst (Get_read ?s 7 (snd (run_puts (empty_ring 2) empty_disk [(7, [[1]])]))) = Inr [1]" and "dir ?s = ''d''"
    by (simp_all add: put_def empty_ring_def empty_disk_def write_ledger_def disk_eval tmp_path_def ledger_path_def
        pruneLocked_def prune_loop_stop Get_read_def)
  moreover have "[1] = (\<lambda>q :: u32. [1 :: byte]) 7"
    by (rule store_get_race [of "empty_ring 2" empty_disk _ "[(7, [[1]])]" ?s 7, OF _ _ _ _ get])
      (use \<open>dir ?s = ''d''\<close> in \<open>auto simp del: run_puts.simps\<close>)
  ultimately show ?thesis by blast
qed

text \<open>
  Opening the directory of a consistent ring with the same retention restores it: the same
  ledgers, the same latest sequence.
\<close>

theorem store_reopen_same:
  assumes "ring_ok s d" "faults d = []"
  shows "\<exists>s2 d2. Open (dir s) (retention s) d = (Inr s2, d2) \<and> ring_ok s2 d2 \<and> contents s2 d2 = contents s d"
proof (cases "filled s")
  case False
  with assms Open_empty [of "dir s" d "retention s"] obtain s2 d2 where
    "Open (dir s) (retention s) d = (Inr s2, d2)" "ring_ok s2 d2" "contents s2 d2 = []"
    by (auto simp: ring_ok_def ring_span_def)
  with False show ?thesis by (simp add: contents_def)
next
  case True
  let ?all = "map (\<lambda>q. (q, case file_bytes (dir s, LedgerFileName q) d of Some x \<Rightarrow> x | None \<Rightarrow> []))
    (seq_range (oldest s) (latest s))"
  have range: "oldest s \<le> latest s" "int (unat (latest s - oldest s)) + 1 \<le> retention s"
    using assms(1) True by (auto simp: ring_ok_def ring_span_def)
  then have "unat (latest s - oldest s) = unat (latest s) - unat (oldest s)"
    by (simp add: unat_sub)
  with range(2) have "Suc (unat (latest s)) - unat (oldest s) \<le> nat (retention s)"
    by linarith
  then have "length ?all - nat (retention s) = 0"
    by simp
  moreover have "?all = contents s d"
    using True by (simp add: contents_def ring_bytes_def ledger_path_def)
  moreover obtain s2 d2 where "Open (dir s) (retention s) d = (Inr s2, d2)" "ring_ok s2 d2"
      "contents s2 d2 = drop (length ?all - nat (retention s)) ?all"
    using Open_interval [of "dir s" d "retention s" "oldest s" "latest s"] assms True range(1)
    by (auto simp: ring_ok_def ring_span_def Let_def)
  ultimately show ?thesis by auto
qed

theorem store_reopen_same_witness:
  "\<exists>s2 d2. Open ''d'' 2 empty_disk = (Inr s2, d2) \<and> ring_ok s2 d2 \<and> contents s2 d2 = []"
  using store_reopen_same [of "empty_ring 2" empty_disk] by simp

text \<open>
  Ledger file names are injective, parse back to their sequence, and the temporary files a
  write goes through are never taken for ledgers.
\<close>

theorem ledger_names_roundtrip:
  "ParseLedgerFileName (LedgerFileName a) = Some a \<and>
   (LedgerFileName a = LedgerFileName b \<longleftrightarrow> a = b) \<and>
   ParseLedgerFileName (snd (tmp_path (ledger_path s a))) = None"
  by (simp add: tmp_path_def ledger_path_def)

lemma in_map_filter: "y \<in> set (List.map_filter f xs) \<longleftrightarrow> (\<exists>x \<in> set xs. f x = Some y)"
  by (induction xs) (auto simp: List.map_filter_simps split: option.split)

text \<open>
  A scan that succeeds yields the sequences of the ledger files in ascending order, each the
  successor of the one before; a hole in the directory is an error.
\<close>

theorem scan_contiguous:
  assumes "ScanLedgerDir dr d = (Inr seqs, d')"
  shows "sorted seqs \<and> (\<forall>i. Suc i < length seqs \<longrightarrow> seqs ! Suc i = seqs ! i + 1) \<and>
    set seqs = {q. \<exists>name. entry d (dr, name) \<noteq> None \<and> entry d (dr, name) \<noteq> Some SubDir \<and> ParseLedgerFileName name = Some q}"
proof -
  have fine: "next_fault d = Fine"
    using assms by (auto simp: ScanLedgerDir_def os_read_dir_def split: fault.splits)
  from assms have seqs: "seqs = sort (scanned dr d)" "first_gap seqs = None"
    by (auto simp: ScanLedgerDir_fine [OF fine] split: option.splits)
  have "q \<in> set (scanned dr d) \<longleftrightarrow> (\<exists>name \<in> set (dir_names dr d). entry d (dr, name) \<noteq> Some SubDir \<and>
      ParseLedgerFileName name = Some q)" for q
    unfolding scanned_def in_map_filter entry_def by (auto split: if_splits)
  then have "set (scanned dr d) = {q. \<exists>name. entry d (dr, name) \<noteq> None \<and> entry d (dr, name) \<noteq> Some SubDir \<and>
      ParseLedgerFileName name = Some q}"
    unfolding set_dir_names by blast
  with seqs first_gap_consecutive [OF seqs(2)] show ?thesis
    by auto
qed

theorem scan_contiguous_witness:
  "\<exists>seqs. ScanLedgerDir ''d'' \<lparr>files = [((''d'', LedgerFileName 7), RegFile [1])], faults = []\<rparr>
     = (Inr seqs, \<lparr>files = [((''d'', LedgerFileName 7), RegFile [1])], faults = []\<rparr>) \<and> sorted seqs"
proof -
  have "ScanLedgerDir ''d'' \<lparr>files = [((''d'', LedgerFileName 7), RegFile [1])], faults = []\<rparr>
      = (Inr [7], \<lparr>files = [((''d'', LedgerFileName 7), RegFile [1])], faults = []\<rparr>)"
    by (simp add: ScanLedgerDir_def disk_eval dir_names_def List.map_filter_simps)
  from this scan_contiguous [OF this] show ?thesis by blast
qed

text \<open>
  A ledger name with leading zeros, which \<^verbatim>\<open>Put\<close> never writes, is still parsed. A directory
  that holds only such a file opens as a ring that retains the sequence, and reading it then
  fails as not retained.
\<close>

theorem zero_padded_name_unreadable:
  "ParseLedgerFileName ''ledger-007.xdr'' = Some 7 \<and>
   (case Open ''d'' 1 \<lparr>files = [((''d'', ''ledger-007.xdr''), RegFile [1])], faults = []\<rparr> of
      (Inr s, d) \<Rightarrow> Bounds s = (7, 7, True) \<and> fst (Get s d 7) = Inl ErrNotRetained
    | (Inl _, _) \<Rightarrow> False)"
proof -
  have parse: "ParseLedgerFileName ''ledger-007.xdr'' = Some 7"
    by (simp add: ParseLedgerFileName_def filePrefix_def fileSuffix_def suffix_to_prefix sub_slice_def
        parse_uint_def is_digit_def digit_val_def Let_def)
  have name: "LedgerFileName 7 = ''ledger-7.xdr''"
    by (simp add: LedgerFileName_def filePrefix_def fileSuffix_def format_uint.simps digit_char_def char_of_def bit_0)
  show ?thesis
    by (simp add: parse Open_def disk_eval rescan_def ScanLedgerDir_def dir_names_def List.map_filter_simps
        pruneLocked_def prune_loop_stop Bounds_def Get_def Get_read_def ledger_path_def name)
qed

end
