(* ===== verification/Broadcast.thy ===== *)
theory Broadcast
  imports Prelude
begin

text \<open>
  \<^verbatim>\<open>internal/server/broadcast.go\<close>: the watch over the in-flight ledger's chunk flow. A
  \<^verbatim>\<open>*flow\<close> is shared between the publisher and every subscriber that pinned it, and
  subscribers compare flows by pointer, so flows live in a heap (\<open>flows\<close>, in allocation
  order) and a pointer is an index of it. The wakeup channel is a generation number:
  publishing closes the current channel and makes the next, \<open>finish\<close> closes it for good.
  The method bodies run under the broadcaster's lock, so each is one step. A Go panic is
  a value of \<open>panic\<close>.

  The lemmas: the operations panic exactly when the publishing order is broken, flows
  only ever grow (what a snapshot holds stays a prefix of its flow), and no change after
  a \<open>watch\<close> leaves the channel it returned open.
\<close>

section \<open>The wakeup contract\<close>

text \<open>
  What a subscriber that sleeps on a channel relies on: the channel of a state is closed by
  the first step that changes anything, and stays closed.
\<close>

locale wakeup_source =
  fixes ok :: "'s \<Rightarrow> bool"
    and step :: "'s \<Rightarrow> 's \<Rightarrow> bool"
    and channel :: "'s \<Rightarrow> 'c"
    and closed :: "'s \<Rightarrow> 'c \<Rightarrow> bool"
  assumes step_ok: "step s s' \<Longrightarrow> ok s \<Longrightarrow> ok s'"
    and step_wakes: "step s s' \<Longrightarrow> ok s \<Longrightarrow> s' = s \<or> closed s' (channel s)"
    and stays_closed: "step s s' \<Longrightarrow> ok s \<Longrightarrow> closed s c \<Longrightarrow> closed s' c"
begin

lemma steps_ok: "step\<^sup>*\<^sup>* s s' \<Longrightarrow> ok s \<Longrightarrow> ok s'"
  by (induction rule: rtranclp_induct) (auto intro: step_ok)

lemma no_lost_wakeup: "step\<^sup>*\<^sup>* s s' \<Longrightarrow> ok s \<Longrightarrow> s' = s \<or> closed s' (channel s)"
proof (induction rule: rtranclp_induct)
  case (step t u)
  then have "ok t" using steps_ok by blast
  with step show ?case using step_wakes stays_closed by blast
qed simp

end

section \<open>State\<close>

record flow =
  fl_seq :: u32
  fl_begin :: bytes
  fl_chunks :: "bytes list"
  fl_end :: "bytes option"

record flow_snap =
  sn_flow :: "nat option"
  sn_chunks :: "bytes list"
  sn_end :: "bytes option"

record 'e broadcaster =
  flows :: "flow list"
  cur :: "nat option"
  notify :: nat
  notify_closed :: bool
  ended :: bool
  src_err :: "'e option"

datatype panic =
    BegunAfterFinish
  | PreviousFlowOpen
  | ChunkOutsideFlow
  | EndOutsideFlow
  | CloseOfClosedChannel

definition newBroadcaster :: "'e broadcaster" where
  "newBroadcaster = \<lparr>flows = [], cur = None, notify = 0, notify_closed = False,
     ended = False, src_err = None\<rparr>"

text \<open>\<^verbatim>\<open>b.cur\<close> dereferenced.\<close>

definition cur_flow :: "'e broadcaster \<Rightarrow> flow option" where
  "cur_flow b = map_option (\<lambda>i. flows b ! i) (cur b)"

definition set_cur :: "'e broadcaster \<Rightarrow> flow \<Rightarrow> 'e broadcaster" where
  "set_cur b f = (case cur b of None \<Rightarrow> b | Some i \<Rightarrow> b\<lparr>flows := (flows b)[i := f]\<rparr>)"

section \<open>Operations\<close>

definition wakeLocked :: "'e broadcaster \<Rightarrow> panic + 'e broadcaster" where
  "wakeLocked b = (if notify_closed b then Inl CloseOfClosedChannel else Inr (b\<lparr>notify := notify b + 1\<rparr>))"

definition bc_begin :: "'e broadcaster \<Rightarrow> u32 \<Rightarrow> bytes \<Rightarrow> panic + 'e broadcaster" where
  "bc_begin b sq beginMsg =
     (if ended b then Inl BegunAfterFinish
      else if (case cur_flow b of None \<Rightarrow> False | Some f \<Rightarrow> fl_end f = None) then Inl PreviousFlowOpen
      else wakeLocked (b\<lparr>flows := flows b @ [\<lparr>fl_seq = sq, fl_begin = beginMsg, fl_chunks = [], fl_end = None\<rparr>],
                         cur := Some (length (flows b))\<rparr>))"

definition bc_chunk :: "'e broadcaster \<Rightarrow> bytes \<Rightarrow> panic + 'e broadcaster" where
  "bc_chunk b chunkMsg =
     (case cur_flow b of
        None \<Rightarrow> Inl ChunkOutsideFlow
      | Some f \<Rightarrow>
          if fl_end f \<noteq> None then Inl ChunkOutsideFlow
          else wakeLocked (set_cur b (f\<lparr>fl_chunks := fl_chunks f @ [chunkMsg]\<rparr>)))"

definition bc_end :: "'e broadcaster \<Rightarrow> bytes \<Rightarrow> panic + 'e broadcaster" where
  "bc_end b endMsg =
     (case cur_flow b of
        None \<Rightarrow> Inl EndOutsideFlow
      | Some f \<Rightarrow>
          if fl_end f \<noteq> None then Inl EndOutsideFlow
          else wakeLocked (set_cur b (f\<lparr>fl_end := Some endMsg\<rparr>)))"

definition bc_finish :: "'e broadcaster \<Rightarrow> 'e option \<Rightarrow> 'e broadcaster" where
  "bc_finish b e = (if ended b then b else b\<lparr>ended := True, src_err := e, notify_closed := True\<rparr>)"

definition bc_failure :: "'e broadcaster \<Rightarrow> 'e option" where
  "bc_failure b = src_err b"

definition bc_watch :: "'e broadcaster \<Rightarrow> flow_snap \<times> nat \<times> bool" where
  "bc_watch b =
     ((case cur_flow b of
         None \<Rightarrow> \<lparr>sn_flow = None, sn_chunks = [], sn_end = None\<rparr>
       | Some f \<Rightarrow> \<lparr>sn_flow = cur b, sn_chunks = fl_chunks f, sn_end = fl_end f\<rparr>),
      notify b, ended b)"

text \<open>The snapshot's methods; \<open>sn_seq\<close> reads the immutable sequence through the pointer.\<close>

definition sn_seq :: "flow list \<Rightarrow> flow_snap \<Rightarrow> u32" where
  "sn_seq fs s = (case sn_flow s of None \<Rightarrow> 0 | Some i \<Rightarrow> fl_seq (fs ! i))"

definition sn_complete :: "flow_snap \<Rightarrow> bool" where
  "sn_complete s \<longleftrightarrow> sn_end s \<noteq> None"

text \<open>Whether a receive on the channel of generation \<open>ch\<close> returns.\<close>

definition ch_closed :: "'e broadcaster \<Rightarrow> nat \<Rightarrow> bool" where
  "ch_closed b ch \<longleftrightarrow> ch < notify b \<or> (ch = notify b \<and> notify_closed b)"

section \<open>Invariant\<close>

text \<open>
  Pointers are in range, every flow but the current one is closed, and the channel is
  closed for good exactly when the stream has ended.
\<close>

definition bc_inv :: "'e broadcaster \<Rightarrow> bool" where
  "bc_inv b \<longleftrightarrow>
     (cur b = (if flows b = [] then None else Some (length (flows b) - 1))) \<and>
     (\<forall>i < length (flows b) - 1. fl_end (flows b ! i) \<noteq> None) \<and>
     (notify_closed b \<longleftrightarrow> ended b)"

lemma newBroadcaster_inv [simp]: "bc_inv newBroadcaster"
  by (simp add: bc_inv_def newBroadcaster_def)

lemma cur_flow_last: "bc_inv b \<Longrightarrow> cur_flow b = (if flows b = [] then None else Some (last (flows b)))"
  by (simp add: bc_inv_def cur_flow_def last_conv_nth)

lemma set_cur_last: "bc_inv b \<Longrightarrow> flows b \<noteq> [] \<Longrightarrow> set_cur b f = b\<lparr>flows := butlast (flows b) @ [f]\<rparr>"
  by (cases "flows b" rule: rev_cases) (simp_all add: bc_inv_def set_cur_def)

lemmas bc_op_defs = bc_begin_def bc_chunk_def bc_end_def wakeLocked_def

lemma bc_begin_Inr:
  "bc_inv b \<Longrightarrow> bc_begin b sq m = Inr b' \<longleftrightarrow>
     \<not> ended b \<and> (flows b = [] \<or> fl_end (last (flows b)) \<noteq> None) \<and>
     b' = b\<lparr>flows := flows b @ [\<lparr>fl_seq = sq, fl_begin = m, fl_chunks = [], fl_end = None\<rparr>],
            cur := Some (length (flows b)), notify := notify b + 1\<rparr>"
  by (auto simp: bc_op_defs cur_flow_last) (auto simp: bc_inv_def)

lemma bc_chunk_Inr:
  "bc_inv b \<Longrightarrow> bc_chunk b m = Inr b' \<longleftrightarrow>
     \<not> ended b \<and> flows b \<noteq> [] \<and> fl_end (last (flows b)) = None \<and>
     b' = b\<lparr>flows := butlast (flows b) @ [(last (flows b))\<lparr>fl_chunks := fl_chunks (last (flows b)) @ [m]\<rparr>],
            notify := notify b + 1\<rparr>"
  by (auto simp: bc_op_defs cur_flow_last set_cur_last) (auto simp: bc_inv_def)

lemma bc_end_Inr:
  "bc_inv b \<Longrightarrow> bc_end b m = Inr b' \<longleftrightarrow>
     \<not> ended b \<and> flows b \<noteq> [] \<and> fl_end (last (flows b)) = None \<and>
     b' = b\<lparr>flows := butlast (flows b) @ [(last (flows b))\<lparr>fl_end := Some m\<rparr>],
            notify := notify b + 1\<rparr>"
  by (auto simp: bc_op_defs cur_flow_last set_cur_last) (auto simp: bc_inv_def)

lemma closed_flows:
  "bc_inv b \<Longrightarrow> fl_end (last (flows b)) \<noteq> None \<Longrightarrow> i < length (flows b) \<Longrightarrow> fl_end (flows b ! i) \<noteq> None"
  by (cases "i = length (flows b) - 1")
    (auto simp: bc_inv_def last_conv_nth simp flip: length_greater_0_conv)

lemma bc_begin_inv: "bc_inv b \<Longrightarrow> bc_begin b sq m = Inr b' \<Longrightarrow> bc_inv b'"
  using closed_flows [of b]
  by (auto simp: bc_begin_Inr) (auto simp: bc_inv_def nth_append)

lemma bc_chunk_inv: "bc_inv b \<Longrightarrow> bc_chunk b m = Inr b' \<Longrightarrow> bc_inv b'"
  by (auto simp: bc_chunk_Inr) (auto simp: bc_inv_def nth_append nth_butlast)

lemma bc_end_inv: "bc_inv b \<Longrightarrow> bc_end b m = Inr b' \<Longrightarrow> bc_inv b'"
  by (auto simp: bc_end_Inr) (auto simp: bc_inv_def nth_append nth_butlast)

lemma bc_finish_inv: "bc_inv b \<Longrightarrow> bc_inv (bc_finish b e)"
  by (auto simp: bc_finish_def bc_inv_def)

section \<open>Publishing only grows flows\<close>

text \<open>A flow as it was is a prefix of what it becomes: the immutability snapshots rely on.\<close>

definition flow_grows :: "flow \<Rightarrow> flow \<Rightarrow> bool" where
  "flow_grows f g \<longleftrightarrow> fl_seq g = fl_seq f \<and> fl_begin g = fl_begin f \<and>
     prefix (fl_chunks f) (fl_chunks g) \<and>
     (fl_end f \<noteq> None \<longrightarrow> g = f)"

definition flows_grow :: "flow list \<Rightarrow> flow list \<Rightarrow> bool" where
  "flows_grow fs gs \<longleftrightarrow> length fs \<le> length gs \<and> (\<forall>i < length fs. flow_grows (fs ! i) (gs ! i))"

lemma flow_grows_refl [simp]: "flow_grows f f"
  by (simp add: flow_grows_def)

lemma flow_grows_trans: "flow_grows f g \<Longrightarrow> flow_grows g h \<Longrightarrow> flow_grows f h"
  unfolding flow_grows_def by (metis prefix_order.trans)

lemma flows_grow_refl [simp]: "flows_grow fs fs"
  by (simp add: flows_grow_def)

lemma flows_grow_trans: "flows_grow fs gs \<Longrightarrow> flows_grow gs hs \<Longrightarrow> flows_grow fs hs"
  unfolding flows_grow_def by (metis flow_grows_trans le_trans less_le_trans)

lemma flows_grow_append [simp]: "flows_grow fs (fs @ gs)"
  by (simp add: flows_grow_def nth_append)

lemma flows_grow_last:
  assumes "fs \<noteq> []" "flow_grows (last fs) f"
  shows "flows_grow fs (butlast fs @ [f])"
  using assms by (cases fs rule: rev_cases) (auto simp: flows_grow_def nth_append)

text \<open>The publishing operations as one relation, with the stream's end.\<close>

inductive bc_step :: "'e broadcaster \<Rightarrow> 'e broadcaster \<Rightarrow> bool" where
  step_begin: "bc_begin b sq m = Inr b' \<Longrightarrow> bc_step b b'"
| step_chunk: "bc_chunk b m = Inr b' \<Longrightarrow> bc_step b b'"
| step_end: "bc_end b m = Inr b' \<Longrightarrow> bc_step b b'"
| step_finish: "bc_step b (bc_finish b e)"

inductive_cases bc_stepE: "bc_step b b'"

lemma bc_step_inv: "bc_step b b' \<Longrightarrow> bc_inv b \<Longrightarrow> bc_inv b'"
  by (auto elim!: bc_stepE intro: bc_begin_inv bc_chunk_inv bc_end_inv bc_finish_inv)

lemma bc_step_grows: "bc_step b b' \<Longrightarrow> bc_inv b \<Longrightarrow> flows_grow (flows b) (flows b')"
  by (auto elim!: bc_stepE simp: bc_begin_Inr bc_chunk_Inr bc_end_Inr bc_finish_def
      intro!: flows_grow_last simp: flow_grows_def)

lemma bc_step_notify: "bc_step b b' \<Longrightarrow> bc_inv b \<Longrightarrow>
    b' = b \<or> notify b < notify b' \<or> notify b' = notify b \<and> notify_closed b'"
  by (auto elim!: bc_stepE simp: bc_begin_Inr bc_chunk_Inr bc_end_Inr bc_finish_def)

lemma bc_step_closed: "bc_step b b' \<Longrightarrow> bc_inv b \<Longrightarrow> notify_closed b \<Longrightarrow> b' = b"
  by (auto elim!: bc_stepE simp: bc_begin_Inr bc_chunk_Inr bc_end_Inr bc_finish_def bc_inv_def)

definition bc_steps :: "'e broadcaster \<Rightarrow> 'e broadcaster \<Rightarrow> bool" where
  "bc_steps = bc_step\<^sup>*\<^sup>*"

interpretation watch: wakeup_source bc_inv bc_step notify ch_closed
proof
  fix b b' :: "'e broadcaster" and c
  assume step: "bc_step b b'" and inv: "bc_inv b"
  show "bc_inv b'"
    by (rule bc_step_inv [OF step inv])
  show "b' = b \<or> ch_closed b' (notify b)"
    using bc_step_notify [OF step inv] by (auto simp: ch_closed_def)
  show "ch_closed b c \<Longrightarrow> ch_closed b' c"
    using bc_step_notify [OF step inv] bc_step_closed [OF step inv] by (auto simp: ch_closed_def)
qed

lemmas bc_steps_inv = watch.steps_ok [folded bc_steps_def]

lemma bc_steps_grows: "bc_steps b b' \<Longrightarrow> bc_inv b \<Longrightarrow> flows_grow (flows b) (flows b')"
  unfolding bc_steps_def
proof (induction rule: rtranclp_induct)
  case (step b1 b2)
  then have "bc_inv b1" using watch.steps_ok by blast
  with step show ?case using bc_step_grows flows_grow_trans by blast
qed simp

section \<open>Properties\<close>

text \<open>A broadcaster in the middle of ledger 7, for the witnesses.\<close>

definition one_open :: "nat broadcaster" where
  "one_open = \<lparr>flows = [\<lparr>fl_seq = 7, fl_begin = [1], fl_chunks = [], fl_end = None\<rparr>], cur = Some 0,
     notify = 1, notify_closed = False, ended = False, src_err = None\<rparr>"

lemma one_open_inv [simp]: "bc_inv one_open"
  by (simp add: bc_inv_def one_open_def)

lemma failed_iff: "(\<exists>p. x = Inl p) \<longleftrightarrow> (\<nexists>y. x = Inr y)"
  by (cases x) auto

text \<open>
  The broadcaster panics exactly when the publishing order is broken: a BEGIN while the
  previous ledger is open or after the end of the stream, a CHUNK or an END outside an open
  ledger or after the end of the stream.
\<close>

lemma broadcast_panics_exactly:
  assumes "bc_inv b"
  shows "((\<exists>p. bc_begin b sq m = Inl p) \<longleftrightarrow> ended b \<or> (flows b \<noteq> [] \<and> fl_end (last (flows b)) = None)) \<and>
    ((\<exists>p. bc_chunk b m = Inl p) \<longleftrightarrow> ended b \<or> flows b = [] \<or> fl_end (last (flows b)) \<noteq> None) \<and>
    ((\<exists>p. bc_end b m = Inl p) \<longleftrightarrow> ended b \<or> flows b = [] \<or> fl_end (last (flows b)) \<noteq> None)"
  unfolding failed_iff bc_begin_Inr [OF assms] bc_chunk_Inr [OF assms] bc_end_Inr [OF assms]
  by auto

text \<open>
  C32: no wakeup is lost. A subscriber that took a snapshot and then blocks on the channel it got
  with it is woken by whatever was published, or by the end of the stream, since the
  snapshot: the channel is closed unless nothing has changed at all.
\<close>

theorem broadcast_no_lost_wakeup:
  assumes "bc_inv b" "bc_watch b = (snap, ch, fin)" "bc_steps b b'"
  shows "b' = b \<or> ch_closed b' ch"
  using watch.no_lost_wakeup [OF assms(3) [unfolded bc_steps_def] assms(1)] assms(2)
  by (auto simp: bc_watch_def)

theorem broadcast_no_lost_wakeup_witness:
  "bc_finish one_open (Some 3) = one_open \<or> ch_closed (bc_finish one_open (Some 3)) 1"
  by (rule broadcast_no_lost_wakeup [OF one_open_inv])
    (auto simp: bc_watch_def one_open_def cur_flow_def bc_steps_def intro: step_finish)

text \<open>
  A snapshot stays true. Whatever is published after it was taken, its chunks remain the first
  chunks of the flow it points at, and a snapshot of a complete flow is the flow for good; so a
  subscriber may keep writing from it without the lock.
\<close>

theorem broadcast_snapshot_stable:
  assumes "bc_inv b" "bc_watch b = (snap, ch, fin)" "sn_flow snap = Some i" "bc_steps b b'"
  shows "i < length (flows b') \<and> sn_seq (flows b') snap = sn_seq (flows b) snap \<and>
    prefix (sn_chunks snap) (fl_chunks (flows b' ! i)) \<and>
    (sn_end snap \<noteq> None \<longrightarrow> fl_chunks (flows b' ! i) = sn_chunks snap \<and> fl_end (flows b' ! i) = sn_end snap)"
proof -
  from assms(1-3) have i: "i < length (flows b)" "sn_chunks snap = fl_chunks (flows b ! i)"
      "sn_end snap = fl_end (flows b ! i)"
    by (auto simp: bc_watch_def cur_flow_def bc_inv_def split: option.splits if_splits)
  have "flows_grow (flows b) (flows b')"
    by (rule bc_steps_grows [OF assms(4,1)])
  with i assms(3) show ?thesis
    by (auto simp: flows_grow_def flow_grows_def sn_seq_def)
qed

theorem broadcast_snapshot_stable_witness:
  "prefix [] (fl_chunks (flows (one_open\<lparr>flows := [\<lparr>fl_seq = 7, fl_begin = [1], fl_chunks = [[5]], fl_end = None\<rparr>],
      notify := 2\<rparr>) ! 0))"
proof -
  have chunk: "bc_chunk one_open [5] = Inr (one_open\<lparr>flows := [\<lparr>fl_seq = 7, fl_begin = [1], fl_chunks = [[5]], fl_end = None\<rparr>],
      notify := 2\<rparr>)"
    by (simp add: bc_chunk_Inr) (simp add: one_open_def)
  have "bc_watch one_open = (\<lparr>sn_flow = Some 0, sn_chunks = [], sn_end = None\<rparr>, 1, False)"
    by (simp add: bc_watch_def one_open_def cur_flow_def)
  from broadcast_snapshot_stable [OF one_open_inv this] step_chunk [OF chunk] show ?thesis
    by (simp add: bc_steps_def)
qed

end
