(* ===== verification/Wire.thy ===== *)
theory Wire
  imports Prelude
begin

text \<open>
  \<^verbatim>\<open>internal/wire/wire.go\<close>: the message grammar of the stream. One constant or function
  of the package is one definition here, under the package's name; \<open>AppendX dst\<close> returns
  the extended slice. \<open>Decode\<close> returns the decoded message or the package's error value.
  The lemmas show that encoding and decoding are inverse in both directions, that every
  malformed message is refused with the error the package documents, and that the
  too-far-behind close reason survives its trip through the close frame.
\<close>

section \<open>Constants\<close>

definition Version :: byte where "Version = 0x02"
definition TypeBegin :: byte where "TypeBegin = 0x10"
definition TypeChunk :: byte where "TypeChunk = 0x11"
definition TypeEnd :: byte where "TypeEnd = 0x12"

definition BeginSize :: nat where "BeginSize = 1 + 1 + 4 + 8"
definition ChunkHeaderSize :: nat where "ChunkHeaderSize = 1 + 1 + 4 + 4 + 1"
definition EndSize :: nat where "EndSize = 1 + 1 + 4 + 4 + 8 + 8 + 8"

definition DefaultChunkSize :: int where "DefaultChunkSize = 256 * 2 ^ 10"
definition MinChunkSize :: int where "MinChunkSize = 4 * 2 ^ 10"
definition MaxChunkSize :: int where "MaxChunkSize = 8 * 2 ^ 20"

definition CodecRaw :: byte where "CodecRaw = 0x00"
definition CodecZstd :: byte where "CodecZstd = 0x01"

definition DefaultMaxPayloadSize :: int where "DefaultMaxPayloadSize = 256 * 2 ^ 20"

definition StreamPath :: string where "StreamPath = ''/stream''"
definition StatusTooFarBehind :: int where "StatusTooFarBehind = 4001"

lemmas wire_const_defs =
  Version_def TypeBegin_def TypeChunk_def TypeEnd_def BeginSize_def ChunkHeaderSize_def
  EndSize_def CodecRaw_def CodecZstd_def

lemma wire_sizes [simp, codec_simps]:
  "BeginSize = 14" "ChunkHeaderSize = 11" "EndSize = 34"
  by (simp_all add: wire_const_defs)

text \<open>\<^verbatim>\<open>ErrShortMessage\<close> carries the two sizes, the others the offending byte, as the
  formatted errors do.\<close>

datatype wire_error =
    ErrShortMessage nat nat
  | ErrVersion byte
  | ErrCodec byte
  | ErrType byte

section \<open>Encoders\<close>

definition AppendBegin :: "bytes \<Rightarrow> u32 \<Rightarrow> i64 \<Rightarrow> bytes" where
  "AppendBegin dst sq emitStart = dst @ [Version, TypeBegin] @ put_be32 sq @ put_be64 emitStart"

definition AppendChunkHeader :: "bytes \<Rightarrow> u32 \<Rightarrow> u32 \<Rightarrow> byte \<Rightarrow> bytes" where
  "AppendChunkHeader dst sq idx codec =
     dst @ [Version, TypeChunk] @ put_be32 sq @ put_be32 idx @ [codec]"

definition AppendChunk :: "bytes \<Rightarrow> u32 \<Rightarrow> u32 \<Rightarrow> byte \<Rightarrow> bytes \<Rightarrow> bytes" where
  "AppendChunk dst sq idx codec payload = AppendChunkHeader dst sq idx codec @ payload"

text \<open>
  \<^verbatim>\<open>PutChunkHeader\<close> overwrites the first bytes of a message in place; the Go code panics on
  a message shorter than the header, which is \<open>None\<close> here.
\<close>

definition PutChunkHeader :: "bytes \<Rightarrow> u32 \<Rightarrow> u32 \<Rightarrow> byte \<Rightarrow> bytes option" where
  "PutChunkHeader msg sq idx codec =
     (if length msg \<le> 10 then None
      else Some ([Version, TypeChunk] @ put_be32 sq @ put_be32 idx @ [codec] @ drop 11 msg))"

definition AppendEnd :: "bytes \<Rightarrow> u32 \<Rightarrow> u32 \<Rightarrow> u64 \<Rightarrow> i64 \<Rightarrow> u64 \<Rightarrow> bytes" where
  "AppendEnd dst sq chunkCount totalLen emitEnd checksum =
     dst @ [Version, TypeEnd] @ put_be32 sq @ put_be32 chunkCount @ put_be64 totalLen
       @ put_be64 emitEnd @ put_be64 checksum"

definition ValidateChunkSize :: "int \<Rightarrow> bool" where
  "ValidateChunkSize n \<longleftrightarrow> \<not> (n < MinChunkSize \<or> n > MaxChunkSize)"

section \<open>Decoder\<close>

record message =
  m_type :: byte
  m_seq :: u32
  m_emit_start :: i64
  m_chunk_index :: u32
  m_codec :: byte
  m_payload :: bytes
  m_chunk_count :: u32
  m_total_len :: u64
  m_emit_end :: i64
  m_checksum :: u64

definition zero_message :: message where
  "zero_message = \<lparr>m_type = 0, m_seq = 0, m_emit_start = 0, m_chunk_index = 0, m_codec = 0,
     m_payload = [], m_chunk_count = 0, m_total_len = 0, m_emit_end = 0, m_checksum = 0\<rparr>"

definition Decode :: "bytes \<Rightarrow> wire_error + message" where
  "Decode msg =
     (if length msg < 6 then Inl (ErrShortMessage (length msg) 6)
      else if msg ! 0 \<noteq> Version then Inl (ErrVersion (msg ! 0))
      else
        let m = zero_message\<lparr>m_type := msg ! 1, m_seq := get_be32 (sub_slice 2 6 msg)\<rparr> in
        if m_type m = TypeBegin then
          (if length msg \<noteq> BeginSize then Inl (ErrShortMessage (length msg) BeginSize)
           else Inr (m\<lparr>m_emit_start := get_be64 (sub_slice 6 14 msg)\<rparr>))
        else if m_type m = TypeChunk then
          (if length msg < ChunkHeaderSize then Inl (ErrShortMessage (length msg) ChunkHeaderSize)
           else
             let m = m\<lparr>m_chunk_index := get_be32 (sub_slice 6 10 msg), m_codec := msg ! 10\<rparr> in
             if m_codec m \<noteq> CodecRaw \<and> m_codec m \<noteq> CodecZstd then Inl (ErrCodec (m_codec m))
             else Inr (m\<lparr>m_payload := drop ChunkHeaderSize msg\<rparr>))
        else if m_type m = TypeEnd then
          (if length msg \<noteq> EndSize then Inl (ErrShortMessage (length msg) EndSize)
           else Inr (m\<lparr>m_chunk_count := get_be32 (sub_slice 6 10 msg),
                       m_total_len := get_be64 (sub_slice 10 18 msg),
                       m_emit_end := get_be64 (sub_slice 18 26 msg),
                       m_checksum := get_be64 (sub_slice 26 34 msg)\<rparr>))
        else Inl (ErrType (m_type m)))"

section \<open>The close reason of a subscriber that is too far behind\<close>

text \<open>
  \<^verbatim>\<open>fmt.Sscanf\<close> as the package uses it: a format of literal characters, blanks and
  \<open>%d\<close> verbs into \<^verbatim>\<open>uint32\<close> operands. A literal must match exactly; a blank matches one or
  more blanks of the input (none at its end) but no newline; \<open>%d\<close> skips blanks, takes the
  longest run of digits and refuses a value past 32 bits. Input after the last verb is left
  unread. Reasons are ASCII, so a character is a byte.
\<close>

datatype fmt_item = Lit char | Blank | Dec

fun fmt_items :: "string \<Rightarrow> fmt_item list" where
  "fmt_items (CHR ''%'' # CHR ''d'' # cs) = Dec # fmt_items cs"
| "fmt_items (c # cs) = (if c = CHR '' '' then Blank else Lit c) # fmt_items cs"
| "fmt_items [] = []"

definition newline :: char where "newline = CHR 0x0A"

definition is_space :: "char \<Rightarrow> bool" where
  "is_space c \<longleftrightarrow> c \<in> {CHR 0x09, newline, CHR 0x0B, CHR 0x0C, CHR 0x0D, CHR '' ''}"

definition scan_blank :: "string \<Rightarrow> string option" where
  "scan_blank s =
     (case s of
        [] \<Rightarrow> Some []
      | c # cs \<Rightarrow>
          if \<not> is_space c \<or> c = newline then None
          else Some (dropWhile (\<lambda>c. is_space c \<and> c \<noteq> newline) cs))"

fun skip_space :: "string \<Rightarrow> string option" where
  "skip_space [] = Some []"
| "skip_space (c # cs) =
     (if c = CHR 0x0D \<and> cs \<noteq> [] \<and> hd cs = newline then skip_space cs
      else if c = newline then None
      else if is_space c then skip_space cs
      else Some (c # cs))"

definition scan_uint32 :: "string \<Rightarrow> (u32 \<times> string) option" where
  "scan_uint32 s =
     (case skip_space s of
        None \<Rightarrow> None
      | Some s' \<Rightarrow>
          (case parse_uint 64 (takeWhile is_digit s') of
             None \<Rightarrow> None
           | Some n \<Rightarrow>
               if n < 2 ^ 32 then Some (word_of_nat n, dropWhile is_digit s') else None))"

fun sscanf :: "fmt_item list \<Rightarrow> string \<Rightarrow> u32 list option" where
  "sscanf [] s = Some []"
| "sscanf (Lit c # fs) s = (case s of [] \<Rightarrow> None | d # ds \<Rightarrow> if c = d then sscanf fs ds else None)"
| "sscanf (Blank # fs) s = (case scan_blank s of None \<Rightarrow> None | Some s' \<Rightarrow> sscanf fs s')"
| "sscanf (Dec # fs) s =
     (case scan_uint32 s of
        None \<Rightarrow> None
      | Some (n, s') \<Rightarrow> map_option ((#) n) (sscanf fs s'))"

definition TooFarBehindReason :: "u32 \<Rightarrow> u32 \<Rightarrow> string" where
  "TooFarBehindReason oldest latest =
     ''too far behind: oldest='' @ format_uint (unat oldest)
       @ '' latest='' @ format_uint (unat latest)"

definition ParseTooFarBehindReason :: "string \<Rightarrow> (u32 \<times> u32) option" where
  "ParseTooFarBehindReason reason =
     (case sscanf (fmt_items ''too far behind: oldest=%d latest=%d'') reason of
        Some [oldest, latest] \<Rightarrow> Some (oldest, latest)
      | _ \<Rightarrow> None)"

section \<open>Encoding and decoding are inverse\<close>

lemmas append_defs = AppendBegin_def AppendChunkHeader_def AppendChunk_def AppendEnd_def

lemma length_AppendBegin [simp]: "length (AppendBegin dst sq ts) = length dst + BeginSize"
  by (simp add: append_defs)

lemma length_AppendChunk [simp]:
  "length (AppendChunk dst sq idx codec p) = length dst + ChunkHeaderSize + length p"
  by (simp add: append_defs)

lemma length_AppendEnd [simp]: "length (AppendEnd dst sq n t ts c) = length dst + EndSize"
  by (simp add: append_defs)

lemma PutChunkHeader_eq_AppendChunk:
  "length hdr = ChunkHeaderSize \<Longrightarrow>
     PutChunkHeader (hdr @ p) sq idx codec = Some (AppendChunk [] sq idx codec p)"
  by (simp add: PutChunkHeader_def append_defs)

lemma Decode_AppendBegin [simp]:
  "Decode (AppendBegin [] sq ts) =
     Inr (zero_message\<lparr>m_type := TypeBegin, m_seq := sq, m_emit_start := ts\<rparr>)"
proof -
  let ?h = "[Version, TypeBegin]"
  have sq: "get_be32 (sub_slice 2 6 (?h @ put_be32 sq @ put_be64 ts)) = sq"
    by (rule c32.read_at) simp_all
  have ts: "get_be64 (sub_slice 6 14 ((?h @ put_be32 sq) @ put_be64 ts)) = ts"
    by (rule c64.read_at_end) simp_all
  from sq ts show ?thesis
    by (simp add: Decode_def AppendBegin_def Let_def)
qed

lemma type_codes_distinct [simp]:
  "TypeBegin \<noteq> TypeChunk" "TypeChunk \<noteq> TypeBegin" "TypeBegin \<noteq> TypeEnd"
  "TypeEnd \<noteq> TypeBegin" "TypeChunk \<noteq> TypeEnd" "TypeEnd \<noteq> TypeChunk"
  "CodecRaw \<noteq> CodecZstd" "CodecZstd \<noteq> CodecRaw"
  by (simp_all add: wire_const_defs)

lemma Decode_AppendChunk [simp]:
  assumes "codec = CodecRaw \<or> codec = CodecZstd"
  shows "Decode (AppendChunk [] sq idx codec p) =
     Inr (zero_message\<lparr>m_type := TypeChunk, m_seq := sq, m_chunk_index := idx,
            m_codec := codec, m_payload := p\<rparr>)"
proof -
  let ?h = "[Version, TypeChunk]"
  let ?m = "?h @ put_be32 sq @ put_be32 idx @ codec # p"
  have sq: "get_be32 (sub_slice 2 6 ?m) = sq"
    by (rule c32.read_at) simp_all
  have idx: "get_be32 (sub_slice 6 10 ((?h @ put_be32 sq) @ put_be32 idx @ codec # p)) = idx"
    by (rule c32.read_at) simp_all
  have "?m ! 10 = codec"
    using nth_append_length [of "?h @ put_be32 sq @ put_be32 idx" codec p] by simp
  with sq idx assms show ?thesis
    by (auto simp: Decode_def append_defs Let_def)
qed

lemma Decode_AppendEnd [simp]:
  "Decode (AppendEnd [] sq n t ts c) =
     Inr (zero_message\<lparr>m_type := TypeEnd, m_seq := sq, m_chunk_count := n, m_total_len := t,
            m_emit_end := ts, m_checksum := c\<rparr>)"
proof -
  let ?h = "[Version, TypeEnd]"
  have sq: "get_be32 (sub_slice 2 6
      (?h @ put_be32 sq @ put_be32 n @ put_be64 t @ put_be64 ts @ put_be64 c)) = sq"
    by (rule c32.read_at) simp_all
  have n: "get_be32 (sub_slice 6 10
      ((?h @ put_be32 sq) @ put_be32 n @ put_be64 t @ put_be64 ts @ put_be64 c)) = n"
    by (rule c32.read_at) simp_all
  have t: "get_be64 (sub_slice 10 18
      ((?h @ put_be32 sq @ put_be32 n) @ put_be64 t @ put_be64 ts @ put_be64 c)) = t"
    by (rule c64.read_at) simp_all
  have ts: "get_be64 (sub_slice 18 26
      ((?h @ put_be32 sq @ put_be32 n @ put_be64 t) @ put_be64 ts @ put_be64 c)) = ts"
    by (rule c64.read_at) simp_all
  have c: "get_be64 (sub_slice 26 34
      ((?h @ put_be32 sq @ put_be32 n @ put_be64 t @ put_be64 ts) @ put_be64 c)) = c"
    by (rule c64.read_at_end) simp_all
  from sq n t ts c show ?thesis
    by (simp add: Decode_def AppendEnd_def Let_def)
qed

text \<open>
  The abstract message format: which messages are well-formed (fields the type does not
  carry are zero, a chunk's codec is known) and the bytes of each.
\<close>

definition wf_message :: "message \<Rightarrow> bool" where
  "wf_message m \<longleftrightarrow>
     (m_type m = TypeBegin \<and>
        m = zero_message\<lparr>m_type := TypeBegin, m_seq := m_seq m, m_emit_start := m_emit_start m\<rparr>) \<or>
     (m_type m = TypeChunk \<and> (m_codec m = CodecRaw \<or> m_codec m = CodecZstd) \<and>
        m = zero_message\<lparr>m_type := TypeChunk, m_seq := m_seq m, m_chunk_index := m_chunk_index m,
              m_codec := m_codec m, m_payload := m_payload m\<rparr>) \<or>
     (m_type m = TypeEnd \<and>
        m = zero_message\<lparr>m_type := TypeEnd, m_seq := m_seq m, m_chunk_count := m_chunk_count m,
              m_total_len := m_total_len m, m_emit_end := m_emit_end m,
              m_checksum := m_checksum m\<rparr>)"

definition Encode :: "message \<Rightarrow> bytes" where
  "Encode m =
     (if m_type m = TypeBegin then AppendBegin [] (m_seq m) (m_emit_start m)
      else if m_type m = TypeChunk then
        AppendChunk [] (m_seq m) (m_chunk_index m) (m_codec m) (m_payload m)
      else AppendEnd [] (m_seq m) (m_chunk_count m) (m_total_len m) (m_emit_end m) (m_checksum m))"

lemma Decode_Encode: "wf_message m \<Longrightarrow> Decode (Encode m) = Inr m"
  unfolding wf_message_def Encode_def
  by (elim disjE conjE) (simp_all add: Decode_AppendChunk [OF disjI1] Decode_AppendChunk [OF disjI2])

lemma Decode_split:
  assumes "Decode msg = Inr m"
  shows "6 \<le> length msg" "msg = Version # msg ! 1 # sub_slice 2 6 msg @ drop 6 msg"
proof -
  show len: "6 \<le> length msg"
    using assms by (auto simp: Decode_def split: if_splits)
  have "msg ! 0 = Version"
    using assms by (auto simp: Decode_def split: if_splits)
  with split_first_two [of msg] drop_sub_slice_split [of 2 6 msg] len
  show "msg = Version # msg ! 1 # sub_slice 2 6 msg @ drop 6 msg"
    by simp
qed

lemma Decode_canonical:
  assumes "Decode msg = Inr m"
  shows "wf_message m \<and> Encode m = msg"
proof -
  note split = Decode_split [OF assms]
  have sq: "put_be32 (get_be32 (sub_slice 2 6 msg)) = sub_slice 2 6 msg"
    using split(1) by (intro c32.rewrite_at) simp_all
  consider (b) "msg ! 1 = TypeBegin" | (c) "msg ! 1 = TypeChunk" | (e) "msg ! 1 = TypeEnd"
    using assms by (auto simp: Decode_def Let_def zero_message_def split: if_splits)
  then show ?thesis
  proof cases
    case b
    with assms have len: "length msg = 14"
      and m: "m = zero_message\<lparr>m_type := TypeBegin, m_seq := get_be32 (sub_slice 2 6 msg),
                 m_emit_start := get_be64 (sub_slice 6 14 msg)\<rparr>"
      by (auto simp: Decode_def Let_def zero_message_def split: if_splits)
    from len have "put_be64 (get_be64 (sub_slice 6 14 msg)) = drop 6 msg"
      using drop_sub_slice_end [of msg 14 6] by (simp add: put_get_be64)
    with m b sq split(2) show ?thesis
      by (simp add: wf_message_def Encode_def AppendBegin_def zero_message_def)
  next
    case c
    with assms have len: "11 \<le> length msg"
      and codec: "msg ! 10 = CodecRaw \<or> msg ! 10 = CodecZstd"
      and m: "m = zero_message\<lparr>m_type := TypeChunk, m_seq := get_be32 (sub_slice 2 6 msg),
                 m_chunk_index := get_be32 (sub_slice 6 10 msg), m_codec := msg ! 10,
                 m_payload := drop 11 msg\<rparr>"
      by (auto simp: Decode_def Let_def zero_message_def split: if_splits)
    from len have "drop 10 msg = msg ! 10 # drop 11 msg"
      using Cons_nth_drop_Suc [of 10 msg] by simp
    moreover from len have "put_be32 (get_be32 (sub_slice 6 10 msg)) = sub_slice 6 10 msg"
      by (intro c32.rewrite_at) simp_all
    ultimately have "put_be32 (get_be32 (sub_slice 6 10 msg)) @ msg ! 10 # drop 11 msg = drop 6 msg"
      using drop_sub_slice_split [of 6 10 msg] by simp
    with m c codec sq split(2) show ?thesis
      by (auto simp: wf_message_def Encode_def append_defs zero_message_def)
  next
    case e
    with assms have len: "length msg = 34"
      and m: "m = zero_message\<lparr>m_type := TypeEnd, m_seq := get_be32 (sub_slice 2 6 msg),
                 m_chunk_count := get_be32 (sub_slice 6 10 msg),
                 m_total_len := get_be64 (sub_slice 10 18 msg),
                 m_emit_end := get_be64 (sub_slice 18 26 msg),
                 m_checksum := get_be64 (sub_slice 26 34 msg)\<rparr>"
      by (auto simp: Decode_def Let_def zero_message_def split: if_splits)
    have "drop 6 msg = sub_slice 6 10 msg @ sub_slice 10 18 msg @ sub_slice 18 26 msg @ sub_slice 26 34 msg"
      using drop_sub_slice_split [of 6 10 msg] drop_sub_slice_split [of 10 18 msg]
        drop_sub_slice_split [of 18 26 msg] drop_sub_slice_end [of msg 34 26] len by simp
    with m e sq split(2) len show ?thesis
      by (simp add: wf_message_def Encode_def AppendEnd_def zero_message_def put_get_be32 put_get_be64)
  qed
qed

section \<open>The close reason round trip\<close>

lemma digit_not_space: "is_digit c \<Longrightarrow> \<not> is_space c \<and> c \<noteq> newline \<and> c \<noteq> CHR 0x0D"
  by (auto simp: is_digit_def is_space_def newline_def)

lemma takeWhile_format_uint:
  "rest = [] \<or> \<not> is_digit (hd rest) \<Longrightarrow>
     takeWhile is_digit (format_uint n @ rest) = format_uint n \<and>
     dropWhile is_digit (format_uint n @ rest) = rest"
  using format_uint_digits [of n] by (cases rest) (simp_all add: takeWhile_append2)

lemma skip_space_format_uint: "skip_space (format_uint n @ rest) = Some (format_uint n @ rest)"
proof -
  obtain c cs where f: "format_uint n = c # cs"
    by (cases "format_uint n") auto
  then have "is_digit c"
    using format_uint_digits [of n] by simp
  then show ?thesis
    by (simp add: f digit_not_space)
qed

lemma scan_uint32_format:
  assumes "rest = [] \<or> \<not> is_digit (hd rest)"
  shows "scan_uint32 (format_uint (unat (v :: u32)) @ rest) = Some (v, rest)"
proof -
  have v: "unat v < 4294967296"
    by (rule unat_lt_u32)
  then have "unat v < 2 ^ 64"
    by (rule less_trans) simp
  with v show ?thesis
    using takeWhile_format_uint [OF assms, of "unat v"]
    by (simp add: scan_uint32_def skip_space_format_uint parse_format_uint)
qed

lemma ParseTooFarBehindReason_roundtrip:
  "ParseTooFarBehindReason (TooFarBehindReason oldest latest) = Some (oldest, latest)"
proof -
  have "scan_uint32 (format_uint (unat oldest) @ '' latest='' @ format_uint (unat latest))
      = Some (oldest, '' latest='' @ format_uint (unat latest))"
    by (rule scan_uint32_format) (simp add: is_digit_def)
  moreover have "scan_uint32 (format_uint (unat latest)) = Some (latest, [])"
    using scan_uint32_format [of "[]" latest] by simp
  ultimately show ?thesis
    by (simp add: ParseTooFarBehindReason_def TooFarBehindReason_def scan_blank_def is_space_def
        newline_def)
qed

section \<open>Properties\<close>

text \<open>
  C33: the decoder accepts a byte string exactly when it is the encoding of a well-formed
  message, and returns that message: encoding and decoding are inverse in both directions,
  for BEGIN, CHUNK and END, and nothing else is accepted.
\<close>

theorem wire_decode_exact: "Decode msg = Inr m \<longleftrightarrow> wf_message m \<and> Encode m = msg"
  using Decode_Encode Decode_canonical by blast

text \<open>
  C34: the close reason of a subscriber that is too far behind survives the close frame: parsing
  it gives back the retained range it was formatted from, for every pair of sequences.
\<close>

theorem close_reason_roundtrip:
  "ParseTooFarBehindReason (TooFarBehindReason oldest latest) = Some (oldest, latest)"
  by (rule ParseTooFarBehindReason_roundtrip)

text \<open>
  Framing a chunk in place, over the gap in front of its payload, gives the very message
  that appending a header and copying the payload gives.
\<close>

theorem put_header_in_place:
  "length hdr = ChunkHeaderSize \<Longrightarrow>
     PutChunkHeader (hdr @ p) sq idx codec = Some (AppendChunk [] sq idx codec p)"
  by (rule PutChunkHeader_eq_AppendChunk)

theorem put_header_in_place_witness:
  "PutChunkHeader (replicate 11 0 @ [5, 6]) 7 1 CodecRaw = Some (AppendChunk [] 7 1 CodecRaw [5, 6])"
  by (rule put_header_in_place) simp

end
