(* ===== verification/Compress.thy ===== *)
theory Compress
  imports Wire
begin

text \<open>
  \<^verbatim>\<open>internal/server/compress.go\<close>: per-chunk compression and the concurrent pipeline that
  compresses chunks and publishes them in submission order.

  The zstd library is outside the repository: \<^verbatim>\<open>EncodeAll\<close> appends one frame to its
  destination, so an encoder is a function from a payload to its frame, and a nil encoder
  is \<open>None\<close>. What the client needs of the pair of codecs is stated where it is used.

  The pipeline is a step relation: the source goroutine's two halves of \<open>submit\<close>, the
  workers and the publisher interleave in any order. The lemmas: whatever the schedule,
  what is published is a prefix of the submitted chunks, in order, each a raw or a smaller
  compressed framing of its payload; with at least one worker some step is always
  possible until everything is published, and only finitely many steps are, so \<open>flush\<close>
  returns.
\<close>

section \<open>Constants and validation\<close>

definition compressWorkersDefault :: int where "compressWorkersDefault = 4"
definition maxCompressWorkers :: int where "maxCompressWorkers = 64"
definition pendingChunks :: nat where "pendingChunks = 1024"
definition ringEncoderConcurrency :: int where "ringEncoderConcurrency = 2"
definition encodeSlots :: nat where "encodeSlots = 16"

definition validateCompressWorkers :: "int \<Rightarrow> int option" where
  "validateCompressWorkers n =
     (if n = 0 then Some compressWorkersDefault
      else if n < 0 \<or> n > maxCompressWorkers then None
      else Some n)"

text \<open>\<^verbatim>\<open>bits.Len\<close> and the window \<open>1 << bits.Len(chunkSize-1)\<close> \<open>newEncoder\<close> asks for.\<close>

fun bits_len :: "nat \<Rightarrow> nat" where
  "bits_len n = (if n = 0 then 0 else Suc (bits_len (n div 2)))"

declare bits_len.simps [simp del]

definition encoder_window :: "int \<Rightarrow> nat" where
  "encoder_window chunkSize = 2 ^ bits_len (nat (chunkSize - 1))"

lemma bits_len_bounds: "n < 2 ^ bits_len n \<and> (0 < n \<longrightarrow> 2 ^ bits_len n \<le> 2 * n)"
proof (induction n rule: bits_len.induct)
  case (1 n)
  show ?case
  proof (cases "n = 0")
    case False
    with "1" have "n div 2 < 2 ^ bits_len (n div 2)"
      and "0 < n div 2 \<longrightarrow> 2 ^ bits_len (n div 2) \<le> 2 * (n div 2)"
      by auto
    moreover have "bits_len 0 = 0" by (simp add: bits_len.simps)
    ultimately show ?thesis
      using False by (cases "n div 2 = 0") (auto simp: bits_len.simps [of n])
  qed (simp add: bits_len.simps)
qed

section \<open>One chunk\<close>

type_synonym encoder = "bytes \<Rightarrow> bytes"

definition compressChunk :: "encoder \<Rightarrow> u32 \<Rightarrow> u32 \<Rightarrow> bytes \<Rightarrow> bytes \<times> bool" where
  "compressChunk enc sq idx raw =
     (let header = AppendChunkHeader [] sq idx CodecZstd; msg = header @ enc raw
      in (msg, length msg - length header < length raw))"

definition encodeChunk :: "encoder option \<Rightarrow> u32 \<Rightarrow> u32 \<Rightarrow> bytes \<Rightarrow> bytes" where
  "encodeChunk enc sq idx raw =
     (case enc of
        Some e \<Rightarrow>
          (case compressChunk e sq idx raw of (msg, smaller) \<Rightarrow>
             if smaller then msg else AppendChunk [] sq idx CodecRaw raw)
      | None \<Rightarrow> AppendChunk [] sq idx CodecRaw raw)"

text \<open>
  The specification of a chunk message: the payload verbatim, or a zstd frame of it that is
  strictly smaller.
\<close>

definition frames :: "encoder option \<Rightarrow> u32 \<Rightarrow> u32 \<Rightarrow> bytes \<Rightarrow> bytes \<Rightarrow> bool" where
  "frames enc sq idx raw msg \<longleftrightarrow>
     msg = AppendChunk [] sq idx CodecRaw raw \<or>
     (\<exists>e. enc = Some e \<and> length (e raw) < length raw \<and> msg = AppendChunk [] sq idx CodecZstd (e raw))"

lemma compressChunk_eq:
  "compressChunk e sq idx raw = (AppendChunk [] sq idx CodecZstd (e raw), length (e raw) < length raw)"
  by (simp add: compressChunk_def AppendChunk_def)

lemma encodeChunk_frames: "frames enc sq idx raw (encodeChunk enc sq idx raw)"
  by (auto simp: encodeChunk_def frames_def compressChunk_eq split: option.splits)

lemma frames_length: "frames enc sq idx raw msg \<Longrightarrow> length msg \<le> ChunkHeaderSize + length raw"
  by (auto simp: frames_def)

lemma frames_raw [simp]: "frames enc sq idx raw (AppendChunk [] sq idx CodecRaw raw)"
  by (simp add: frames_def)

section \<open>The pipeline\<close>

text \<open>
  A job's \<open>j_msg\<close> is the source's buffer: \<open>ChunkHeaderSize\<close> bytes of gap and the payload.
  \<open>j_out\<close> is what its worker framed, present once the \<open>done\<close> channel is closed. Jobs are
  numbered in submission order; the queues hold those numbers.
\<close>

record job =
  j_seq :: u32
  j_idx :: u32
  j_msg :: bytes
  j_out :: "bytes option"

record pipeline =
  jobs :: "job list"
  submitting :: "nat option"
  work :: "nat list"
  encoding :: "nat list"
  ordered :: "nat list"
  held :: "nat option"
  inflight :: nat
  fallbacks :: nat
  published :: "bytes list"

definition newChunkPipeline :: pipeline where
  "newChunkPipeline = \<lparr>jobs = [], submitting = None, work = [], encoding = [], ordered = [],
     held = None, inflight = 0, fallbacks = 0, published = []\<rparr>"

text \<open>A worker count below one falls back to the default.\<close>

definition pipeline_workers :: "int \<Rightarrow> nat" where
  "pipeline_workers workers = nat (if workers < 1 then compressWorkersDefault else workers)"

definition j_payload :: "job \<Rightarrow> bytes" where
  "j_payload j = drop ChunkHeaderSize (j_msg j)"

text \<open>The raw path frames the source's buffer in place.\<close>

definition raw_frame :: "job \<Rightarrow> bytes" where
  "raw_frame j = AppendChunk [] (j_seq j) (j_idx j) CodecRaw (j_payload j)"

definition worker_frame :: "encoder \<Rightarrow> job \<Rightarrow> bytes" where
  "worker_frame enc j =
     (case compressChunk enc (j_seq j) (j_idx j) (j_payload j) of (msg, smaller) \<Rightarrow>
        if smaller then msg else raw_frame j)"

definition set_out :: "nat \<Rightarrow> bytes \<Rightarrow> pipeline \<Rightarrow> pipeline" where
  "set_out i m p = p\<lparr>jobs := (jobs p)[i := (jobs p ! i)\<lparr>j_out := Some m\<rparr>]\<rparr>"

text \<open>
  \<^verbatim>\<open>submit\<close> sends to \<open>ordered\<close> (blocking while it is full) and then to \<open>work\<close> or, when that
  is full, frames the chunk raw. Workers take from \<open>work\<close>; the publisher takes from
  \<open>ordered\<close>, waits for \<open>done\<close> and publishes.
\<close>

inductive pl_submit :: "pipeline \<Rightarrow> job \<Rightarrow> pipeline \<Rightarrow> bool" where
  enqueue: "submitting p = None \<Longrightarrow> length (ordered p) < pendingChunks \<Longrightarrow>
    ChunkHeaderSize \<le> length (j_msg j) \<Longrightarrow> j_out j = None \<Longrightarrow>
    pl_submit p j (p\<lparr>jobs := jobs p @ [j], submitting := Some (length (jobs p)),
      ordered := ordered p @ [length (jobs p)], inflight := inflight p + 1\<rparr>)"

inductive pl_step :: "encoder \<Rightarrow> nat \<Rightarrow> pipeline \<Rightarrow> pipeline \<Rightarrow> bool" for enc workers where
  to_work: "submitting p = Some i \<Longrightarrow> length (work p) < encodeSlots \<Longrightarrow>
    pl_step enc workers p (p\<lparr>work := work p @ [i], submitting := None\<rparr>)"
| to_raw: "submitting p = Some i \<Longrightarrow> \<not> length (work p) < encodeSlots \<Longrightarrow>
    pl_step enc workers p
      ((set_out i (raw_frame (jobs p ! i)) p)\<lparr>submitting := None, fallbacks := fallbacks p + 1\<rparr>)"
| take_work: "work p = i # is \<Longrightarrow> length (encoding p) < workers \<Longrightarrow>
    pl_step enc workers p (p\<lparr>work := is, encoding := i # encoding p\<rparr>)"
| encode: "encoding p = is @ i # js \<Longrightarrow>
    pl_step enc workers p ((set_out i (worker_frame enc (jobs p ! i)) p)\<lparr>encoding := is @ js\<rparr>)"
| pull: "held p = None \<Longrightarrow> ordered p = i # is \<Longrightarrow>
    pl_step enc workers p (p\<lparr>held := Some i, ordered := is\<rparr>)"
| publish: "held p = Some i \<Longrightarrow> j_out (jobs p ! i) = Some m \<Longrightarrow>
    pl_step enc workers p (p\<lparr>held := None, published := published p @ [m], inflight := inflight p - 1\<rparr>)"

inductive_cases pl_submitE: "pl_submit p j p'"
inductive_cases pl_stepE: "pl_step enc workers p p'"

text \<open>Any interleaving of submissions and internal steps.\<close>

inductive pl_reach :: "encoder \<Rightarrow> nat \<Rightarrow> pipeline \<Rightarrow> bool" for enc workers where
  pl_start: "pl_reach enc workers newChunkPipeline"
| pl_submitted: "pl_reach enc workers p \<Longrightarrow> pl_submit p j p' \<Longrightarrow> pl_reach enc workers p'"
| pl_stepped: "pl_reach enc workers p \<Longrightarrow> pl_step enc workers p p' \<Longrightarrow> pl_reach enc workers p'"


text \<open>
  \<^verbatim>\<open>close\<close> closes \<open>work\<close> and waits for the workers, then closes \<open>ordered\<close> and waits for the
  publisher: it returns in the states with nothing left in any queue or hand. The source
  calls it outside \<open>submit\<close>.
\<close>

definition close_returns :: "pipeline \<Rightarrow> bool" where
  "close_returns p \<longleftrightarrow> submitting p = None \<and> work p = [] \<and> encoding p = [] \<and> ordered p = [] \<and> held p = None"

text \<open>\<^verbatim>\<open>flush\<close> returns in the states with nothing in flight.\<close>

definition flush_returns :: "pipeline \<Rightarrow> bool" where
  "flush_returns p \<longleftrightarrow> inflight p = 0"

text \<open>
  With a nil encoder there is no queue: \<^verbatim>\<open>submit\<close> frames the chunk in place and publishes it.
  \<open>None\<close> is the panic of \<^verbatim>\<open>PutChunkHeader\<close> on a buffer without the gap.
\<close>

definition submit_inline :: "bytes list \<Rightarrow> u32 \<Rightarrow> u32 \<Rightarrow> bytes \<Rightarrow> bytes list option" where
  "submit_inline out sq idx msg = map_option (\<lambda>m. out @ [m]) (PutChunkHeader msg sq idx CodecRaw)"

lemma submit_inline_raw:
  "length gap = ChunkHeaderSize \<Longrightarrow>
     submit_inline out sq idx (gap @ raw) = Some (out @ [AppendChunk [] sq idx CodecRaw raw])"
  by (simp add: submit_inline_def PutChunkHeader_eq_AppendChunk)

section \<open>What the pipeline keeps\<close>

text \<open>The chunks submitted, and the jobs not yet framed: each is in one place.\<close>

definition submitted :: "pipeline \<Rightarrow> (u32 \<times> u32 \<times> bytes) list" where
  "submitted p = map (\<lambda>j. (j_seq j, j_idx j, j_payload j)) (jobs p)"

definition opt_list :: "'a option \<Rightarrow> 'a list" where
  "opt_list x = (case x of None \<Rightarrow> [] | Some a \<Rightarrow> [a])"

lemma opt_list_simps [simp]: "opt_list None = []" "opt_list (Some a) = [a]"
  by (simp_all add: opt_list_def)

lemma nil_upt: "[] = [a..<b] \<longleftrightarrow> b \<le> a"
  using upt_eq_Nil_conv [of a b] by (cases "[a..<b]") auto

lemma cons_upt: "i # xs = [a..<b] \<longleftrightarrow> a < b \<and> i = a \<and> xs = [Suc a..<b]"
  using upt_eq_Cons_conv [of a b i xs] by (metis Suc_eq_plus1)

definition unframed :: "pipeline \<Rightarrow> nat list" where
  "unframed p = opt_list (submitting p) @ work p @ encoding p"

definition framed_ok :: "encoder \<Rightarrow> job \<Rightarrow> bool" where
  "framed_ok enc j \<longleftrightarrow> (\<forall>m. j_out j = Some m \<longrightarrow> frames (Some enc) (j_seq j) (j_idx j) (j_payload j) m)"

definition pl_inv :: "encoder \<Rightarrow> pipeline \<Rightarrow> bool" where
  "pl_inv enc p \<longleftrightarrow>
     distinct (unframed p) \<and>
     (\<forall>i. i \<in> set (unframed p) \<longleftrightarrow> i < length (jobs p) \<and> j_out (jobs p ! i) = None) \<and>
     opt_list (held p) @ ordered p = [length (published p)..<length (jobs p)] \<and>
     length (published p) \<le> length (jobs p) \<and>
     inflight p = length (jobs p) - length (published p) \<and>
     (\<forall>i < length (published p). j_out (jobs p ! i) = Some (published p ! i)) \<and>
     (\<forall>j \<in> set (jobs p). framed_ok enc j)"

lemma submitted_set_out [simp]: "submitted (set_out i m p) = submitted p"
  by (cases "i < length (jobs p)") (auto simp: submitted_def set_out_def j_payload_def map_update
      list_eq_iff_nth_eq nth_list_update)

lemma worker_frame_frames: "frames (Some enc) (j_seq j) (j_idx j) (j_payload j) (worker_frame enc j)"
  by (auto simp: worker_frame_def compressChunk_eq frames_def raw_frame_def)

lemma raw_frame_frames: "frames e (j_seq j) (j_idx j) (j_payload j) (raw_frame j)"
  by (simp add: raw_frame_def)

lemma set_out_frame [simp]:
  "submitting (set_out i m p) = submitting p" "work (set_out i m p) = work p"
  "encoding (set_out i m p) = encoding p" "ordered (set_out i m p) = ordered p"
  "held (set_out i m p) = held p" "inflight (set_out i m p) = inflight p"
  "published (set_out i m p) = published p" "length (jobs (set_out i m p)) = length (jobs p)"
  by (simp_all add: set_out_def)

lemma set_out_nth: "k < length (jobs p) \<Longrightarrow> jobs (set_out i m p) ! k =
    (if k = i then (jobs p ! i)\<lparr>j_out := Some m\<rparr> else jobs p ! k)"
  by (simp add: set_out_def nth_list_update)

text \<open>Framing the unframed job \<open>i\<close> takes it off the unframed ones and nothing else.\<close>

lemma set_out_inv:
  assumes inv: "pl_inv enc p" and i: "i \<in> set (unframed p)"
    and m: "frames (Some enc) (j_seq (jobs p ! i)) (j_idx (jobs p ! i)) (j_payload (jobs p ! i)) m"
    and q: "distinct (unframed q)" "set (unframed q) = set (unframed p) - {i}"
      "jobs q = jobs (set_out i m p)" "held q = held p" "ordered q = ordered p"
      "published q = published p" "inflight q = inflight p"
  shows "pl_inv enc q"
proof -
  have i': "i < length (jobs p)" "j_out (jobs p ! i) = None"
    using inv i by (auto simp: pl_inv_def)
  have len: "length (jobs q) = length (jobs p)"
    by (simp add: q(3))
  have "framed_ok enc j" if "j \<in> set (jobs q)" for j
  proof -
    from that obtain k where "k < length (jobs p)" "j = jobs (set_out i m p) ! k"
      by (metis in_set_conv_nth len q(3))
    with inv m show ?thesis
      by (auto simp: set_out_nth framed_ok_def j_payload_def pl_inv_def)
  qed
  moreover have "k \<in> set (unframed q) \<longleftrightarrow> k < length (jobs q) \<and> j_out (jobs q ! k) = None" for k
    using inv q(2) i' by (auto simp: len q(3) set_out_nth pl_inv_def split: if_splits)
  moreover have "j_out (jobs q ! k) = Some (published q ! k)" if "k < length (published q)" for k
    using inv i' that by (auto simp: q(3) q(6) set_out_nth pl_inv_def)
  ultimately show ?thesis
    using inv q len by (simp add: pl_inv_def)
qed

lemma newChunkPipeline_inv [simp]: "pl_inv enc newChunkPipeline"
  by (simp add: pl_inv_def newChunkPipeline_def unframed_def)

lemma pl_submit_inv: "pl_submit p j p' \<Longrightarrow> pl_inv enc p \<Longrightarrow> pl_inv enc p'"
  by (erule pl_submitE) (auto simp: pl_inv_def unframed_def nth_append framed_ok_def)

lemma pl_step_inv: "pl_step enc workers p p' \<Longrightarrow> pl_inv enc p \<Longrightarrow> pl_inv enc p'"
proof (induction rule: pl_step.induct)
  case (to_work p i)
  then show ?case by (auto simp: pl_inv_def unframed_def)
next
  case (to_raw p i)
  then show ?case
    by (intro set_out_inv [OF to_raw(3), where i = i and m = "raw_frame (jobs p ! i)"])
      (auto simp: unframed_def pl_inv_def raw_frame_frames)
next
  case (take_work p i "is")
  then show ?case by (auto simp: pl_inv_def unframed_def)
next
  case (encode p "is" i js)
  then show ?case
    by (intro set_out_inv [OF encode(2), where i = i and m = "worker_frame enc (jobs p ! i)"])
      (auto simp: unframed_def pl_inv_def worker_frame_frames)
next
  case (pull p i "is")
  then show ?case by (auto simp: pl_inv_def unframed_def)
next
  case (publish p i m)
  then have "i = length (published p)" "length (published p) < length (jobs p)"
    by (auto simp: pl_inv_def cons_upt)
  with publish show ?case
    by (auto simp: pl_inv_def unframed_def nth_append less_Suc_eq cons_upt)
qed

lemma pl_reach_inv: "pl_reach enc workers p \<Longrightarrow> pl_inv enc p"
  by (induction rule: pl_reach.induct) (auto intro: pl_submit_inv pl_step_inv)

text \<open>What an invariant state has published.\<close>

lemma pl_inv_published:
  assumes "pl_inv enc p"
  shows "list_all2 (\<lambda>(sq, idx, raw) m. frames (Some enc) sq idx raw m)
      (take (length (published p)) (submitted p)) (published p)"
  using assms unfolding pl_inv_def list_all2_conv_all_nth
  by (auto simp: submitted_def framed_ok_def)

text \<open>Every internal step makes progress towards the end of a measure.\<close>

definition pl_measure :: "pipeline \<Rightarrow> nat" where
  "pl_measure p = 3 * length (opt_list (submitting p)) + 2 * length (work p) + length (encoding p)
     + 2 * length (ordered p) + length (opt_list (held p))"

lemma pl_step_measure: "pl_step enc workers p p' \<Longrightarrow> pl_measure p' < pl_measure p"
  by (erule pl_stepE) (auto simp: pl_measure_def)

lemma pl_steps_measure: "(pl_step enc workers ^^ n) p p' \<Longrightarrow> n + pl_measure p' \<le> pl_measure p"
proof (induction n arbitrary: p')
  case (Suc n)
  then obtain q where "(pl_step enc workers ^^ n) p q" "pl_step enc workers q p'"
    by auto
  with Suc.IH pl_step_measure show ?case by fastforce
qed simp

lemma pl_steps_inv: "(pl_step enc workers ^^ n) p p' \<Longrightarrow> pl_inv enc p \<Longrightarrow> pl_inv enc p'"
  by (induction n arbitrary: p') (auto intro: pl_step_inv)

lemma pl_unframed_step:
  assumes "i \<in> set (unframed p)" "1 \<le> workers"
  shows "\<exists>p'. pl_step enc workers p p'"
proof (cases "submitting p")
  case (Some k)
  then show ?thesis by (cases "length (work p) < encodeSlots") (metis to_work to_raw)+
next
  case None
  show ?thesis
  proof (cases "encoding p")
    case (Cons k ks)
    then show ?thesis by (metis append_Nil encode)
  next
    case Nil
    with None assms(1) obtain k ks where "work p = k # ks"
      by (cases "work p") (auto simp: unframed_def)
    with Nil assms(2) take_work [of p k ks workers enc] show ?thesis by fastforce
  qed
qed

lemma pl_progress:
  assumes inv: "pl_inv enc p" and "1 \<le> workers" "\<not> flush_returns p"
  shows "\<exists>p'. pl_step enc workers p p'"
proof (cases "held p")
  case None
  with assms obtain k ks where "ordered p = k # ks"
    by (cases "ordered p") (auto simp: pl_inv_def flush_returns_def nil_upt)
  with None show ?thesis by (metis pull)
next
  case (Some i)
  show ?thesis
  proof (cases "j_out (jobs p ! i)")
    case framed: (Some m)
    with Some show ?thesis by (metis publish)
  next
    case None
    with inv Some have "i \<in> set (unframed p)"
      by (auto simp: pl_inv_def cons_upt)
    then show ?thesis using assms(2) by (rule pl_unframed_step)
  qed
qed

text \<open>Nothing can move exactly when \<open>close\<close> would return; then everything is published.\<close>

lemma pl_stuck:
  assumes inv: "pl_inv enc p" and "1 \<le> workers"
  shows "(\<nexists>p'. pl_step enc workers p p') \<longleftrightarrow> close_returns p"
proof
  assume stuck: "\<nexists>p'. pl_step enc workers p p'"
  with pl_progress [OF assms] have "flush_returns p" by blast
  with inv have "held p = None" "ordered p = []"
    by (auto simp: pl_inv_def flush_returns_def)
  moreover from stuck pl_unframed_step [OF _ assms(2)] have "unframed p = []"
    by (metis list.set_intros(1) neq_Nil_conv)
  ultimately show "close_returns p"
    by (cases "submitting p") (auto simp: close_returns_def unframed_def)
qed (auto simp: close_returns_def elim: pl_stepE)

lemma close_flush: "pl_inv enc p \<Longrightarrow> close_returns p \<Longrightarrow> flush_returns p"
  by (auto simp: pl_inv_def close_returns_def flush_returns_def nil_upt)

lemma flush_published: "pl_inv enc p \<Longrightarrow> flush_returns p \<Longrightarrow> length (published p) = length (submitted p)"
  by (auto simp: pl_inv_def flush_returns_def submitted_def)

section \<open>Properties\<close>

text \<open>A worker frame that halves its payload, for the witnesses, and a short run of the pipeline.\<close>

definition half :: encoder where "half x = take (length x div 2) x"

definition two_jobs :: pipeline where
  "two_jobs = newChunkPipeline\<lparr>
     jobs := [\<lparr>j_seq = 7, j_idx = 0, j_msg = replicate 11 0 @ [1, 2], j_out = Some (AppendChunk [] 7 0 CodecZstd [1])\<rparr>,
              \<lparr>j_seq = 7, j_idx = 1, j_msg = replicate 11 0 @ [3], j_out = None\<rparr>],
     work := [1], ordered := [1], inflight := 1, published := [AppendChunk [] 7 0 CodecZstd [1]]\<rparr>"

lemma two_jobs_reach: "pl_reach half 1 two_jobs"
proof -
  let ?j0 = "\<lparr>j_seq = 7, j_idx = 0, j_msg = replicate 11 0 @ [1, 2], j_out = None\<rparr>"
  let ?j0' = "?j0\<lparr>j_out := Some (AppendChunk [] 7 0 CodecZstd [1])\<rparr>"
  let ?j1 = "\<lparr>j_seq = 7, j_idx = 1, j_msg = replicate 11 0 @ [3], j_out = None\<rparr>"
  have frame: "worker_frame half ?j0 = AppendChunk [] 7 0 CodecZstd [1]"
    by (simp add: worker_frame_def compressChunk_eq half_def j_payload_def)
  note pl_reach.intros [where enc = half and workers = 1, intro]
  have "pl_reach half 1 (newChunkPipeline\<lparr>jobs := [?j0], submitting := Some 0, ordered := [0], inflight := 1\<rparr>)"
    using enqueue [of newChunkPipeline ?j0] by (intro pl_submitted [OF pl_start, of ?j0])
      (simp add: newChunkPipeline_def pendingChunks_def)
  from pl_stepped [OF this to_work] have "pl_reach half 1 (newChunkPipeline\<lparr>jobs := [?j0], ordered := [0], inflight := 1, work := [0]\<rparr>)"
    by (simp add: newChunkPipeline_def encodeSlots_def)
  from pl_stepped [OF this take_work] have "pl_reach half 1 (newChunkPipeline\<lparr>jobs := [?j0], ordered := [0], inflight := 1, encoding := [0]\<rparr>)"
    by (simp add: newChunkPipeline_def)
  from pl_stepped [OF this encode [of _ "[]" 0 "[]"]]
  have "pl_reach half 1 (newChunkPipeline\<lparr>jobs := [?j0'], ordered := [0], inflight := 1\<rparr>)"
    by (simp add: newChunkPipeline_def set_out_def frame)
  from pl_stepped [OF this pull] have "pl_reach half 1 (newChunkPipeline\<lparr>jobs := [?j0'], held := Some 0, inflight := 1\<rparr>)"
    by (simp add: newChunkPipeline_def)
  from pl_stepped [OF this publish] have "pl_reach half 1 (newChunkPipeline\<lparr>jobs := [?j0'], published := [AppendChunk [] 7 0 CodecZstd [1]]\<rparr>)"
    by (simp add: newChunkPipeline_def)
  from pl_submitted [OF this enqueue [where j = ?j1]]
  have "pl_reach half 1 (newChunkPipeline\<lparr>jobs := [?j0', ?j1], submitting := Some 1, ordered := [1], inflight := 1,
      published := [AppendChunk [] 7 0 CodecZstd [1]]\<rparr>)"
    by (simp add: newChunkPipeline_def pendingChunks_def)
  from pl_stepped [OF this to_work] show ?thesis
    by (simp add: newChunkPipeline_def encodeSlots_def two_jobs_def)
qed

text \<open>
  C24: chunks come out in the order they went in. Whatever the interleaving of the source, the
  workers and the publisher, what has been published is a framing of the first submitted
  chunks, in submission order, each either verbatim or compressed to fewer bytes; and when
  nothing is in flight, all of them have been.
\<close>

theorem pipeline_in_order:
  assumes "pl_reach enc workers p"
  shows "list_all2 (\<lambda>(sq, idx, raw) m. frames (Some enc) sq idx raw m)
      (take (length (published p)) (submitted p)) (published p) \<and>
    (flush_returns p \<longrightarrow> length (published p) = length (submitted p))"
  using pl_inv_published [OF pl_reach_inv [OF assms]] flush_published [OF pl_reach_inv [OF assms]] by blast

theorem pipeline_in_order_witness:
  "frames (Some half) 7 0 [1, 2] (AppendChunk [] 7 0 CodecZstd [1])"
  using pipeline_in_order [OF two_jobs_reach]
  by (simp add: two_jobs_def submitted_def newChunkPipeline_def j_payload_def)

text \<open>
  C25: \<^verbatim>\<open>flush\<close> and \<^verbatim>\<open>close\<close> return. With at least one worker, the pipeline's own steps can only
  be taken a bounded number of times, and as long as a chunk is in flight one of them is
  possible; when none is, every queue is empty, which is what \<^verbatim>\<open>close\<close> waits for.
\<close>

theorem pipeline_flush_returns:
  assumes "pl_reach enc workers p" "1 \<le> workers" "(pl_step enc workers ^^ n) p p'"
  shows "n \<le> pl_measure p \<and> (flush_returns p' \<or> (\<exists>q. pl_step enc workers p' q)) \<and>
    ((\<nexists>q. pl_step enc workers p' q) \<longleftrightarrow> close_returns p') \<and> (close_returns p' \<longrightarrow> flush_returns p')"
proof -
  have inv: "pl_inv enc p'"
    by (rule pl_steps_inv [OF assms(3) pl_reach_inv [OF assms(1)]])
  then show ?thesis
    using pl_steps_measure [OF assms(3)] pl_progress [OF inv assms(2)] pl_stuck [OF inv assms(2)] close_flush
    by auto
qed

theorem pipeline_flush_returns_witness: "flush_returns two_jobs \<or> (\<exists>q. pl_step half 1 two_jobs q)"
  using pipeline_flush_returns [OF two_jobs_reach, of 0 two_jobs] by simp

text \<open>
  Compression never costs more than the header. A chunk message is the payload verbatim or a
  strictly smaller frame of it, under the same header, and never longer than header plus
  payload, whatever the encoder does.
\<close>

theorem chunk_never_grows:
  "frames enc sq idx raw (encodeChunk enc sq idx raw) \<and>
   length (encodeChunk enc sq idx raw) \<le> ChunkHeaderSize + length raw"
  using encodeChunk_frames [of enc sq idx raw] frames_length by blast

text \<open>
  The window asked of the encoder holds a whole chunk and is a power of two less than twice the
  chunk, so for every chunk size the server accepts it stays within 4 KiB and 8 MiB.
\<close>

theorem encoder_window_fits:
  assumes "ValidateChunkSize c"
  shows "c \<le> int (encoder_window c) \<and> int (encoder_window c) \<le> 2 * (c - 1) \<and>
    2 ^ 12 \<le> encoder_window c \<and> encoder_window c \<le> 2 ^ 23 \<and> (\<exists>k. encoder_window c = 2 ^ k)"
proof -
  define n where "n = nat (c - 1)"
  have n: "4095 \<le> n" "n \<le> 8388607" "c = int n + 1"
    using assms by (auto simp: ValidateChunkSize_def MinChunkSize_def MaxChunkSize_def n_def)
  obtain k where k: "encoder_window c = 2 ^ k" "n < 2 ^ k" "2 ^ k \<le> 2 * n"
    using bits_len_bounds [of n] n(1) unfolding encoder_window_def n_def [symmetric] by fastforce
  have "(2 :: nat) ^ k < 2 ^ 24" "(2 :: nat) ^ 11 < 2 ^ k"
    using k n by auto
  then have "k < 24" "11 < k"
    using power_less_imp_less_exp [of "2 :: nat"] by (metis one_less_numeral_iff semiring_norm(76))+
  then have "(2 :: nat) ^ k \<le> 2 ^ 23" "(2 :: nat) ^ 12 \<le> 2 ^ k"
    by (intro power_increasing; simp)+
  moreover have "c \<le> int (2 ^ k)" "int (2 ^ k) \<le> 2 * (c - 1)"
    using zle_int [THEN iffD2, OF Suc_leI [OF k(2)]] zle_int [THEN iffD2, OF k(3)] n(3) by auto
  ultimately show ?thesis
    unfolding k(1) by blast
qed

theorem encoder_window_fits_witness: "encoder_window DefaultChunkSize \<le> 2 ^ 23"
  using encoder_window_fits [of DefaultChunkSize]
  by (simp add: ValidateChunkSize_def MinChunkSize_def MaxChunkSize_def DefaultChunkSize_def)

end
