(* ===== verification/LedgerWork.thy ===== *)
theory LedgerWork
  imports Prelude
begin

text \<open>
  \<^verbatim>\<open>internal/server/ledgerwork.go\<close>: filling one chunk from a reader, and the checksum
  goroutine. A reader is a state and a \<open>read\<close> function; \<open>Read(p)\<close> with \<open>len(p) = k\<close> is
  \<open>read r k\<close> and returns the new state, the bytes it placed in \<open>p\<close> and the error. The
  checksum itself (\<^verbatim>\<open>xxhash\<close>, outside the repository) is a parameter \<open>sum64\<close> of everything
  written since the last reset.

  The locale \<open>byte_reader\<close> is what a ledger body promises: it hands out its remaining
  bytes in order, makes progress, and fails only with \<open>EOF\<close> at the end. Its lemmas say
  how such a body is cut into chunks; the readers of the sources interpret it.
\<close>

section \<open>Readers\<close>

text \<open>
  The errors a \<open>Read\<close> may return, as far as the program distinguishes them.
  \<open>RdCancelled\<close> is an error that wraps the error of the (cancelled) context.
\<close>

datatype rd_error = RdEOF | RdUnexpectedEOF | RdNoProgress | RdCancelled | RdFailed

type_synonym 'r reader = "'r \<Rightarrow> nat \<Rightarrow> 'r \<times> bytes \<times> rd_error option"

text \<open>\<open>acc\<close> is what was read so far, so its length is \<open>n\<close>; the buffer has \<open>sz\<close> bytes.\<close>

function fill_loop :: "'r reader \<Rightarrow> nat \<Rightarrow> 'r \<Rightarrow> bytes \<Rightarrow> 'r \<times> bytes \<times> rd_error option" where
  "fill_loop read sz r acc =
     (if length acc < sz then
        (case read r (sz - length acc) of (r', data, err) \<Rightarrow>
           (case err of
              Some e \<Rightarrow> (r', acc @ data, Some e)
            | None \<Rightarrow>
                if data = [] then (r', acc, Some RdNoProgress)
                else fill_loop read sz r' (acc @ data)))
      else (r, acc, None))"
  by pat_completeness auto

termination fill_loop
  by (relation "measure (\<lambda>(read, sz, r, acc). sz - length acc)") (auto simp: neq_Nil_conv)

declare fill_loop.simps [simp del]

definition fillChunk :: "'r reader \<Rightarrow> 'r \<Rightarrow> nat \<Rightarrow> 'r \<times> bytes \<times> rd_error option" where
  "fillChunk read r sz = fill_loop read sz r []"

text \<open>The contract of \<^verbatim>\<open>io.Reader\<close> itself: never more than was asked for.\<close>

definition reads_within :: "'r reader \<Rightarrow> bool" where
  "reads_within read \<longleftrightarrow> (\<forall>r k. length (fst (snd (read r k))) \<le> k)"

lemma fill_loop_length:
  "reads_within read \<Longrightarrow> length acc \<le> sz \<Longrightarrow> fill_loop read sz r acc = (r', out, e) \<Longrightarrow>
     length out \<le> sz \<and> (e = None \<longrightarrow> length out = sz)"
proof (induction read sz r acc rule: fill_loop.induct)
  case (1 read sz r acc)
  show ?case
  proof (cases "length acc < sz")
    case False
    with "1.prems" show ?thesis by (simp add: fill_loop.simps [of read sz r acc])
  next
    case True
    obtain r1 data err where rd: "read r (sz - length acc) = (r1, data, err)"
      by (metis prod_cases3)
    with "1.prems"(1) have "length data \<le> sz - length acc"
      unfolding reads_within_def by (metis fst_conv snd_conv)
    with "1.prems" "1.IH" [OF True rd [symmetric] refl] True rd show ?thesis
      by (auto simp: fill_loop.simps [of read sz r acc] split: option.splits if_splits)
  qed
qed

lemma fillChunk_length:
  "reads_within read \<Longrightarrow> fillChunk read r sz = (r', out, e) \<Longrightarrow>
     length out \<le> sz \<and> (e = None \<longrightarrow> length out = sz)"
  unfolding fillChunk_def by (rule fill_loop_length) simp_all

text \<open>
  A ledger body: \<open>pending\<close> is what is left of it. A read hands out a piece of the front,
  never an empty one without an error, and \<open>EOF\<close> only with or after the last byte; it may
  fail with another error at any time.
\<close>

locale byte_reader =
  fixes ok :: "'r \<Rightarrow> bool" and read :: "'r reader" and pending :: "'r \<Rightarrow> bytes"
  assumes read_step: "ok r \<Longrightarrow> 0 < k \<Longrightarrow> read r k = (r', data, e) \<Longrightarrow>
      ok r' \<and> length data \<le> k \<and> pending r = data @ pending r' \<and>
      (e = None \<longrightarrow> data \<noteq> []) \<and> (e = Some RdEOF \<longrightarrow> pending r' = [])"
begin

lemma fill_loop_spec:
  "ok r \<Longrightarrow> length acc \<le> sz \<Longrightarrow> fill_loop read sz r acc = (r', out, e) \<Longrightarrow>
     ok r' \<and> acc @ pending r = out @ pending r' \<and> length out \<le> sz \<and>
     (e = None \<longrightarrow> length out = sz) \<and> (e = Some RdEOF \<longrightarrow> pending r' = [])"
proof (induction "sz - length acc" arbitrary: r acc rule: less_induct)
  case less
  show ?case
  proof (cases "length acc < sz")
    case False
    with less.prems show ?thesis by (simp add: fill_loop.simps [of read sz r acc])
  next
    case True
    obtain r1 data err where rd: "read r (sz - length acc) = (r1, data, err)"
      by (metis prod_cases3)
    with less.prems(1) True have step: "ok r1" "length data \<le> sz - length acc"
        "pending r = data @ pending r1" "err = None \<longrightarrow> data \<noteq> []"
        "err = Some RdEOF \<longrightarrow> pending r1 = []"
      using read_step [of r "sz - length acc" r1 data err] by auto
    show ?thesis
    proof (cases err)
      case (Some x)
      with less.prems step True rd show ?thesis
        by (auto simp: fill_loop.simps [of read sz r acc])
    next
      case None
      then have "fill_loop read sz r1 (acc @ data) = (r', out, e)"
        and "sz - length (acc @ data) < sz - length acc"
        using less.prems(3) step(4) True rd by (auto simp: fill_loop.simps [of read sz r acc] neq_Nil_conv)
      from less.hyps [OF this(2) step(1) _ this(1)] step(2,3) True show ?thesis
        by auto
    qed
  qed
qed

lemma fillChunk_spec:
  "ok r \<Longrightarrow> fillChunk read r sz = (r', out, e) \<Longrightarrow>
     ok r' \<and> pending r = out @ pending r' \<and> length out \<le> sz \<and>
     (e = None \<longrightarrow> length out = sz) \<and> (e = Some RdEOF \<longrightarrow> pending r' = [])"
  using fill_loop_spec [of r "[]" sz r' out e] by (simp add: fillChunk_def)

end

text \<open>A body that does not fail.\<close>

locale calm_reader = byte_reader +
  assumes read_calm: "ok r \<Longrightarrow> 0 < k \<Longrightarrow> read r k = (r', data, e) \<Longrightarrow> e = None \<or> e = Some RdEOF"
begin

lemma fill_loop_calm:
  "ok r \<Longrightarrow> fill_loop read sz r acc = (r', out, e) \<Longrightarrow> e = None \<or> e = Some RdEOF"
proof (induction "sz - length acc" arbitrary: r acc rule: less_induct)
  case less
  show ?case
  proof (cases "length acc < sz")
    case False
    with less.prems show ?thesis by (simp add: fill_loop.simps [of read sz r acc])
  next
    case True
    obtain r1 data err where rd: "read r (sz - length acc) = (r1, data, err)"
      by (metis prod_cases3)
    note step = read_step [OF less.prems(1) _ rd] read_calm [OF less.prems(1) _ rd]
    with True less.prems(2) rd show ?thesis
      using less.hyps [of "acc @ data" r1]
      by (cases err) (auto simp: fill_loop.simps [of read sz r acc] neq_Nil_conv split: if_splits)
  qed
qed

text \<open>Filling a chunk takes the next \<open>sz\<close> bytes of the body, or all that is left.\<close>

lemma fillChunk_calm:
  assumes "ok r" "fillChunk read r sz = (r', out, e)"
  shows "ok r' \<and> out = take sz (pending r) \<and> pending r' = drop sz (pending r) \<and>
     (e = None \<or> e = Some RdEOF) \<and> (e = None \<longrightarrow> sz \<le> length (pending r)) \<and>
     (e = Some RdEOF \<longrightarrow> length (pending r) \<le> sz)"
  using fillChunk_spec [OF assms] fill_loop_calm [of r sz "[]" r' out e] assms
  by (cases e) (auto simp: fillChunk_def)

end

section \<open>The checksum goroutine\<close>

text \<open>
  The channel carries chunks, and nil (\<open>None\<close>) for the end of a ledger; the goroutine's
  digest is what it has consumed since its last reset. \<open>write\<close> only queues. \<open>sum\<close> queues
  nil and receives, which returns once the goroutine has consumed everything before it:
  \<open>hash_consume\<close> is the goroutine run until its queue is empty, with the sums it sends.
\<close>

record ledger_hasher =
  h_in :: "bytes option list"
  h_digest :: bytes

definition newLedgerHasher :: ledger_hasher where
  "newLedgerHasher = \<lparr>h_in = [], h_digest = []\<rparr>"

fun hash_consume :: "(bytes \<Rightarrow> u64) \<Rightarrow> bytes \<Rightarrow> bytes option list \<Rightarrow> bytes \<times> u64 list" where
  "hash_consume sum64 dg [] = (dg, [])"
| "hash_consume sum64 dg (Some d # q) = hash_consume sum64 (dg @ d) q"
| "hash_consume sum64 dg (None # q) =
     (case hash_consume sum64 [] q of (dg', sums) \<Rightarrow> (dg', sum64 dg # sums))"

definition hasher_write :: "ledger_hasher \<Rightarrow> bytes \<Rightarrow> ledger_hasher" where
  "hasher_write h data = h\<lparr>h_in := h_in h @ [Some data]\<rparr>"

definition hasher_sum :: "(bytes \<Rightarrow> u64) \<Rightarrow> ledger_hasher \<Rightarrow> u64 \<times> ledger_hasher" where
  "hasher_sum sum64 h =
     (case hash_consume sum64 (h_digest h) (h_in h @ [None]) of
        (dg, sums) \<Rightarrow> (hd sums, \<lparr>h_in = [], h_digest = dg\<rparr>))"

text \<open>The chunks a hasher holds of the current ledger.\<close>

definition hasher_holds :: "ledger_hasher \<Rightarrow> bytes list \<Rightarrow> bool" where
  "hasher_holds h parts \<longleftrightarrow> h_digest h = [] \<and> h_in h = map Some parts"

lemma hash_consume_ledger:
  "hash_consume sum64 dg (map Some parts @ [None]) = ([], [sum64 (dg @ concat parts)])"
  by (induction parts arbitrary: dg) simp_all

lemma newLedgerHasher_holds [simp]: "hasher_holds newLedgerHasher []"
  by (simp add: hasher_holds_def newLedgerHasher_def)

lemma hasher_write_holds: "hasher_holds h parts \<Longrightarrow> hasher_holds (hasher_write h d) (parts @ [d])"
  by (simp add: hasher_holds_def hasher_write_def)

lemma hasher_sum_holds:
  "hasher_holds h parts \<Longrightarrow>
     \<exists>h'. hasher_sum sum64 h = (sum64 (concat parts), h') \<and> hasher_holds h' []"
  by (simp add: hasher_sum_def hasher_holds_def hash_consume_ledger)

end
