(* ===== verification/Emit.thy ===== *)
theory Emit
  imports LedgerWork
begin

text \<open>
  \<^verbatim>\<open>internal/server/emit.go\<close>: ledgers as incremental emissions, and the adapter that paces
  the complete ledgers of a \<^verbatim>\<open>LedgerStream\<close>. What the clock and the context do is an
  argument: each wait of \<^verbatim>\<open>sleepUntil\<close> comes with whether the context ended it. The due
  times inside one body are float arithmetic on the clock and decide only how long a wait
  is, so they are not modelled; the cadence grid between ledgers is integer arithmetic on
  nanoseconds and is.

  The lemmas: a paced body is a byte reader over its payload, the emissions carry the
  source's ledgers in order under consecutive sequences, and successive starts on the
  grid are never closer than the cadence and lie on it exactly while nothing overruns.
\<close>

section \<open>Emissions\<close>

record 'r emission =
  em_seq :: u32
  em_size :: int
  em_body :: 'r

text \<open>
  What an \<^verbatim>\<open>EmittingStream\<close> yields: an emission, or an error with the sequence it
  happened at. \<open>SrcCancelled\<close> is an error that wraps the cancelled context's own.
\<close>

datatype src_error = SrcCancelled | SrcFailed

datatype 'r src_item = Emitted "'r emission" | SourceError u32 src_error

section \<open>A paced body\<close>

record paced_body =
  pb_payload :: bytes
  pb_window :: int
  pb_off :: nat
  pb_started :: bool
  pb_waits :: "bool list"

definition paced_reset :: "bool list \<Rightarrow> bytes \<Rightarrow> int \<Rightarrow> paced_body" where
  "paced_reset waits payload window =
     \<lparr>pb_payload = payload, pb_window = window, pb_off = 0, pb_started = False, pb_waits = waits\<rparr>"

text \<open>\<open>sleepUntil\<close>: whether this wait ended with the context's error, and the waits to come.\<close>

definition sleepUntil :: "bool list \<Rightarrow> bool \<times> bool list" where
  "sleepUntil waits = (case waits of [] \<Rightarrow> (False, []) | c # cs \<Rightarrow> (c, cs))"

definition paced_wait :: "paced_body \<Rightarrow> nat \<Rightarrow> bool \<times> paced_body" where
  "paced_wait b n =
     (if pb_window b > 0 \<and> n > 0 then
        (case sleepUntil (pb_waits b) of (stop, rest) \<Rightarrow> (stop, b\<lparr>pb_started := True, pb_waits := rest\<rparr>))
      else (False, b\<lparr>pb_started := True\<rparr>))"

definition paced_read :: "paced_body reader" where
  "paced_read b k =
     (if pb_off b \<ge> length (pb_payload b) then (b, [], Some RdEOF)
      else
        let n = min k (length (pb_payload b) - pb_off b) in
        case paced_wait b n of (stop, b) \<Rightarrow>
          if stop then (b, [], Some RdCancelled)
          else (b\<lparr>pb_off := pb_off b + n\<rparr>, sub_slice (pb_off b) (pb_off b + n) (pb_payload b), None))"

definition paced_pending :: "paced_body \<Rightarrow> bytes" where
  "paced_pending b = drop (pb_off b) (pb_payload b)"

text \<open>A body whose waits the context does not end.\<close>

definition paced_calm :: "paced_body \<Rightarrow> bool" where
  "paced_calm b \<longleftrightarrow> True \<notin> set (pb_waits b)"

lemma sleepUntil_calm: "True \<notin> set ws \<Longrightarrow> sleepUntil ws = (c, ws') \<Longrightarrow> \<not> c \<and> True \<notin> set ws'"
  by (auto simp: sleepUntil_def split: list.splits)

lemma paced_wait_calm:
  "paced_calm b \<Longrightarrow> \<exists>ws. paced_wait b n = (False, b\<lparr>pb_started := True, pb_waits := ws\<rparr>) \<and> True \<notin> set ws"
  by (cases b; cases "sleepUntil (pb_waits b)")
    (auto simp: paced_wait_def paced_calm_def dest: sleepUntil_calm)

lemma paced_wait_frame: "paced_wait b n = (stop, b') \<Longrightarrow> pb_off b' = pb_off b \<and> pb_payload b' = pb_payload b"
  by (auto simp: paced_wait_def split: if_splits prod.splits)

lemma paced_reads_within: "reads_within paced_read"
  by (auto simp: reads_within_def paced_read_def Let_def dest!: paced_wait_frame split: prod.splits)

lemma paced_read_step:
  assumes k: "0 < k" and rd: "paced_read r k = (r', data, e)"
  shows "length data \<le> k \<and> paced_pending r = data @ paced_pending r' \<and>
      (e = None \<longrightarrow> data \<noteq> []) \<and> (e = Some RdEOF \<longrightarrow> paced_pending r' = []) \<and>
      (paced_calm r \<longrightarrow> paced_calm r' \<and> e \<noteq> Some RdCancelled) \<and> e \<in> {None, Some RdEOF, Some RdCancelled}"
proof (cases "pb_off r \<ge> length (pb_payload r)")
  case True
  with rd show ?thesis by (auto simp: paced_read_def paced_pending_def)
next
  case False
  define n where "n = min k (length (pb_payload r) - pb_off r)"
  obtain stop r1 where w: "paced_wait r n = (stop, r1)"
    by fastforce
  note frame = paced_wait_frame [OF w]
  have calm: "paced_calm r \<Longrightarrow> \<not> stop \<and> paced_calm r1"
    using paced_wait_calm [of r n] w by (auto simp: paced_calm_def)
  from rd w False have "(r', data, e) = (if stop then (r1, [], Some RdCancelled)
      else (r1\<lparr>pb_off := pb_off r1 + n\<rparr>, sub_slice (pb_off r1) (pb_off r1 + n) (pb_payload r1), None))"
    by (cases stop) (auto simp: paced_read_def Let_def n_def)
  with calm frame False k drop_sub_slice_split [of "pb_off r" "pb_off r + n" "pb_payload r"] show ?thesis
    by (cases stop) (auto simp: paced_pending_def paced_calm_def n_def sub_slice_def)
qed

interpretation paced: byte_reader "\<lambda>_. True" paced_read paced_pending
  by unfold_locales (use paced_read_step in blast)

interpretation unpaused: calm_reader paced_calm paced_read paced_pending
  by unfold_locales (use paced_read_step in blast)+

lemma paced_reset_ready [simp]:
  "paced_pending (paced_reset waits payload window) = payload"
  "paced_calm (paced_reset waits payload window) \<longleftrightarrow> True \<notin> set waits"
  by (simp_all add: paced_pending_def paced_calm_def paced_reset_def)

section \<open>The paced source\<close>

text \<open>What a \<^verbatim>\<open>LedgerStream\<close> yields.\<close>

datatype raw_item = Raw bytes | RawError src_error

text \<open>
  The clock and the context: \<open>pe_first\<close> is the time of the first start, \<open>pe_now i\<close> the time
  right after the start of ledger \<open>i\<close>, \<open>pe_cancel i\<close> whether the wait for that start was
  ended by the context, \<open>pe_waits i\<close> the waits inside its body.
\<close>

record pace_env =
  pe_first :: int
  pe_now :: "nat \<Rightarrow> int"
  pe_cancel :: "nat \<Rightarrow> bool"
  pe_waits :: "nat \<Rightarrow> bool list"

text \<open>The emissions, each with the time its start was scheduled for (\<open>None\<close> without a cadence).\<close>

fun paced_emissions :: "pace_env \<Rightarrow> int \<Rightarrow> int \<Rightarrow> nat \<Rightarrow> u32 \<Rightarrow> int option \<Rightarrow> raw_item list
    \<Rightarrow> (paced_body src_item \<times> int option) list" where
  "paced_emissions env window cadence i sq nextStart [] = []"
| "paced_emissions env window cadence i sq nextStart (RawError e # _) = [(SourceError sq e, None)]"
| "paced_emissions env window cadence i sq nextStart (Raw raw # rest) =
     (let em = Emitted \<lparr>em_seq = sq, em_size = int (length raw),
                       em_body = paced_reset (pe_waits env i) raw window\<rparr> in
      if cadence > 0 then
        let start = (case nextStart of None \<Rightarrow> pe_first env | Some t \<Rightarrow> t) in
        if pe_cancel env i then [(SourceError sq SrcCancelled, Some start)]
        else
          let next = start + cadence;
              next = (if next < pe_now env i then pe_now env i else next)
          in (em, Some start) # paced_emissions env window cadence (i + 1) (sq + 1) (Some next) rest
      else (em, None) # paced_emissions env window cadence (i + 1) (sq + 1) None rest)"

definition PacedSource :: "pace_env \<Rightarrow> int \<Rightarrow> int \<Rightarrow> u32 \<Rightarrow> raw_item list \<Rightarrow> (paced_body src_item \<times> int option) list" where
  "PacedSource env window cadence from raws = paced_emissions env window cadence 0 from None raws"

text \<open>Without errors and cancellations every ledger is emitted, under consecutive sequences.\<close>

lemma paced_emissions_calm:
  "\<forall>j. \<not> pe_cancel env j \<Longrightarrow>
     map fst (paced_emissions env window cadence i sq nextStart (map Raw raws)) =
     map (\<lambda>k. Emitted \<lparr>em_seq = sq + word_of_nat k, em_size = int (length (raws ! k)),
                em_body = paced_reset (pe_waits env (i + k)) (raws ! k) window\<rparr>) [0..<length raws]"
proof (induction raws arbitrary: i sq nextStart)
  case (Cons raw raws)
  then show ?case
    by (simp add: Let_def upt_conv_Cons comp_def ac_simps del: upt_Suc flip: map_Suc_upt split: option.split)
qed simp

text \<open>The scheduled starts: at least a cadence apart, exactly a cadence while nothing overruns.\<close>

definition starts :: "('b src_item \<times> int option) list \<Rightarrow> int list" where
  "starts ems = List.map_filter snd ems"

definition first_start :: "pace_env \<Rightarrow> int option \<Rightarrow> int" where
  "first_start env nextStart = (case nextStart of None \<Rightarrow> pe_first env | Some t \<Rightarrow> t)"

lemma first_start_Some [simp]: "first_start env (Some t) = t"
  by (simp add: first_start_def)

lemma starts_step:
  "0 < cadence \<Longrightarrow> starts (paced_emissions env window cadence i sq nextStart (Raw raw # rest)) =
     first_start env nextStart #
       (if pe_cancel env i then []
        else starts (paced_emissions env window cadence (i + 1) (sq + 1)
               (Some (max (first_start env nextStart + cadence) (pe_now env i))) rest))"
  by (auto simp: starts_def first_start_def List.map_filter_simps Let_def max_def split: option.splits)

lemma starts_nil [simp]:
  "starts (paced_emissions env window cadence i sq nextStart []) = []"
  "starts (paced_emissions env window cadence i sq nextStart (RawError e # rest)) = []"
  by (simp_all add: starts_def List.map_filter_simps)

lemma starts_empty [simp]: "starts [] = []" "starts [(x, None)] = []"
  by (simp_all add: starts_def List.map_filter_simps)

lemma paced_starts_spaced:
  assumes "0 < cadence"
  shows "sorted_wrt (\<lambda>a b. a + cadence \<le> b) (starts (paced_emissions env window cadence i sq nextStart items)) \<and>
    (\<forall>s \<in> set (starts (paced_emissions env window cadence i sq nextStart items)). first_start env nextStart \<le> s)"
proof (induction items arbitrary: i sq nextStart)
  case (Cons item items)
  show ?case
  proof (cases item)
    case (Raw raw)
    let ?f = "first_start env nextStart"
    let ?next = "max (?f + cadence) (pe_now env i)"
    let ?rest = "starts (paced_emissions env window cadence (i + 1) (sq + 1) (Some ?next) items)"
    have IH: "sorted_wrt (\<lambda>a b. a + cadence \<le> b) ?rest" "\<forall>s \<in> set ?rest. ?next \<le> s"
      using Cons [of "i + 1" "sq + 1" "Some ?next"] unfolding first_start_Some by blast+
    have later: "?f + cadence \<le> s" if "s \<in> set ?rest" for s
      using IH(2) that by (meson max.bounded_iff)
    then have "?f \<le> s" if "s \<in> set ?rest" for s
      using assms that by (meson add_increasing2 le_add_same_cancel1 less_imp_le order_trans)
    with IH(1) later show ?thesis
      unfolding Raw starts_step [OF assms] by (cases "pe_cancel env i") simp_all
  qed simp
qed simp

lemma paced_starts_grid:
  assumes "0 < cadence" "\<forall>j. \<not> pe_cancel env j"
    and "\<forall>j < length raws. pe_now env (i + j) \<le> first_start env nextStart + (int j + 1) * cadence"
  shows "starts (paced_emissions env window cadence i sq nextStart (map Raw raws)) =
    map (\<lambda>j. first_start env nextStart + int j * cadence) [0..<length raws]"
  using assms(3)
proof (induction raws arbitrary: i sq nextStart)
  case (Cons raw raws)
  let ?f = "first_start env nextStart"
  have "pe_now env i \<le> ?f + cadence"
    using Cons.prems by (auto dest: spec [of _ 0])
  then have next': "max (?f + cadence) (pe_now env i) = ?f + cadence"
    by simp
  have "pe_now env (i + 1 + j) \<le> ?f + cadence + (int j + 1) * cadence" if "j < length raws" for j
    using Cons.prems [rule_format, of "Suc j"] that by (simp add: algebra_simps)
  then have IH: "starts (paced_emissions env window cadence (i + 1) (sq + 1) (Some (?f + cadence)) (map Raw raws))
      = map (\<lambda>j. ?f + cadence + int j * cadence) [0..<length raws]"
    using Cons.IH [of "i + 1" "Some (?f + cadence)" "sq + 1"] unfolding first_start_Some by simp
  have "map (\<lambda>j. ?f + int j * cadence) [0..<length (raw # raws)] =
      ?f # map (\<lambda>j. ?f + cadence + int j * cadence) [0..<length raws]"
    by (simp add: upt_conv_Cons comp_def distrib_right add.assoc del: upt_Suc flip: map_Suc_upt)
  then show ?case
    using assms(2) unfolding list.map(2) starts_step [OF assms(1)] next' IH by simp
qed simp

section \<open>Properties\<close>

text \<open>
  The chunk size is not the pipe's. Filling a chunk over any well-behaved reader takes exactly
  the front of what the reader has left, in order and without loss; it fills the whole chunk
  unless an error stops it, and at end of file nothing is left behind.
\<close>

theorem fill_chunk_exact:
  assumes "byte_reader ok read pending" "ok r" "fillChunk read r sz = (r', out, e)"
  shows "pending r = out @ pending r' \<and> length out \<le> sz \<and> (e = None \<longrightarrow> length out = sz) \<and>
    (e = Some RdEOF \<longrightarrow> pending r' = [])"
  using byte_reader.fillChunk_spec [OF assms] by blast

theorem fill_chunk_exact_witness:
  "\<exists>r' out e. fillChunk paced_read (paced_reset [] [1, 2, 3] 5) 2 = (r', out, e) \<and> [1, 2, 3] = out @ paced_pending r'"
proof -
  obtain r' out e where fill: "fillChunk paced_read (paced_reset [] [1, 2, 3] 5) 2 = (r', out, e)"
    by (metis prod_cases3)
  from fill_chunk_exact [OF paced.byte_reader_axioms TrueI fill] fill show ?thesis by auto
qed

text \<open>
  The pacing grid. Emission starts are never closer than the cadence, whatever the clock does,
  so an overrun is not repaid as a burst; and while no ledger overruns its slot they lie
  exactly on the grid, so the interval does not drift with the work per ledger.
\<close>

theorem paced_cadence:
  assumes "0 < cadence"
  shows "sorted_wrt (\<lambda>a b. a + cadence \<le> b) (starts (PacedSource env window cadence seq0 items)) \<and>
    ((\<forall>j. \<not> pe_cancel env j) \<longrightarrow> (\<forall>j < length raws. pe_now env j \<le> pe_first env + (int j + 1) * cadence) \<longrightarrow>
       starts (PacedSource env window cadence seq0 (map Raw raws)) =
         map (\<lambda>j. pe_first env + int j * cadence) [0..<length raws])"
  using paced_starts_spaced [OF assms, of env window 0 seq0 None items]
    paced_starts_grid [OF assms, of env raws 0 None window seq0]
  by (simp add: PacedSource_def first_start_def)

theorem paced_cadence_witness:
  "starts (PacedSource \<lparr>pe_first = 100, pe_now = (\<lambda>j. 101 + 10 * int j), pe_cancel = (\<lambda>_. False), pe_waits = (\<lambda>_. [])\<rparr>
      4 10 7 (map Raw [[1], [2], [3]])) = [100, 110, 120]"
  using paced_cadence [of 10 "\<lparr>pe_first = 100, pe_now = (\<lambda>j. 101 + 10 * int j), pe_cancel = (\<lambda>_. False), pe_waits = (\<lambda>_. [])\<rparr>"
      4 7 "[]" "[[1], [2], [3]]"]
  by simp

end
