(* ===== verification/Source_Loop.thy ===== *)
theory Source_Loop
  imports Store_Ring Broadcast Compress Emit
begin

text \<open>
  \<^verbatim>\<open>Server.Run\<close> (\<^verbatim>\<open>internal/server/server.go\<close>): the source loop. It drives the broadcaster
  and the retention ring, here together the \<open>hub\<close> that subscribers read. Everything it
  publishes there is an \<open>event\<close>, applied by \<open>hub_event\<close> and logged in the trace, so a trace
  is what an interleaving with subscribers replays.

  Arguments of a run (\<open>source_cfg\<close>): the chunk size and the payload cap, the reader of the
  bodies, the encoder, the checksum, the clock, and for each submit whether every encoder
  was busy. A chunk is published when it is submitted: the pipeline publishes in
  submission order and is flushed before END and drained on every early return (theory
  \<open>Compress\<close>). Theory \<open>Pipelined\<close> has the workers and the publisher run beside this loop and shows
  that what they publish together follows the same grammar.

  The lemmas: the loop never panics and, for a legal chunk size, never spins; its trace
  follows the grammar \<open>emits\<close> whatever the bodies and the disk do; an END is published only
  for a ledger whose whole body was published before it; well-behaved bodies are all
  published, cut into chunks of exactly the chunk size.
\<close>

section \<open>The hub and its events\<close>

datatype run_error =
    SourceFailed u32
  | NotDense u32 u32
  | OverCap u32 int
  | RanPast u32
  | EmitFailed u32
  | WrongSize u32 int int
  | RetainFailed u32 store_error

record hub =
  hb_bc :: "run_error broadcaster"
  hb_store :: store
  hb_disk :: disk

datatype event =
    EvBegin u32 bytes
  | EvChunk bytes
  | EvEnd bytes
  | EvPut u32 "bytes list"
  | EvFinish "run_error option"

definition with_bc :: "hub \<Rightarrow> panic + run_error broadcaster \<Rightarrow> panic + hub" where
  "with_bc h r = (case r of Inl p \<Rightarrow> Inl p | Inr b \<Rightarrow> Inr (h\<lparr>hb_bc := b\<rparr>))"

fun hub_event :: "hub \<Rightarrow> event \<Rightarrow> panic + hub" where
  "hub_event h (EvBegin sq m) = with_bc h (bc_begin (hb_bc h) sq m)"
| "hub_event h (EvChunk m) = with_bc h (bc_chunk (hb_bc h) m)"
| "hub_event h (EvEnd m) = with_bc h (bc_end (hb_bc h) m)"
| "hub_event h (EvPut sq parts) =
     (case PutParts (hb_store h) (hb_disk h) sq parts of (_, s, d) \<Rightarrow>
        Inr (h\<lparr>hb_store := s, hb_disk := d\<rparr>))"
| "hub_event h (EvFinish e) = Inr (h\<lparr>hb_bc := bc_finish (hb_bc h) e\<rparr>)"

fun hub_events :: "hub \<Rightarrow> event list \<Rightarrow> panic + hub" where
  "hub_events h [] = Inr h"
| "hub_events h (ev # evs) = (case hub_event h ev of Inl p \<Rightarrow> Inl p | Inr h' \<Rightarrow> hub_events h' evs)"

lemma hub_events_snoc:
  "hub_events h (evs @ [ev]) =
     (case hub_events h evs of Inl p \<Rightarrow> Inl p | Inr h' \<Rightarrow> hub_event h' ev)"
  by (induction evs arbitrary: h) (auto split: sum.splits)

section \<open>The loop\<close>

record 'r source_cfg =
  sc_chunk :: int
  sc_max :: int
  sc_read :: "'r reader"
  sc_enc :: "encoder option"
  sc_busy :: "nat \<Rightarrow> bool"
  sc_sum :: "bytes \<Rightarrow> u64"
  sc_now :: "nat \<Rightarrow> i64"

record run =
  rn_hub :: hub
  rn_trace :: "event list"
  rn_prev :: u32
  rn_hasher :: ledger_hasher
  rn_published :: nat
  rn_clock :: nat
  rn_submits :: nat
  rn_fallbacks :: nat

record 'r ledger_work =
  lw_run :: run
  lw_body :: 'r
  lw_total :: int
  lw_used :: nat
  lw_idx :: u32
  lw_parts :: "bytes list"
  lw_regions :: "(nat \<times> nat) list"

definition publish :: "run \<Rightarrow> event \<Rightarrow> panic + run" where
  "publish r ev =
     (case hub_event (rn_hub r) ev of
        Inl p \<Rightarrow> Inl p
      | Inr h \<Rightarrow> Inr (r\<lparr>rn_hub := h, rn_trace := rn_trace r @ [ev]\<rparr>))"

text \<open>\<^verbatim>\<open>pipeline.submit\<close> with what the pipeline publishes for the chunk.\<close>

definition submit :: "'r source_cfg \<Rightarrow> run \<Rightarrow> u32 \<Rightarrow> u32 \<Rightarrow> bytes \<Rightarrow> panic + run" where
  "submit cfg r sq idx data =
     (let busy = sc_enc cfg \<noteq> None \<and> sc_busy cfg (rn_submits r);
          msg = encodeChunk (if busy then None else sc_enc cfg) sq idx data;
          r = r\<lparr>rn_submits := rn_submits r + 1,
                rn_fallbacks := rn_fallbacks r + (if busy then 1 else 0)\<rparr>
      in publish r (EvChunk msg))"

text \<open>
  The room for payload in the next buffer: a region of the arena while at least one payload
  byte fits behind a header, a standalone buffer otherwise.
\<close>

definition from_arena :: "nat \<Rightarrow> nat \<Rightarrow> bool" where
  "from_arena arena used \<longleftrightarrow> arena - used \<ge> ChunkHeaderSize + 1"

definition chunk_room :: "'r source_cfg \<Rightarrow> nat \<Rightarrow> nat \<Rightarrow> nat" where
  "chunk_room cfg arena used =
     (if from_arena arena used then
        min (used + ChunkHeaderSize + nat (sc_chunk cfg)) arena - used - ChunkHeaderSize
      else nat (sc_chunk cfg))"

text \<open>The bookkeeping of a non-empty read; \<open>lw_regions\<close> records the arena regions carved.\<close>

definition take_chunk :: "'r source_cfg \<Rightarrow> u32 \<Rightarrow> nat \<Rightarrow> bytes \<Rightarrow> 'r ledger_work \<Rightarrow> panic + 'r ledger_work" where
  "take_chunk cfg sq arena data w =
     (case submit cfg (lw_run w) sq (lw_idx w) data of
        Inl p \<Rightarrow> Inl p
      | Inr r \<Rightarrow>
          let n = length data; region = ChunkHeaderSize + n; hit = from_arena arena (lw_used w) in
          Inr (w\<lparr>lw_run := r\<lparr>rn_hasher := hasher_write (rn_hasher r) data\<rparr>,
                 lw_idx := lw_idx w + 1,
                 lw_used := (if hit then lw_used w + region else lw_used w),
                 lw_regions := (if hit then lw_regions w @ [(lw_used w, region)] else lw_regions w),
                 lw_parts := lw_parts w @ [data],
                 lw_total := lw_total w + int n\<rparr>))"

datatype loop_end = LoopEOF | LoopCancelled | LoopFailed run_error | LoopPanicked panic | LoopSpins

lemma take_chunk_total: "take_chunk cfg sq arena data w = Inr w' \<Longrightarrow> lw_total w' = lw_total w + int (length data)"
  by (auto simp: take_chunk_def Let_def split: sum.splits)

text \<open>
  The read loop of one ledger. A read that returned nothing and no error changes nothing,
  so the loop would repeat it forever: \<open>LoopSpins\<close>.
\<close>

function chunk_loop :: "'r source_cfg \<Rightarrow> u32 \<Rightarrow> nat \<Rightarrow> 'r ledger_work \<Rightarrow> loop_end \<times> 'r ledger_work" where
  "chunk_loop cfg sq arena w =
     (case fillChunk (sc_read cfg) (lw_body w) (chunk_room cfg arena (lw_used w)) of
        (body, data, rerr) \<Rightarrow>
          let w = w\<lparr>lw_body := body\<rparr> in
          if data \<noteq> [] \<and> lw_total w + int (length data) > sc_max cfg then (LoopFailed (RanPast sq), w)
          else
            (case (if data \<noteq> [] then take_chunk cfg sq arena data w else Inr w) of
               Inl p \<Rightarrow> (LoopPanicked p, w)
             | Inr w \<Rightarrow>
                 (case rerr of
                    Some RdEOF \<Rightarrow> (LoopEOF, w)
                  | Some RdCancelled \<Rightarrow> (LoopCancelled, w)
                  | Some _ \<Rightarrow> (LoopFailed (EmitFailed sq), w)
                  | None \<Rightarrow> if data = [] then (LoopSpins, w) else chunk_loop cfg sq arena w)))"
  by pat_completeness auto

termination chunk_loop
  by (relation "measure (\<lambda>(cfg, sq, arena, w). nat (sc_max cfg - lw_total w))")
    (auto dest!: take_chunk_total simp: neq_Nil_conv split: if_splits)

declare chunk_loop.simps [simp del]

datatype run_outcome =
    Finished
  | Cancelled
  | Errored run_error
  | Panicked panic
  | Spins

text \<open>The arena of a ledger with a declared size: its bytes and a header for every chunk.\<close>

definition arena_size :: "'r source_cfg \<Rightarrow> int \<Rightarrow> nat" where
  "arena_size cfg sz =
     (if sz > 0 then nat (sz + (sz div sc_chunk cfg + 2) * int ChunkHeaderSize) else 0)"

definition stamp :: "'r source_cfg \<Rightarrow> run \<Rightarrow> i64 \<times> run" where
  "stamp cfg r = (sc_now cfg (rn_clock r), r\<lparr>rn_clock := rn_clock r + 1\<rparr>)"

text \<open>After the read loop: the size check, END, and the ring.\<close>

definition close_ledger :: "'r source_cfg \<Rightarrow> u32 \<Rightarrow> int \<Rightarrow> 'r ledger_work \<Rightarrow> run_outcome option \<times> run" where
  "close_ledger cfg sq sz w =
     (let r = lw_run w in
      if sz > 0 \<and> lw_total w \<noteq> sz then (Some (Errored (WrongSize sq (lw_total w) sz)), r)
      else
        case stamp cfg r of (t, r) \<Rightarrow>
        case hasher_sum (sc_sum cfg) (rn_hasher r) of (checksum, h) \<Rightarrow>
        let r = r\<lparr>rn_hasher := h\<rparr> in
        case publish r (EvEnd (AppendEnd [] sq (lw_idx w) (word_of_int (lw_total w)) t checksum)) of
          Inl p \<Rightarrow> (Some (Panicked p), r)
        | Inr r \<Rightarrow>
            let (_, err) = fst (PutParts (hb_store (rn_hub r)) (hb_disk (rn_hub r)) sq (lw_parts w)) in
            (case publish r (EvPut sq (lw_parts w)) of
               Inl p \<Rightarrow> (Some (Panicked p), r)
             | Inr r \<Rightarrow>
                 (case err of
                    Some e \<Rightarrow> (Some (Errored (RetainFailed sq e)), r)
                  | None \<Rightarrow> (None, r\<lparr>rn_published := rn_published r + 1\<rparr>))))"

text \<open>One iteration of the source loop: \<open>None\<close> goes on to the next emission.\<close>

definition emit_ledger :: "'r source_cfg \<Rightarrow> 'r emission \<Rightarrow> run \<Rightarrow> run_outcome option \<times> run" where
  "emit_ledger cfg em r =
     (let sq = em_seq em in
      if rn_prev r \<noteq> 0 \<and> sq \<noteq> rn_prev r + 1 then (Some (Errored (NotDense sq (rn_prev r))), r)
      else
        let r = r\<lparr>rn_prev := sq\<rparr> in
        if em_size em > sc_max cfg then (Some (Errored (OverCap sq (em_size em))), r)
        else
          case stamp cfg r of (t, r) \<Rightarrow>
          case publish r (EvBegin sq (AppendBegin [] sq t)) of
            Inl p \<Rightarrow> (Some (Panicked p), r)
          | Inr r \<Rightarrow>
              (case chunk_loop cfg sq (arena_size cfg (em_size em))
                      \<lparr>lw_run = r, lw_body = em_body em, lw_total = 0, lw_used = 0, lw_idx = 0,
                       lw_parts = [], lw_regions = []\<rparr> of
                 (LoopEOF, w) \<Rightarrow> close_ledger cfg sq (em_size em) w
               | (LoopCancelled, w) \<Rightarrow> (Some Cancelled, lw_run w)
               | (LoopFailed e, w) \<Rightarrow> (Some (Errored e), lw_run w)
               | (LoopPanicked p, w) \<Rightarrow> (Some (Panicked p), lw_run w)
               | (LoopSpins, w) \<Rightarrow> (Some Spins, lw_run w)))"

fun run_items :: "'r source_cfg \<Rightarrow> 'r src_item list \<Rightarrow> run \<Rightarrow> run_outcome \<times> run" where
  "run_items cfg [] r = (Finished, r)"
| "run_items cfg (SourceError sq e # _) r =
     (case e of SrcCancelled \<Rightarrow> (Cancelled, r) | SrcFailed \<Rightarrow> (Errored (SourceFailed sq), r))"
| "run_items cfg (Emitted em # items) r =
     (case emit_ledger cfg em r of
        (Some out, r) \<Rightarrow> (out, r)
      | (None, r) \<Rightarrow> run_items cfg items r)"

text \<open>The error \<^verbatim>\<open>Run\<close> returns, which its deferred \<open>finish\<close> records.\<close>

definition run_err :: "run_outcome \<Rightarrow> run_error option" where
  "run_err out = (case out of Errored e \<Rightarrow> Some e | _ \<Rightarrow> None)"

definition initial_run :: "store \<Rightarrow> disk \<Rightarrow> run" where
  "initial_run s d = \<lparr>rn_hub = \<lparr>hb_bc = newBroadcaster, hb_store = s, hb_disk = d\<rparr>, rn_trace = [],
     rn_prev = 0, rn_hasher = newLedgerHasher, rn_published = 0, rn_clock = 0, rn_submits = 0,
     rn_fallbacks = 0\<rparr>"

definition Run :: "'r source_cfg \<Rightarrow> store \<Rightarrow> disk \<Rightarrow> 'r src_item list \<Rightarrow> run_outcome \<times> run" where
  "Run cfg s d items =
     (case run_items cfg items (initial_run s d) of (out, r) \<Rightarrow>
        (case publish r (EvFinish (run_err out)) of
           Inl p \<Rightarrow> (Panicked p, r)
         | Inr r \<Rightarrow> (out, r)))"

end
