(* ===== verification/Grammar.thy ===== *)
theory Grammar
  imports Source_Loop
begin

text \<open>
  What a source publishes, as a grammar over events, and what replaying it leaves in the
  broadcaster. \<open>emits\<close> is the abstract specification of \<^verbatim>\<open>Server.Run\<close>: BEGIN, the chunks of
  the ledger in order, END with their count, length and checksum, and then the ring's put,
  ledger after ledger under consecutive sequences, until the stream finishes. \<open>L\<close> names the
  bytes of each ledger. The lemmas show that the source loop only publishes what the grammar
  allows, for bodies that may fail at any point and a disk that may fail at any call, and
  that replaying such a trace never panics the broadcaster.
\<close>

section \<open>The grammar\<close>

datatype phase =
    Idle u32
  | InFlow u32 "bytes list"
  | Ended u32 "bytes list"
  | Halted
  | Done

inductive emits :: "'r source_cfg \<Rightarrow> (u32 \<Rightarrow> bytes) \<Rightarrow> phase \<Rightarrow> event \<Rightarrow> phase \<Rightarrow> bool"
  for cfg :: "'r source_cfg" and L where
  g_begin: "prev = 0 \<or> sq = prev + 1 \<Longrightarrow>
    emits cfg L (Idle prev) (EvBegin sq (AppendBegin [] sq t)) (InFlow sq [])"
| g_chunk: "p \<noteq> [] \<Longrightarrow> length p \<le> nat (sc_chunk cfg) \<Longrightarrow> prefix (concat parts @ p) (L sq) \<Longrightarrow>
    int (length (concat parts @ p)) \<le> sc_max cfg \<Longrightarrow>
    frames (sc_enc cfg) sq (word_of_nat (length parts)) p m \<Longrightarrow>
    emits cfg L (InFlow sq parts) (EvChunk m) (InFlow sq (parts @ [p]))"
| g_end: "concat parts = L sq \<Longrightarrow>
    emits cfg L (InFlow sq parts)
      (EvEnd (AppendEnd [] sq (word_of_nat (length parts)) (word_of_nat (length (L sq))) t (sc_sum cfg (L sq))))
      (Ended sq parts)"
| g_put: "sq \<noteq> 0 \<Longrightarrow> emits cfg L (Ended sq parts) (EvPut sq parts) (Idle sq)"
| g_put_failed: "emits cfg L (Ended sq parts) (EvPut sq parts) Halted"
| g_finish: "ph \<noteq> Done \<Longrightarrow> emits cfg L ph (EvFinish e) Done"

inductive_cases emits_idleE: "emits cfg L (Idle prev) ev ph'"
inductive_cases emits_flowE: "emits cfg L (InFlow sq parts) ev ph'"
inductive_cases emitsE: "emits cfg L ph ev ph'"

text \<open>The traces of the grammar from the start of a run.\<close>

inductive source_trace :: "'r source_cfg \<Rightarrow> (u32 \<Rightarrow> bytes) \<Rightarrow> event list \<Rightarrow> phase \<Rightarrow> bool"
  for cfg :: "'r source_cfg" and L where
  trace_nil: "source_trace cfg L [] (Idle 0)"
| trace_snoc: "source_trace cfg L evs ph \<Longrightarrow> emits cfg L ph ev ph' \<Longrightarrow> source_trace cfg L (evs @ [ev]) ph'"

section \<open>The broadcaster under the grammar\<close>

definition framed :: "'r source_cfg \<Rightarrow> u32 \<Rightarrow> bytes list \<Rightarrow> bytes list \<Rightarrow> bool" where
  "framed cfg sq parts msgs \<longleftrightarrow> length msgs = length parts \<and>
     (\<forall>i < length parts. frames (sc_enc cfg) sq (word_of_nat i) (parts ! i) (msgs ! i)) \<and>
     (\<forall>p \<in> set parts. p \<noteq> [] \<and> length p \<le> nat (sc_chunk cfg))"

definition flow_of :: "'r source_cfg \<Rightarrow> (u32 \<Rightarrow> bytes) \<Rightarrow> flow \<Rightarrow> bytes list \<Rightarrow> bool" where
  "flow_of cfg L f parts \<longleftrightarrow>
     (\<exists>t. fl_begin f = AppendBegin [] (fl_seq f) t) \<and>
     framed cfg (fl_seq f) parts (fl_chunks f) \<and> prefix (concat parts) (L (fl_seq f)) \<and>
     (fl_end f = None \<or> concat parts = L (fl_seq f) \<and>
        (\<exists>t. fl_end f = Some (AppendEnd [] (fl_seq f) (word_of_nat (length parts))
               (word_of_nat (length (L (fl_seq f)))) t (sc_sum cfg (L (fl_seq f))))))"

definition flow_ok :: "'r source_cfg \<Rightarrow> (u32 \<Rightarrow> bytes) \<Rightarrow> flow \<Rightarrow> bool" where
  "flow_ok cfg L f \<longleftrightarrow> (\<exists>parts. flow_of cfg L f parts)"

definition phase_at :: "'r source_cfg \<Rightarrow> (u32 \<Rightarrow> bytes) \<Rightarrow> phase \<Rightarrow> run_error broadcaster \<Rightarrow> bool" where
  "phase_at cfg L ph b \<longleftrightarrow>
     (case ph of
        Idle prev \<Rightarrow> \<not> ended b \<and>
          (if flows b = [] then prev = 0 else prev \<noteq> 0 \<and> fl_seq (last (flows b)) = prev \<and> fl_end (last (flows b)) \<noteq> None)
      | InFlow sq parts \<Rightarrow> \<not> ended b \<and> flows b \<noteq> [] \<and> fl_seq (last (flows b)) = sq \<and>
          fl_end (last (flows b)) = None \<and> flow_of cfg L (last (flows b)) parts
      | Ended sq parts \<Rightarrow> \<not> ended b \<and> flows b \<noteq> [] \<and> fl_seq (last (flows b)) = sq \<and>
          fl_end (last (flows b)) \<noteq> None \<and> flow_of cfg L (last (flows b)) parts
      | Halted \<Rightarrow> \<not> ended b \<and> flows b \<noteq> [] \<and> fl_end (last (flows b)) \<noteq> None
      | Done \<Rightarrow> ended b)"

definition dense_flows :: "flow list \<Rightarrow> bool" where
  "dense_flows fs \<longleftrightarrow> (\<forall>i. Suc i < length fs \<longrightarrow> fl_seq (fs ! i) \<noteq> 0 \<and> fl_seq (fs ! Suc i) = fl_seq (fs ! i) + 1)"

definition bc_at :: "'r source_cfg \<Rightarrow> (u32 \<Rightarrow> bytes) \<Rightarrow> phase \<Rightarrow> run_error broadcaster \<Rightarrow> bool" where
  "bc_at cfg L ph b \<longleftrightarrow> bc_inv b \<and> dense_flows (flows b) \<and> (\<forall>f \<in> set (flows b). flow_ok cfg L f) \<and>
     phase_at cfg L ph b"

lemma bc_at_new [simp]: "bc_at cfg L (Idle 0) newBroadcaster"
  by (simp add: bc_at_def phase_at_def dense_flows_def) (simp add: newBroadcaster_def)

lemma dense_flows_snoc:
  "dense_flows (fs @ [f]) \<longleftrightarrow> dense_flows fs \<and>
     (fs \<noteq> [] \<longrightarrow> fl_seq (last fs) \<noteq> 0 \<and> fl_seq f = fl_seq (last fs) + 1)"
proof (cases fs rule: rev_cases)
  case (snoc gs g)
  then show ?thesis
    by (auto simp: dense_flows_def nth_append less_Suc_eq all_conj_distrib)
qed (simp add: dense_flows_def)

lemma dense_flows_last:
  "fs \<noteq> [] \<Longrightarrow> fl_seq f = fl_seq (last fs) \<Longrightarrow> dense_flows (butlast fs @ [f]) \<longleftrightarrow> dense_flows fs"
  using dense_flows_snoc [of "butlast fs" "last fs"] by (simp add: dense_flows_snoc)

lemma framed_snoc:
  "framed cfg sq parts msgs \<Longrightarrow> p \<noteq> [] \<Longrightarrow> length p \<le> nat (sc_chunk cfg) \<Longrightarrow>
   frames (sc_enc cfg) sq (word_of_nat (length parts)) p m \<Longrightarrow> framed cfg sq (parts @ [p]) (msgs @ [m])"
  by (auto simp: framed_def nth_append less_Suc_eq)

lemma bc_finish_frame [simp]: "flows (bc_finish b e) = flows b" "ended (bc_finish b e)"
  by (simp_all add: bc_finish_def)

lemma hub_put: "\<exists>s d. hub_event h (EvPut sq parts) = Inr (h\<lparr>hb_store := s, hb_disk := d\<rparr>)"
  by (auto split: prod.splits)

text \<open>The grammar's next event is never a panic, and leaves the broadcaster in its phase.\<close>

lemma emits_hub:
  assumes "emits cfg L ph ev ph'" "bc_at cfg L ph (hb_bc h)"
  shows "\<exists>h'. hub_event h ev = Inr h' \<and> bc_at cfg L ph' (hb_bc h')"
  using assms
proof (induction rule: emits.induct)
  case (g_begin prev sq t)
  let ?b = "hb_bc h"
  let ?f = "\<lparr>fl_seq = sq, fl_begin = AppendBegin [] sq t, fl_chunks = [], fl_end = None\<rparr>"
  let ?b' = "?b\<lparr>flows := flows ?b @ [?f], cur := Some (length (flows ?b)), notify := notify ?b + 1\<rparr>"
  from g_begin have inv: "bc_inv ?b" and "bc_begin ?b sq (AppendBegin [] sq t) = Inr ?b'"
    by (auto simp: bc_at_def phase_at_def bc_begin_Inr split: if_splits)
  with bc_begin_inv [OF inv] g_begin show ?case
    by (auto simp: with_bc_def bc_at_def phase_at_def dense_flows_snoc flow_ok_def flow_of_def framed_def
        split: if_splits)
next
  case (g_chunk p parts sq m)
  let ?b = "hb_bc h"
  let ?f = "(last (flows ?b))\<lparr>fl_chunks := fl_chunks (last (flows ?b)) @ [m]\<rparr>"
  let ?b' = "?b\<lparr>flows := butlast (flows ?b) @ [?f], notify := notify ?b + 1\<rparr>"
  from g_chunk have inv: "bc_inv ?b" and step: "bc_chunk ?b m = Inr ?b'"
    by (auto simp: bc_at_def phase_at_def bc_chunk_Inr)
  from g_chunk have "flow_of cfg L ?f (parts @ [p])"
    by (auto simp: bc_at_def phase_at_def flow_of_def intro!: framed_snoc)
  with bc_chunk_inv [OF inv step] step g_chunk show ?case
    by (auto simp: with_bc_def bc_at_def phase_at_def dense_flows_last flow_ok_def dest: in_set_butlastD)
next
  case (g_end parts sq t)
  let ?m = "AppendEnd [] sq (word_of_nat (length parts)) (word_of_nat (length (L sq))) t (sc_sum cfg (L sq))"
  let ?b = "hb_bc h"
  let ?f = "(last (flows ?b))\<lparr>fl_end := Some ?m\<rparr>"
  let ?b' = "?b\<lparr>flows := butlast (flows ?b) @ [?f], notify := notify ?b + 1\<rparr>"
  from g_end have inv: "bc_inv ?b" and step: "bc_end ?b ?m = Inr ?b'"
    by (auto simp: bc_at_def phase_at_def bc_end_Inr)
  from g_end have "flow_of cfg L ?f parts"
    by (auto simp: bc_at_def phase_at_def flow_of_def)
  with bc_end_inv [OF inv step] step g_end show ?case
    by (auto simp: with_bc_def bc_at_def phase_at_def dense_flows_last flow_ok_def dest: in_set_butlastD)
next
  case (g_finish ph e)
  then show ?case
    by (auto simp: bc_at_def phase_at_def bc_finish_inv)
next
  case (g_put sq parts)
  obtain s d where "hub_event h (EvPut sq parts) = Inr (h\<lparr>hb_store := s, hb_disk := d\<rparr>)"
    using hub_put by blast
  with g_put show ?case by (auto simp: bc_at_def phase_at_def simp del: hub_event.simps)
next
  case (g_put_failed sq parts)
  obtain s d where "hub_event h (EvPut sq parts) = Inr (h\<lparr>hb_store := s, hb_disk := d\<rparr>)"
    using hub_put by blast
  with g_put_failed show ?case by (auto simp: bc_at_def phase_at_def simp del: hub_event.simps)
qed

section \<open>The source loop follows the grammar\<close>

text \<open>A run that has published an accepted trace and left the hub where replaying it would.\<close>

definition run_at :: "'r source_cfg \<Rightarrow> (u32 \<Rightarrow> bytes) \<Rightarrow> hub \<Rightarrow> phase \<Rightarrow> run \<Rightarrow> bool" where
  "run_at cfg L h0 ph r \<longleftrightarrow> source_trace cfg L (rn_trace r) ph \<and> bc_at cfg L ph (hb_bc (rn_hub r)) \<and>
     hub_events h0 (rn_trace r) = Inr (rn_hub r)"

lemma run_at_frame [simp]:
  "run_at cfg L h0 ph (r\<lparr>rn_prev := x\<rparr>) = run_at cfg L h0 ph r"
  "run_at cfg L h0 ph (r\<lparr>rn_hasher := hs\<rparr>) = run_at cfg L h0 ph r"
  "run_at cfg L h0 ph (r\<lparr>rn_published := n\<rparr>) = run_at cfg L h0 ph r"
  "run_at cfg L h0 ph (r\<lparr>rn_clock := n\<rparr>) = run_at cfg L h0 ph r"
  "run_at cfg L h0 ph (r\<lparr>rn_submits := n\<rparr>) = run_at cfg L h0 ph r"
  "run_at cfg L h0 ph (r\<lparr>rn_fallbacks := n\<rparr>) = run_at cfg L h0 ph r"
  by (simp_all add: run_at_def)

lemma publish_emits:
  assumes "run_at cfg L h0 ph r" "emits cfg L ph ev ph'"
  shows "\<exists>h. publish r ev = Inr (r\<lparr>rn_hub := h, rn_trace := rn_trace r @ [ev]\<rparr>) \<and>
    run_at cfg L h0 ph' (r\<lparr>rn_hub := h, rn_trace := rn_trace r @ [ev]\<rparr>)"
  using emits_hub [OF assms(2), of "rn_hub r"] assms
  by (auto simp: run_at_def publish_def hub_events_snoc intro: trace_snoc)

text \<open>The arena regions carved so far tile its first \<open>used\<close> bytes, in order.\<close>

fun tiles :: "nat \<Rightarrow> (nat \<times> nat) list \<Rightarrow> nat \<Rightarrow> bool" where
  "tiles a [] b \<longleftrightarrow> a = b"
| "tiles a ((off, len) # rs) b \<longleftrightarrow> off = a \<and> 0 < len \<and> tiles (a + len) rs b"

lemma tiles_snoc: "tiles a rs b \<Longrightarrow> 0 < len \<Longrightarrow> tiles a (rs @ [(b, len)]) (b + len)"
  by (induction a rs b rule: tiles.induct) auto


text \<open>The state of the read loop: what the ledger's bookkeeping says of what was published.\<close>

definition work_at :: "'r source_cfg \<Rightarrow> (u32 \<Rightarrow> bytes) \<Rightarrow> hub \<Rightarrow> u32 \<Rightarrow> nat \<Rightarrow> 'r ledger_work \<Rightarrow> bool" where
  "work_at cfg L h0 sq arena w \<longleftrightarrow>
     run_at cfg L h0 (InFlow sq (lw_parts w)) (lw_run w) \<and>
     lw_total w = int (length (concat (lw_parts w))) \<and>
     lw_idx w = word_of_nat (length (lw_parts w)) \<and>
     hasher_holds (rn_hasher (lw_run w)) (lw_parts w) \<and> rn_prev (lw_run w) = sq \<and>
     tiles 0 (lw_regions w) (lw_used w) \<and> lw_used w \<le> arena"

lemma chunk_room_bounds:
  "0 < sc_chunk cfg \<Longrightarrow> 0 < chunk_room cfg arena used \<and> chunk_room cfg arena used \<le> nat (sc_chunk cfg)"
  by (auto simp: chunk_room_def from_arena_def)

lemma chunk_room_arena:
  "from_arena arena used \<Longrightarrow> n \<le> chunk_room cfg arena used \<Longrightarrow> used + (ChunkHeaderSize + n) \<le> arena"
  by (auto simp: chunk_room_def from_arena_def)

lemma encodeChunk_busy: "frames e sq idx data (encodeChunk (if busy then None else e) sq idx data)"
  using encodeChunk_frames [of e sq idx data] by (simp add: encodeChunk_def [of None])

lemma take_chunk_at:
  assumes w: "work_at cfg L h0 sq arena w" and data: "data \<noteq> []" "length data \<le> chunk_room cfg arena (lw_used w)"
    and chunk: "0 < sc_chunk cfg"
    and fits: "prefix (concat (lw_parts w) @ data) (L sq)" "lw_total w + int (length data) \<le> sc_max cfg"
  shows "\<exists>w'. take_chunk cfg sq arena data w = Inr w' \<and> work_at cfg L h0 sq arena w' \<and>
    lw_body w' = lw_body w \<and> lw_parts w' = lw_parts w @ [data]"
proof -
  let ?busy = "sc_enc cfg \<noteq> None \<and> sc_busy cfg (rn_submits (lw_run w))"
  let ?msg = "encodeChunk (if ?busy then None else sc_enc cfg) sq (lw_idx w) data"
  let ?r = "(lw_run w)\<lparr>rn_submits := rn_submits (lw_run w) + 1,
      rn_fallbacks := rn_fallbacks (lw_run w) + (if ?busy then 1 else 0)\<rparr>"
  have run: "run_at cfg L h0 (InFlow sq (lw_parts w)) ?r"
    using w by (simp add: work_at_def)
  have len: "length data \<le> nat (sc_chunk cfg)"
    using data(2) chunk_room_bounds [OF chunk, of arena "lw_used w"] by linarith
  have "emits cfg L (InFlow sq (lw_parts w)) (EvChunk ?msg) (InFlow sq (lw_parts w @ [data]))"
    using w data(1) len fits encodeChunk_busy by (intro g_chunk) (auto simp: work_at_def)
  from publish_emits [OF run this] obtain h where
    pub: "publish ?r (EvChunk ?msg) = Inr (?r\<lparr>rn_hub := h, rn_trace := rn_trace ?r @ [EvChunk ?msg]\<rparr>)"
    and run': "run_at cfg L h0 (InFlow sq (lw_parts w @ [data])) (?r\<lparr>rn_hub := h, rn_trace := rn_trace ?r @ [EvChunk ?msg]\<rparr>)"
    by blast
  from pub have "submit cfg (lw_run w) sq (lw_idx w) data
      = Inr (?r\<lparr>rn_hub := h, rn_trace := rn_trace ?r @ [EvChunk ?msg]\<rparr>)"
    by (simp add: submit_def Let_def)
  with run' w show ?thesis
    using chunk_room_arena [OF _ data(2)] hasher_write_holds [of "rn_hasher (lw_run w)" "lw_parts w" data]
      tiles_snoc [of 0 "lw_regions w" "lw_used w" "ChunkHeaderSize + length data"]
    by (auto simp: take_chunk_def Let_def work_at_def)
qed

text \<open>The state of the source loop between two ledgers, and of a run that is over.\<close>

definition run_ready :: "'r source_cfg \<Rightarrow> (u32 \<Rightarrow> bytes) \<Rightarrow> hub \<Rightarrow> run \<Rightarrow> bool" where
  "run_ready cfg L h0 r \<longleftrightarrow> run_at cfg L h0 (Idle (rn_prev r)) r \<and> hasher_holds (rn_hasher r) []"

definition run_over :: "'r source_cfg \<Rightarrow> (u32 \<Rightarrow> bytes) \<Rightarrow> hub \<Rightarrow> run_outcome \<Rightarrow> run \<Rightarrow> bool" where
  "run_over cfg L h0 out r \<longleftrightarrow> (\<exists>ph. ph \<noteq> Done \<and> run_at cfg L h0 ph r) \<and>
     (\<forall>p. out \<noteq> Panicked p) \<and> out \<noteq> Spins"

lemma PutParts_zero: "fst (fst (PutParts s d 0 parts)) = False" "snd (fst (PutParts s d 0 parts)) \<noteq> None"
  by (simp_all add: PutParts_def put_def)

lemma close_ledger_at:
  assumes w: "work_at cfg L h0 sq arena w" and full: "concat (lw_parts w) = L sq"
    and close: "close_ledger cfg sq sz w = (out, r)"
  shows "case out of None \<Rightarrow> run_ready cfg L h0 r \<and> rn_prev r = sq | Some o' \<Rightarrow> run_over cfg L h0 o' r"
proof (cases "sz > 0 \<and> lw_total w \<noteq> sz")
  case True
  with w close show ?thesis
    by (auto simp: close_ledger_def run_over_def work_at_def Let_def)
next
  case False
  let ?r0 = "lw_run w"
  obtain h' where sum: "hasher_sum (sc_sum cfg) (rn_hasher ?r0) = (sc_sum cfg (L sq), h')" "hasher_holds h' []"
    using hasher_sum_holds [of "rn_hasher ?r0" "lw_parts w" "sc_sum cfg"] w full by (auto simp: work_at_def)
  let ?r1 = "?r0\<lparr>rn_clock := rn_clock ?r0 + 1, rn_hasher := h'\<rparr>"
  let ?fin = "AppendEnd [] sq (lw_idx w) (word_of_int (lw_total w)) (sc_now cfg (rn_clock ?r0)) (sc_sum cfg (L sq))"
  have "run_at cfg L h0 (InFlow sq (lw_parts w)) ?r1"
    using w by (simp add: work_at_def)
  moreover have "emits cfg L (InFlow sq (lw_parts w)) (EvEnd ?fin) (Ended sq (lw_parts w))"
    using g_end [of "lw_parts w" L sq cfg "sc_now cfg (rn_clock ?r0)"] w full by (simp add: work_at_def)
  ultimately obtain h2 where pub: "publish ?r1 (EvEnd ?fin) = Inr (?r1\<lparr>rn_hub := h2, rn_trace := rn_trace ?r1 @ [EvEnd ?fin]\<rparr>)"
    and r2: "run_at cfg L h0 (Ended sq (lw_parts w)) (?r1\<lparr>rn_hub := h2, rn_trace := rn_trace ?r1 @ [EvEnd ?fin]\<rparr>)"
    using publish_emits by blast
  let ?r2 = "?r1\<lparr>rn_hub := h2, rn_trace := rn_trace ?r1 @ [EvEnd ?fin]\<rparr>"
  obtain rst err s2 d2 where put: "PutParts (hb_store h2) (hb_disk h2) sq (lw_parts w) = ((rst, err), s2, d2)"
    by (metis prod_cases3 surj_pair)
  let ?ph = "if err = None then Idle sq else Halted"
  have "err = None \<Longrightarrow> sq \<noteq> 0"
    using put PutParts_zero(2) [of "hb_store h2" "hb_disk h2" "lw_parts w"] by auto
  then have "emits cfg L (Ended sq (lw_parts w)) (EvPut sq (lw_parts w)) ?ph"
    by (simp add: g_put g_put_failed)
  from publish_emits [OF r2 this] obtain h3 where
    pub2: "publish ?r2 (EvPut sq (lw_parts w)) = Inr (?r2\<lparr>rn_hub := h3, rn_trace := rn_trace ?r2 @ [EvPut sq (lw_parts w)]\<rparr>)"
    and r3: "run_at cfg L h0 ?ph (?r2\<lparr>rn_hub := h3, rn_trace := rn_trace ?r2 @ [EvPut sq (lw_parts w)]\<rparr>)"
    by blast
  from False close sum(1) pub pub2 put have "(out, r) = (case err of
      Some e \<Rightarrow> (Some (Errored (RetainFailed sq e)), ?r2\<lparr>rn_hub := h3, rn_trace := rn_trace ?r2 @ [EvPut sq (lw_parts w)]\<rparr>)
    | None \<Rightarrow> (None, ?r2\<lparr>rn_hub := h3, rn_trace := rn_trace ?r2 @ [EvPut sq (lw_parts w)], rn_published := rn_published ?r2 + 1\<rparr>))"
    by (auto simp: close_ledger_def stamp_def Let_def split: option.splits)
  with r3 w sum(2) show ?thesis
    by (auto simp: run_ready_def run_over_def work_at_def split: option.splits if_splits)
qed

context byte_reader
begin

text \<open>
  The read loop keeps its bookkeeping true and never panics or spins; it reaches the end of
  a ledger only with the whole body published.
\<close>

lemma chunk_loop_at:
  "work_at cfg L h0 sq arena w \<Longrightarrow> sc_read cfg = read \<Longrightarrow> 0 < sc_chunk cfg \<Longrightarrow> ok (lw_body w) \<Longrightarrow>
   L sq = concat (lw_parts w) @ pending (lw_body w) \<Longrightarrow> chunk_loop cfg sq arena w = (out, w') \<Longrightarrow>
     work_at cfg L h0 sq arena w' \<and> (\<forall>p. out \<noteq> LoopPanicked p) \<and> out \<noteq> LoopSpins \<and>
     (out = LoopEOF \<longrightarrow> concat (lw_parts w') = L sq)"
proof (induction "nat (sc_max cfg - lw_total w)" arbitrary: w rule: less_induct)
  case less
  obtain body data rerr where fill: "fillChunk read (lw_body w) (chunk_room cfg arena (lw_used w)) = (body, data, rerr)"
    by (metis prod_cases3)
  note fs = fillChunk_spec [OF less.prems(4) fill]
  note room = chunk_room_bounds [OF less.prems(3), of arena "lw_used w"]
  let ?w = "w\<lparr>lw_body := body\<rparr>"
  have w: "work_at cfg L h0 sq arena ?w"
    using less.prems(1) by (simp add: work_at_def)
  note unfold = chunk_loop.simps [of cfg sq arena w] less.prems(2) fill Let_def
  show ?case
  proof (cases "data = []")
    case True
    with fs room obtain e where "rerr = Some e" by (cases rerr) auto
    with True less.prems(6) w fs less.prems(5) show ?thesis
      by (cases e) (auto simp: unfold)
  next
    case False
    show ?thesis
    proof (cases "lw_total w + int (length data) > sc_max cfg")
      case True
      with False less.prems(6) w show ?thesis by (auto simp: unfold)
    next
      case fits: False
      have "prefix (concat (lw_parts ?w) @ data) (L sq)"
        using less.prems(5) fs by simp
      with take_chunk_at [OF w False _ less.prems(3)] fs fits obtain w1 where
        w1: "take_chunk cfg sq arena data ?w = Inr w1" "work_at cfg L h0 sq arena w1"
          "lw_body w1 = body" "lw_parts w1 = lw_parts w @ [data]"
        by auto
      show ?thesis
      proof (cases rerr)
        case (Some e)
        with False fits w1 fs less.prems(5,6) show ?thesis
          by (cases e) (auto simp: unfold)
      next
        case None
        with False fits w1(1) less.prems(6) have rec: "chunk_loop cfg sq arena w1 = (out, w')"
          by (auto simp: unfold)
        have "lw_total w1 = lw_total w + int (length data)"
          using take_chunk_total [OF w1(1)] by simp
        with False fits have "nat (sc_max cfg - lw_total w1) < nat (sc_max cfg - lw_total w)"
          by (cases data) auto
        from less.hyps [OF this w1(2) less.prems(2,3) _ _ rec] w1(3,4) fs less.prems(5) show ?thesis
          by simp
      qed
    qed
  qed
qed

lemma emit_ledger_at:
  assumes r: "run_ready cfg L h0 r" and cfg: "sc_read cfg = read" "0 < sc_chunk cfg"
    and body: "ok (em_body em)" "L (em_seq em) = pending (em_body em)"
    and emit: "emit_ledger cfg em r = (out, r')"
  shows "case out of None \<Rightarrow> run_ready cfg L h0 r' \<and> rn_prev r' = em_seq em | Some o' \<Rightarrow> run_over cfg L h0 o' r'"
proof (cases "(rn_prev r \<noteq> 0 \<and> em_seq em \<noteq> rn_prev r + 1) \<or> em_size em > sc_max cfg")
  case True
  with r emit show ?thesis
    by (auto simp: emit_ledger_def Let_def run_over_def run_ready_def split: if_splits)
next
  case False
  let ?sq = "em_seq em"
  let ?opening = "EvBegin ?sq (AppendBegin [] ?sq (sc_now cfg (rn_clock r)))"
  let ?r1 = "r\<lparr>rn_prev := ?sq, rn_clock := rn_clock r + 1\<rparr>"
  have "run_at cfg L h0 (Idle (rn_prev r)) ?r1"
    using r by (simp add: run_ready_def)
  moreover have "emits cfg L (Idle (rn_prev r)) ?opening (InFlow ?sq [])"
    using False by (intro g_begin) auto
  ultimately obtain h where pub: "publish ?r1 ?opening = Inr (?r1\<lparr>rn_hub := h, rn_trace := rn_trace ?r1 @ [?opening]\<rparr>)"
    and r2: "run_at cfg L h0 (InFlow ?sq []) (?r1\<lparr>rn_hub := h, rn_trace := rn_trace ?r1 @ [?opening]\<rparr>)"
    using publish_emits by blast
  let ?w = "\<lparr>lw_run = ?r1\<lparr>rn_hub := h, rn_trace := rn_trace ?r1 @ [?opening]\<rparr>, lw_body = em_body em,
      lw_total = 0, lw_used = 0, lw_idx = 0, lw_parts = [], lw_regions = []\<rparr>"
  obtain lend w where loop: "chunk_loop cfg ?sq (arena_size cfg (em_size em)) ?w = (lend, w)"
    by fastforce
  have "work_at cfg L h0 ?sq (arena_size cfg (em_size em)) ?w"
    using r r2 by (simp add: work_at_def run_ready_def)
  from chunk_loop_at [OF this cfg _ _ loop] body
  have w: "work_at cfg L h0 ?sq (arena_size cfg (em_size em)) w"
    and lend: "\<forall>p. lend \<noteq> LoopPanicked p" "lend \<noteq> LoopSpins" "lend = LoopEOF \<longrightarrow> concat (lw_parts w) = L ?sq"
    by auto
  have emit': "(out, r') = (case lend of LoopEOF \<Rightarrow> close_ledger cfg ?sq (em_size em) w
      | LoopCancelled \<Rightarrow> (Some Cancelled, lw_run w)
      | LoopFailed e \<Rightarrow> (Some (Errored e), lw_run w)
      | LoopPanicked p \<Rightarrow> (Some (Panicked p), lw_run w)
      | LoopSpins \<Rightarrow> (Some Spins, lw_run w))"
    using False emit pub loop by (cases lend) (auto simp: emit_ledger_def stamp_def Let_def)
  have over: "run_over cfg L h0 o' (lw_run w)" if "\<forall>p. o' \<noteq> Panicked p" "o' \<noteq> Spins" for o'
    using w that by (auto simp: run_over_def work_at_def)
  show ?thesis
  proof (cases lend)
    case LoopEOF
    with lend(3) close_ledger_at [OF w] emit' show ?thesis by simp
  qed (use emit' over lend in auto)
qed

lemma run_items_at:
  "run_ready cfg L h0 r \<Longrightarrow> sc_read cfg = read \<Longrightarrow> 0 < sc_chunk cfg \<Longrightarrow>
   \<forall>em. Emitted em \<in> set items \<longrightarrow> ok (em_body em) \<and> L (em_seq em) = pending (em_body em) \<Longrightarrow>
   run_items cfg items r = (out, r') \<Longrightarrow> run_over cfg L h0 out r'"
proof (induction cfg items r rule: run_items.induct)
  case (3 cfg em items r)
  obtain o1 r1 where emit: "emit_ledger cfg em r = (o1, r1)"
    by fastforce
  note at = emit_ledger_at [OF "3.prems"(1-3) _ _ emit]
  show ?case
  proof (cases o1)
    case None
    with at "3.prems" emit "3.IH" [OF emit [symmetric] None] show ?thesis by simp
  next
    case (Some x)
    with at "3.prems" emit show ?thesis by simp
  qed
qed (auto simp: run_over_def run_ready_def split: src_error.splits)

text \<open>A whole run: a trace of the grammar that ends with the stream finished.\<close>

lemma Run_at:
  assumes "sc_read cfg = read" "0 < sc_chunk cfg"
    and "\<forall>em. Emitted em \<in> set items \<longrightarrow> ok (em_body em) \<and> L (em_seq em) = pending (em_body em)"
    and run: "Run cfg s d items = (out, r)"
  shows "run_at cfg L (rn_hub (initial_run s d)) Done r \<and> (\<forall>p. out \<noteq> Panicked p) \<and> out \<noteq> Spins"
proof -
  let ?h0 = "rn_hub (initial_run s d)"
  obtain r1 out1 where items: "run_items cfg items (initial_run s d) = (out1, r1)"
    by fastforce
  have "run_ready cfg L ?h0 (initial_run s d)"
    by (simp add: run_ready_def run_at_def initial_run_def trace_nil)
  from run_items_at [OF this assms(1-3) items] obtain ph where
    ph: "ph \<noteq> Done" "run_at cfg L ?h0 ph r1" and out: "\<forall>p. out1 \<noteq> Panicked p" "out1 \<noteq> Spins"
    by (auto simp: run_over_def)
  from publish_emits [OF ph(2) g_finish [OF ph(1)], of "run_err out1"] out items run show ?thesis
    by (auto simp: Run_def)
qed

end

end
