(* ===== verification/Source_Calm.thy ===== *)
theory Source_Calm
  imports Grammar
begin

text \<open>
  The source loop when nothing fails: bodies that do not fail, a disk that works, ledgers
  within the payload cap. Every ledger is then published whole, cut into pieces of exactly
  the chunk size whatever the reader's own pieces were and whether or not the source
  declared the size, and the ring ends up holding what putting the ledgers one after the
  other leaves in it.
\<close>

section \<open>The puts of a trace\<close>

fun put_of :: "event \<Rightarrow> (u32 \<times> bytes list) list" where
  "put_of (EvPut sq parts) = [(sq, parts)]"
| "put_of _ = []"

definition trace_puts :: "event list \<Rightarrow> (u32 \<times> bytes list) list" where
  "trace_puts evs = concat (map put_of evs)"

lemma trace_puts_simps [simp]:
  "trace_puts [] = []" "trace_puts (evs @ evs') = trace_puts evs @ trace_puts evs'"
  "trace_puts (ev # evs) = put_of ev @ trace_puts evs"
  by (simp_all add: trace_puts_def)

text \<open>What a trace leaves of the ring is what its puts leave.\<close>

lemma hub_event_ring:
  "hub_event h ev = Inr h' \<Longrightarrow>
     (hb_store h', hb_disk h') = run_puts (hb_store h) (hb_disk h) (put_of ev)"
  by (cases ev) (auto simp: with_bc_def PutParts_def split: sum.splits prod.splits)

lemma run_puts_append:
  "run_puts s d (ps @ qs) = (case run_puts s d ps of (s', d') \<Rightarrow> run_puts s' d' qs)"
  by (induction ps arbitrary: s d) (auto split: prod.splits)

lemma hub_events_ring:
  "hub_events h evs = Inr h' \<Longrightarrow>
     (hb_store h', hb_disk h') = run_puts (hb_store h) (hb_disk h) (trace_puts evs)"
proof (induction evs arbitrary: h)
  case (Cons ev evs)
  then obtain h1 where "hub_event h ev = Inr h1" "hub_events h1 evs = Inr h'"
    by (auto split: sum.splits)
  with Cons.IH hub_event_ring show ?case
    by (simp add: run_puts_append) (metis case_prod_conv)
qed simp

section \<open>Cutting a body\<close>

text \<open>
  Between two reads all the pieces so far are full, and the next buffer has room for a full
  piece or for more than the rest of the body.
\<close>

definition arena_at :: "'r source_cfg \<Rightarrow> int \<Rightarrow> nat \<Rightarrow> 'r ledger_work \<Rightarrow> bool" where
  "arena_at cfg sz left w \<longleftrightarrow>
     (\<forall>p \<in> set (lw_parts w). length p = nat (sc_chunk cfg)) \<and>
     (if sz > 0 then sz = int (length (lw_parts w)) * sc_chunk cfg + int left \<and>
         lw_used w = length (lw_parts w) * (ChunkHeaderSize + nat (sc_chunk cfg))
      else lw_used w = 0)"

lemma arena_left:
  assumes "arena_at cfg sz left w" "0 < sc_chunk cfg" "sz > 0"
  shows "lw_used w \<le> arena_size cfg sz" "left + 22 \<le> arena_size cfg sz - lw_used w"
proof -
  define c k where "c = nat (sc_chunk cfg)" and "k = length (lw_parts w)"
  from assms have used: "lw_used w = k * (11 + c)"
    and c: "0 < c" "sc_chunk cfg = int c" "sz = int (k * c + left)"
    by (auto simp: arena_at_def c_def k_def)
  have "k \<le> (k * c + left) div c"
    using c(1) by simp
  then obtain j where j: "(k * c + left) div c = k + j"
    using le_Suc_ex by blast
  have "arena_size cfg sz = k * c + left + (k + j + 2) * 11"
    using assms(3) unfolding arena_size_def c(2,3) zdiv_int [symmetric] j
    by (simp add: nat_add_distrib nat_mult_distrib)
  then show "lw_used w \<le> arena_size cfg sz" "left + 22 \<le> arena_size cfg sz - lw_used w"
    by (auto simp: used algebra_simps)
qed

lemma arena_used: "arena_at cfg sz left w \<Longrightarrow> 0 < sc_chunk cfg \<Longrightarrow>
    from_arena (arena_size cfg sz) (lw_used w) \<longleftrightarrow> sz > 0"
  using arena_left [of cfg sz left w] by (cases "sz > 0") (auto simp: from_arena_def arena_size_def)

lemma arena_room:
  "arena_at cfg sz left w \<Longrightarrow> 0 < sc_chunk cfg \<Longrightarrow>
     min (nat (sc_chunk cfg)) (left + 1) \<le> chunk_room cfg (arena_size cfg sz) (lw_used w)"
  using arena_used [of cfg sz left w] arena_left [of cfg sz left w] by (auto simp: chunk_room_def)

lemma take_chunk_parts:
  "take_chunk cfg sq arena data w = Inr w' \<Longrightarrow> lw_parts w' = lw_parts w @ [data] \<and>
     lw_used w' = (if from_arena arena (lw_used w) then lw_used w + (ChunkHeaderSize + length data) else lw_used w)"
  by (auto simp: take_chunk_def Let_def split: sum.splits)

lemma take_chunk_arena:
  assumes "take_chunk cfg sq (arena_size cfg sz) data w = Inr w'" "arena_at cfg sz left w"
    and "length data = nat (sc_chunk cfg)" "0 < sc_chunk cfg" "length data \<le> left"
  shows "arena_at cfg sz (left - length data) w'"
  using assms arena_used [OF assms(2,4)] take_chunk_parts [OF assms(1)]
  by (auto simp: arena_at_def algebra_simps of_nat_diff)

section \<open>What the steps do to the trace\<close>

lemma publish_frame:
  "publish r ev = Inr r' \<Longrightarrow> rn_trace r' = rn_trace r @ [ev] \<and> rn_published r' = rn_published r \<and>
     hub_event (rn_hub r) ev = Inr (rn_hub r')"
  by (auto simp: publish_def split: sum.splits)

lemma take_chunk_frame:
  "take_chunk cfg sq arena data w = Inr w' \<Longrightarrow>
     \<exists>m. rn_trace (lw_run w') = rn_trace (lw_run w) @ [EvChunk m] \<and> rn_published (lw_run w') = rn_published (lw_run w)"
  by (auto simp: take_chunk_def submit_def Let_def dest!: publish_frame split: sum.splits)

lemma chunk_loop_trace:
  "chunk_loop cfg sq arena w = (out, w') \<Longrightarrow>
     \<exists>ms. rn_trace (lw_run w') = rn_trace (lw_run w) @ map EvChunk ms \<and> rn_published (lw_run w') = rn_published (lw_run w)"
proof (induction cfg sq arena w rule: chunk_loop.induct)
  case (1 cfg sq arena w)
  obtain body data rerr where fill: "fillChunk (sc_read cfg) (lw_body w) (chunk_room cfg arena (lw_used w)) = (body, data, rerr)"
    by (metis prod_cases3)
  let ?w = "w\<lparr>lw_body := body\<rparr>"
  note unfold = chunk_loop.simps [of cfg sq arena w] fill Let_def
  show ?case
  proof (cases "data \<noteq> [] \<and> lw_total w + int (length data) > sc_max cfg")
    case True
    with "1.prems" show ?thesis by (auto simp: unfold)
  next
    case fits: False
    show ?thesis
    proof (cases "if data \<noteq> [] then take_chunk cfg sq arena data ?w else Inr ?w")
      case (Inl p)
      with fits "1.prems" show ?thesis by (auto simp: unfold split: if_splits)
    next
      case (Inr w1)
      have "\<exists>ms. rn_trace (lw_run w1) = rn_trace (lw_run w) @ map EvChunk ms \<and>
          rn_published (lw_run w1) = rn_published (lw_run w)"
      proof (cases "data = []")
        case False
        with Inr take_chunk_frame [of cfg sq arena data ?w w1] obtain m where
          "rn_trace (lw_run w1) = rn_trace (lw_run w) @ map EvChunk [m]" "rn_published (lw_run w1) = rn_published (lw_run w)"
          by auto
        then show ?thesis by blast
      qed (use Inr in auto)
      then obtain ms where w1: "rn_trace (lw_run w1) = rn_trace (lw_run w) @ map EvChunk ms"
          "rn_published (lw_run w1) = rn_published (lw_run w)"
        by blast
      show ?thesis
      proof (cases "rerr = None \<and> data \<noteq> []")
        case True
        with Inr fits "1.prems" have "chunk_loop cfg sq arena w1 = (out, w')"
          by (auto simp: unfold)
        with "1.IH" [OF fill [symmetric] refl refl _ Inr] fits True obtain ms' where
          "rn_trace (lw_run w') = rn_trace (lw_run w1) @ map EvChunk ms'"
          "rn_published (lw_run w') = rn_published (lw_run w1)"
          by auto
        with w1 show ?thesis
          by (intro exI [of _ "ms @ ms'"]) simp
      next
        case False
        with Inr fits "1.prems" have "w' = w1"
          by (auto simp: unfold split: if_splits option.splits rd_error.splits)
        with w1 show ?thesis by auto
      qed
    qed
  qed
qed

lemma chunk_loop_frame:
  assumes "chunk_loop cfg sq arena w = (out, w')"
  shows "trace_puts (rn_trace (lw_run w')) = trace_puts (rn_trace (lw_run w)) \<and>
     rn_published (lw_run w') = rn_published (lw_run w)"
proof -
  have "trace_puts (map EvChunk ms) = []" for ms
    by (induction ms) (simp_all add: trace_puts_def)
  then show ?thesis
    using chunk_loop_trace [OF assms] by auto
qed

lemma publish_bc_ring:
  "publish r ev = Inr r' \<Longrightarrow> put_of ev = [] \<Longrightarrow>
     hb_store (rn_hub r') = hb_store (rn_hub r) \<and> hb_disk (rn_hub r') = hb_disk (rn_hub r)"
  using hub_event_ring [of "rn_hub r" ev "rn_hub r'"] by (auto dest!: publish_frame)

text \<open>How a ledger can end after its body has.\<close>

lemma close_ledger_out:
  assumes "close_ledger cfg sq sz w = (out, r)"
  shows "(out = None \<and> trace_puts (rn_trace r) = trace_puts (rn_trace (lw_run w)) @ [(sq, lw_parts w)] \<and>
      rn_published r = rn_published (lw_run w) + 1)
    \<or> (sz > 0 \<and> lw_total w \<noteq> sz) \<or> (\<exists>p. out = Some (Panicked p))
    \<or> (\<exists>e. out = Some (Errored (RetainFailed sq e)) \<and>
        snd (fst (PutParts (hb_store (rn_hub (lw_run w))) (hb_disk (rn_hub (lw_run w))) sq (lw_parts w))) = Some e)"
proof (cases "sz > 0 \<and> lw_total w \<noteq> sz")
  case False
  obtain checksum h where sum: "hasher_sum (sc_sum cfg) (rn_hasher (lw_run w)) = (checksum, h)"
    by fastforce
  let ?r1 = "(lw_run w)\<lparr>rn_clock := rn_clock (lw_run w) + 1, rn_hasher := h\<rparr>"
  let ?fin = "EvEnd (AppendEnd [] sq (lw_idx w) (word_of_int (lw_total w)) (sc_now cfg (rn_clock (lw_run w))) checksum)"
  note unfold = close_ledger_def stamp_def Let_def sum
  show ?thesis
  proof (cases "publish ?r1 ?fin")
    case (Inl p)
    with assms False show ?thesis by (auto simp: unfold)
  next
    case (Inr r2)
    note r2 = publish_frame [OF Inr] publish_bc_ring [OF Inr]
    show ?thesis
    proof (cases "publish r2 (EvPut sq (lw_parts w))")
      case Inl
      with assms False Inr show ?thesis by (auto simp: unfold split: prod.splits)
    next
      case r3: (Inr r3)
      with assms False Inr r2 publish_frame [OF r3] show ?thesis
        by (auto simp: unfold split: prod.splits option.splits)
    qed
  qed
qed simp

section \<open>A calm run\<close>

lemma run_puts_calm:
  "ring_state_ok (s, d) \<Longrightarrow> \<forall>q parts. (q, parts) \<in> set ps \<longrightarrow> q \<noteq> 0 \<Longrightarrow>
     ring_state_ok (run_puts s d ps) \<and>
     contents (fst (run_puts s d ps)) (snd (run_puts s d ps)) =
       foldl (\<lambda>w (q, parts). spec_put (retention s) w q (concat parts)) (contents s d) ps"
proof (induction ps arbitrary: s d)
  case (Cons p ps)
  obtain q parts where p: "p = (q, parts)" by fastforce
  with Cons.prems obtain s' d' where put1: "put s d q parts = ((filled s \<and> q \<noteq> latest s + 1, None), s', d')"
      "faults d' = []" "ring_ok s' d'" "retention s' = retention s"
      "contents s' d' = spec_put (retention s) (contents s d) q (concat parts)"
    using put_refines [of s d q parts] by (auto simp: ring_state_ok_def)
  with Cons.IH [of s' d'] Cons.prems(2) show ?case
    by (auto simp: p ring_state_ok_def)
qed simp

lemma PutParts_calm: "ring_state_ok (s, d) \<Longrightarrow> q \<noteq> 0 \<Longrightarrow> snd (fst (PutParts s d q parts)) = None"
  using put_refines [of s d q parts] by (auto simp: ring_state_ok_def PutParts_def)

text \<open>Emissions under consecutive sequences that continue \<open>prev\<close> (zero: any start).\<close>

fun dense_from :: "u32 \<Rightarrow> 'r emission list \<Rightarrow> bool" where
  "dense_from prev [] = True"
| "dense_from prev (em # ems) \<longleftrightarrow>
     em_seq em \<noteq> 0 \<and> (prev = 0 \<or> em_seq em = prev + 1) \<and> dense_from (em_seq em) ems"

text \<open>What a calm emission is: a body that is the ledger, within the cap, its size as declared.\<close>

definition calm_emission :: "('r \<Rightarrow> bool) \<Rightarrow> ('r \<Rightarrow> bytes) \<Rightarrow> 'r source_cfg \<Rightarrow> (u32 \<Rightarrow> bytes) \<Rightarrow> 'r emission \<Rightarrow> bool" where
  "calm_emission ok pending cfg L em \<longleftrightarrow> ok (em_body em) \<and> pending (em_body em) = L (em_seq em) \<and>
     int (length (L (em_seq em))) \<le> sc_max cfg \<and>
     (em_size em = 0 \<or> em_size em = int (length (L (em_seq em))))"

definition cut_emission :: "'r source_cfg \<Rightarrow> (u32 \<Rightarrow> bytes) \<Rightarrow> 'r emission \<Rightarrow> u32 \<times> bytes list" where
  "cut_emission cfg L em = (em_seq em, pieces (nat (sc_chunk cfg)) (L (em_seq em)))"

context calm_reader
begin

lemma chunk_loop_calm:
  "work_at cfg L h0 sq (arena_size cfg sz) w \<Longrightarrow> sc_read cfg = read \<Longrightarrow> 0 < sc_chunk cfg \<Longrightarrow> ok (lw_body w) \<Longrightarrow>
   L sq = concat (lw_parts w) @ pending (lw_body w) \<Longrightarrow> int (length (L sq)) \<le> sc_max cfg \<Longrightarrow>
   arena_at cfg sz (length (pending (lw_body w))) w \<Longrightarrow>
     \<exists>w'. chunk_loop cfg sq (arena_size cfg sz) w = (LoopEOF, w') \<and>
       lw_parts w' = pieces (nat (sc_chunk cfg)) (L sq)"
proof (induction "length (pending (lw_body w))" arbitrary: w rule: less_induct)
  case less
  let ?arena = "arena_size cfg sz" and ?c = "nat (sc_chunk cfg)"
  obtain body data rerr where fill: "fillChunk read (lw_body w) (chunk_room cfg ?arena (lw_used w)) = (body, data, rerr)"
    by (metis prod_cases3)
  note fs = fillChunk_calm [OF less.prems(4) fill]
  note room = chunk_room_bounds [OF less.prems(3), of ?arena "lw_used w"] arena_room [OF less.prems(7,3)]
  let ?w = "w\<lparr>lw_body := body\<rparr>"
  have w: "work_at cfg L h0 sq ?arena ?w" "arena_at cfg sz (length (pending (lw_body w))) ?w"
    using less.prems(1,7) by (simp_all add: work_at_def arena_at_def)
  have full: "pieces ?c (L sq) = lw_parts w @ pieces ?c (pending (lw_body w))"
    using less.prems(3,5,7) by (auto simp: arena_at_def intro: pieces_full)
  note unfold = chunk_loop.simps [of cfg sq ?arena w] less.prems(2) fill Let_def
  have total: "lw_total w + int (length data) \<le> sc_max cfg"
    using less.prems(1,5,6) fs by (simp add: work_at_def)
  show ?case
  proof (cases "data = []")
    case True
    with fs room have "rerr = Some RdEOF" "pending (lw_body w) = []" by auto
    with True full show ?thesis by (auto simp: unfold)
  next
    case False
    have "prefix (concat (lw_parts ?w) @ data) (L sq)"
      using less.prems(5) fs by (simp add: take_is_prefix)
    with take_chunk_at [OF w(1) False _ less.prems(3)] fs total obtain w1 where
      w1: "take_chunk cfg sq ?arena data ?w = Inr w1" "work_at cfg L h0 sq ?arena w1"
        "lw_body w1 = body" "lw_parts w1 = lw_parts w @ [data]"
      by auto
    show ?thesis
    proof (cases "rerr = Some RdEOF")
      case True
      with fs room have "data = pending (lw_body w)" "length data \<le> ?c"
        by auto
      with False full have "lw_parts w1 = pieces ?c (L sq)"
        by (simp add: w1(4) pieces_short)
      with True False total w1(1) show ?thesis by (auto simp: unfold)
    next
      case more: False
      with fs have none: "rerr = None" by auto
      with fs have "chunk_room cfg ?arena (lw_used w) \<le> length (pending (lw_body w))" by auto
      with room fs none have len: "length data = ?c" "?c \<le> length (pending (lw_body w))" by auto
      have shorter: "length (pending body) = length (pending (lw_body w)) - length data"
        using fs len by auto
      have "length (pending (lw_body w1)) < length (pending (lw_body w))"
        using shorter len less.prems(3) w1(3) by auto
      moreover have "ok (lw_body w1)" "L sq = concat (lw_parts w1) @ pending (lw_body w1)"
        using fs less.prems(5) w1(3,4) by auto
      moreover have "arena_at cfg sz (length (pending (lw_body w1))) w1"
        using take_chunk_arena [OF w1(1) w(2) len(1) less.prems(3)] len shorter w1(3) by simp
      ultimately obtain w' where "chunk_loop cfg sq ?arena w1 = (LoopEOF, w')"
          "lw_parts w' = pieces ?c (L sq)"
        using less.hyps [of w1] w1(2) less.prems(2,3,6) by blast
      with False total w1(1) none show ?thesis by (auto simp: unfold)
    qed
  qed
qed

lemma emit_ledger_calm:
  assumes r: "run_ready cfg L h0 r" and cfg: "sc_read cfg = read" "0 < sc_chunk cfg"
    and calm: "calm_emission ok pending cfg L em" and max: "0 \<le> sc_max cfg"
    and seq: "em_seq em \<noteq> 0" "rn_prev r = 0 \<or> em_seq em = rn_prev r + 1"
    and ring: "ring_state_ok (hb_store (rn_hub r), hb_disk (rn_hub r))"
  shows "\<exists>r'. emit_ledger cfg em r = (None, r') \<and>
    trace_puts (rn_trace r') = trace_puts (rn_trace r) @ [cut_emission cfg L em] \<and>
    rn_published r' = rn_published r + 1"
proof -
  let ?sq = "em_seq em" and ?sz = "em_size em"
  let ?opening = "EvBegin ?sq (AppendBegin [] ?sq (sc_now cfg (rn_clock r)))"
  let ?r1 = "r\<lparr>rn_prev := ?sq, rn_clock := rn_clock r + 1\<rparr>"
  have fits: "\<not> em_size em > sc_max cfg"
    using calm max by (auto simp: calm_emission_def)
  have "run_at cfg L h0 (Idle (rn_prev r)) ?r1"
    using r by (simp add: run_ready_def)
  moreover have "emits cfg L (Idle (rn_prev r)) ?opening (InFlow ?sq [])"
    using seq by (intro g_begin) auto
  ultimately obtain r2 where pub: "publish ?r1 ?opening = Inr r2"
    and r2_eq: "\<exists>h. r2 = ?r1\<lparr>rn_hub := h, rn_trace := rn_trace ?r1 @ [?opening]\<rparr>"
    and r2: "run_at cfg L h0 (InFlow ?sq []) r2"
    using publish_emits by blast
  let ?w = "\<lparr>lw_run = r2, lw_body = em_body em, lw_total = 0, lw_used = 0, lw_idx = 0,
      lw_parts = [], lw_regions = []\<rparr>"
  have w0: "work_at cfg L h0 ?sq (arena_size cfg ?sz) ?w"
    using r r2 r2_eq by (auto simp: work_at_def run_ready_def)
  have "arena_at cfg ?sz (length (pending (em_body em))) ?w"
    using calm by (auto simp: arena_at_def calm_emission_def)
  then obtain w where loop: "chunk_loop cfg ?sq (arena_size cfg ?sz) ?w = (LoopEOF, w)"
    and parts: "lw_parts w = pieces (nat (sc_chunk cfg)) (L ?sq)"
    using chunk_loop_calm [OF w0 cfg] calm by (auto simp: calm_emission_def)
  from chunk_loop_at [OF w0 cfg _ _ loop] calm
  have w: "work_at cfg L h0 ?sq (arena_size cfg ?sz) w" by (auto simp: calm_emission_def)
  obtain out r' where close: "close_ledger cfg ?sq ?sz w = (out, r')"
    by fastforce
  note at = close_ledger_at [OF w _ close] close_ledger_out [OF close]
  have sized: "\<not> (?sz > 0 \<and> lw_total w \<noteq> ?sz)"
    using w calm parts by (auto simp: work_at_def calm_emission_def)
  have puts: "trace_puts (rn_trace (lw_run w)) = trace_puts (rn_trace r)"
      "rn_published (lw_run w) = rn_published r"
    using chunk_loop_frame [OF loop] r2_eq by auto
  have "hub_events h0 (rn_trace r) = Inr (rn_hub r)" "hub_events h0 (rn_trace (lw_run w)) = Inr (rn_hub (lw_run w))"
    using r w by (auto simp: run_ready_def run_at_def work_at_def)
  from this [THEN hub_events_ring] ring puts(1)
  have "ring_state_ok (hb_store (rn_hub (lw_run w)), hb_disk (rn_hub (lw_run w)))"
    by simp
  from PutParts_calm [OF this seq(1)] at parts sized have "out = None"
    by (auto simp: run_over_def)
  with at sized puts parts have "trace_puts (rn_trace r') = trace_puts (rn_trace r) @ [cut_emission cfg L em]"
      "rn_published r' = rn_published r + 1"
    by (auto simp: cut_emission_def)
  moreover have "emit_ledger cfg em r = (None, r')"
    using seq fits pub loop close \<open>out = None\<close> by (auto simp: emit_ledger_def stamp_def Let_def)
  ultimately show ?thesis by blast
qed

lemma run_items_calm:
  "run_ready cfg L h0 r \<Longrightarrow> sc_read cfg = read \<Longrightarrow> 0 < sc_chunk cfg \<Longrightarrow> 0 \<le> sc_max cfg \<Longrightarrow>
   dense_from (rn_prev r) ems \<Longrightarrow> \<forall>em \<in> set ems. calm_emission ok pending cfg L em \<Longrightarrow>
   ring_state_ok (hb_store (rn_hub r), hb_disk (rn_hub r)) \<Longrightarrow>
     \<exists>r'. run_items cfg (map Emitted ems) r = (Finished, r') \<and>
       trace_puts (rn_trace r') = trace_puts (rn_trace r) @ map (cut_emission cfg L) ems \<and>
       rn_published r' = rn_published r + length ems"
proof (induction ems arbitrary: r)
  case (Cons em ems)
  then obtain r1 where emit: "emit_ledger cfg em r = (None, r1)"
    and r1: "trace_puts (rn_trace r1) = trace_puts (rn_trace r) @ [cut_emission cfg L em]"
      "rn_published r1 = rn_published r + 1"
    using emit_ledger_calm [of cfg L h0 r em] by auto
  have ready: "run_ready cfg L h0 r1" "rn_prev r1 = em_seq em"
    using emit_ledger_at [OF Cons.prems(1-3) _ _ emit] Cons.prems(6) by (auto simp: calm_emission_def)
  have "hub_events h0 (rn_trace r) = Inr (rn_hub r)" "hub_events h0 (rn_trace r1) = Inr (rn_hub r1)"
    using Cons.prems(1) ready(1) by (auto simp: run_ready_def run_at_def)
  from this [THEN hub_events_ring] r1(1)
  have "(hb_store (rn_hub r1), hb_disk (rn_hub r1)) =
      run_puts (hb_store (rn_hub r)) (hb_disk (rn_hub r)) [cut_emission cfg L em]"
    by (simp add: run_puts_append split: prod.splits)
  then have "ring_state_ok (hb_store (rn_hub r1), hb_disk (rn_hub r1))"
    using run_puts_calm [OF Cons.prems(7), of "[cut_emission cfg L em]"] Cons.prems(5)
    by (auto simp: cut_emission_def)
  with Cons.IH [OF ready(1) Cons.prems(2-4)] Cons.prems(5,6) ready(2) obtain r' where
    "run_items cfg (map Emitted ems) r1 = (Finished, r')"
    "trace_puts (rn_trace r') = trace_puts (rn_trace r1) @ map (cut_emission cfg L) ems"
    "rn_published r' = rn_published r1 + length ems"
    by auto
  with emit r1 show ?case by simp
qed simp

lemma Run_calm:
  assumes "sc_read cfg = read" "0 < sc_chunk cfg" "0 \<le> sc_max cfg"
    and "dense_from 0 ems" "\<forall>em \<in> set ems. calm_emission ok pending cfg L em" "ring_state_ok (s, d)"
  shows "\<exists>r. Run cfg s d (map Emitted ems) = (Finished, r) \<and>
    trace_puts (rn_trace r) = map (cut_emission cfg L) ems \<and> rn_published r = length ems \<and>
    (hb_store (rn_hub r), hb_disk (rn_hub r)) = run_puts s d (map (cut_emission cfg L) ems)"
proof -
  let ?r0 = "initial_run s d"
  have ready: "run_ready cfg L (rn_hub ?r0) ?r0"
    by (simp add: run_ready_def run_at_def initial_run_def trace_nil)
  have prev: "rn_prev ?r0 = 0" "rn_trace ?r0 = []" "rn_published ?r0 = 0"
      "hb_store (rn_hub ?r0) = s" "hb_disk (rn_hub ?r0) = d"
    by (simp_all add: initial_run_def)
  from run_items_calm [OF ready assms(1-3)] assms(4-6) prev obtain r1 where
    r1: "run_items cfg (map Emitted ems) ?r0 = (Finished, r1)"
      "trace_puts (rn_trace r1) = map (cut_emission cfg L) ems" "rn_published r1 = length ems"
    by auto
  obtain r where pub: "publish r1 (EvFinish None) = Inr r"
    by (auto simp: publish_def)
  with r1 have run: "Run cfg s d (map Emitted ems) = (Finished, r)"
    by (simp add: Run_def run_err_def)
  have "\<forall>em. Emitted em \<in> set (map Emitted ems) \<longrightarrow> ok (em_body em) \<and> L (em_seq em) = pending (em_body em)"
    using assms(5) by (force simp: calm_emission_def)
  then have "hub_events (rn_hub ?r0) (rn_trace r) = Inr (rn_hub r)"
    using Run_at [OF assms(1,2) _ run, of L] by (simp add: run_at_def)
  from hub_events_ring [OF this] r1 publish_frame [OF pub] prev run show ?thesis
    by (intro exI [of _ r]) simp
qed

end

end
