(* ===== verification/Serve.thy ===== *)
theory Serve
  imports Source_Loop
begin

text \<open>
  The serving half of \<^verbatim>\<open>internal/server/server.go\<close>: validation of a server's configuration,
  the subscription request, \<^verbatim>\<open>serve\<close> and the helpers it calls, and the health report.

  A subscriber is a state machine. Its program counter names the next thing \<^verbatim>\<open>serve\<close> does
  that reads shared state: take a snapshot of the flow, read the ring's bounds, open and
  read a ledger file, look at how the source ended. \<open>serve_step\<close> is one such access with
  everything up to the next one, so any other goroutine can run between two of them, as
  the locks of the code allow. \<open>sb_out\<close> is every message written to the connection; a
  connection that breaks is a step to \<open>PcBroken\<close>, and what its peer saw is a prefix of
  \<open>sb_out\<close>. Sleeping is blocking on a channel generation of the broadcaster.
\<close>

section \<open>Configuration\<close>

record server_config =
  cf_source :: bool
  cf_store :: bool
  cf_chunk_size :: int
  cf_compress :: bool
  cf_workers :: int
  cf_range :: ledger_range

datatype config_error =
    SourceRequired
  | StoreRequired
  | RangeStartsAtZero
  | RangeEndsBeforeStart
  | BadChunkSize int
  | BadWorkers int
  | CompressionFailed

record server =
  sv_range :: ledger_range
  sv_chunk :: int
  sv_enc :: "encoder option"
  sv_ring_enc :: "encoder option"
  sv_workers :: int

text \<open>
  \<open>mk\<close> is \<^verbatim>\<open>zstd.NewWriter\<close> with a concurrency and a window size; it can refuse. \<open>newEncoder\<close>
  asks it for the window of one chunk.
\<close>

definition newEncoder :: "(int \<Rightarrow> nat \<Rightarrow> encoder option) \<Rightarrow> int \<Rightarrow> int \<Rightarrow> encoder option" where
  "newEncoder mk concurrency chunkSize = mk concurrency (encoder_window chunkSize)"

definition New :: "(int \<Rightarrow> nat \<Rightarrow> encoder option) \<Rightarrow> server_config \<Rightarrow> config_error + server" where
  "New mk cfg =
     (if \<not> cf_source cfg then Inl SourceRequired
      else if \<not> cf_store cfg then Inl StoreRequired
      else if rg_from (cf_range cfg) = 0 then Inl RangeStartsAtZero
      else if rg_bounded (cf_range cfg) \<and> rg_to (cf_range cfg) < rg_from (cf_range cfg) then Inl RangeEndsBeforeStart
      else
        let chunk = (if cf_chunk_size cfg = 0 then DefaultChunkSize else cf_chunk_size cfg) in
        if \<not> ValidateChunkSize chunk then Inl (BadChunkSize chunk)
        else case validateCompressWorkers (cf_workers cfg) of
          None \<Rightarrow> Inl (BadWorkers (cf_workers cfg))
        | Some workers \<Rightarrow>
            if \<not> cf_compress cfg then
              Inr \<lparr>sv_range = cf_range cfg, sv_chunk = chunk, sv_enc = None, sv_ring_enc = None, sv_workers = workers\<rparr>
            else
              (case newEncoder mk workers chunk of
                 None \<Rightarrow> Inl CompressionFailed
               | Some e \<Rightarrow>
                   (case newEncoder mk ringEncoderConcurrency chunk of
                      None \<Rightarrow> Inl CompressionFailed
                    | Some re \<Rightarrow>
                        Inr \<lparr>sv_range = cf_range cfg, sv_chunk = chunk, sv_enc = Some e, sv_ring_enc = Some re,
                             sv_workers = workers\<rparr>)))"

lemma New_chunk: "New mk cfg = Inr srv \<Longrightarrow> ValidateChunkSize (sv_chunk srv)"
  by (auto simp: New_def Let_def ValidateChunkSize_def DefaultChunkSize_def split: if_splits option.splits)

section \<open>The subscription request\<close>

record stream_request =
  rq_start :: u32
  rq_end :: u32
  rq_bounded :: bool

datatype request_error =
    InvalidParam string string
  | InvalidEndZero
  | LastSequence
  | EndBeforeStart u32 u32

text \<open>The query of a URL: the values of each parameter, in order.\<close>

type_synonym query = "string \<Rightarrow> string list option"

definition get_param :: "query \<Rightarrow> string \<Rightarrow> request_error + u32 \<times> bool" where
  "get_param q name =
     (case q name of
        Some (v # _) \<Rightarrow>
          if v = [] then Inr (0, False)
          else (case parse_uint 32 v of
                  None \<Rightarrow> Inl (InvalidParam name v)
                | Some n \<Rightarrow> Inr (word_of_nat n, True))
      | _ \<Rightarrow> Inr (0, False))"

definition parseStreamRequest :: "query \<Rightarrow> request_error + stream_request" where
  "parseStreamRequest q =
     (case get_param q ''start'' of
        Inl e \<Rightarrow> Inl e
      | Inr (start, _) \<Rightarrow>
          (case get_param q ''end'' of
             Inl e \<Rightarrow> Inl e
           | Inr (finish, hasEnd) \<Rightarrow>
               if hasEnd \<and> finish = 0 then Inl InvalidEndZero
               else if start = max_u32 \<or> finish = max_u32 then Inl LastSequence
               else if hasEnd \<and> start > finish then Inl (EndBeforeStart finish start)
               else Inr \<lparr>rq_start = start, rq_end = finish, rq_bounded = hasEnd\<rparr>))"

section \<open>Messages of a ledger\<close>

text \<open>A completed flow from memory, with both stamps zeroed; \<open>None\<close> when END does not decode.\<close>

definition writeStamplessFlow :: "flow list \<Rightarrow> flow_snap \<Rightarrow> bytes list option" where
  "writeStamplessFlow fs snap =
     (case Decode (the (sn_end snap)) of
        Inl _ \<Rightarrow> None
      | Inr m \<Rightarrow>
          Some (AppendBegin [] (sn_seq fs snap) 0 # sn_chunks snap @
                [AppendEnd [] (sn_seq fs snap) (m_chunk_count m) (m_total_len m) 0 (m_checksum m)]))"

text \<open>
  The chunk loop of a ring replay. \<open>0 < c\<close> only makes the recursion total: \<open>New\<close> refuses
  any other chunk size.
\<close>

function ring_chunks :: "encoder option \<Rightarrow> int \<Rightarrow> u32 \<Rightarrow> bytes \<Rightarrow> nat \<Rightarrow> u32 \<Rightarrow> bytes list \<times> u32" where
  "ring_chunks enc c sq raw off idx =
     (if off < length raw \<and> 0 < c then
        let chunk = sub_slice off (min (off + nat c) (length raw)) raw in
        case ring_chunks enc c sq raw (off + nat c) (idx + 1) of
          (msgs, n) \<Rightarrow> (encodeChunk enc sq idx chunk # msgs, n)
      else ([], idx))"
  by pat_completeness auto

termination ring_chunks
  by (relation "measure (\<lambda>(enc, c, sq, raw, off, idx). length raw - off)") auto

declare ring_chunks.simps [simp del]

definition writeRingFlow :: "encoder option \<Rightarrow> int \<Rightarrow> (bytes \<Rightarrow> u64) \<Rightarrow> u32 \<Rightarrow> bytes \<Rightarrow> bytes list" where
  "writeRingFlow enc c sum64 sq raw =
     (case ring_chunks enc c sq raw 0 0 of
        (msgs, idx) \<Rightarrow>
          AppendBegin [] sq 0 # msgs @ [AppendEnd [] sq idx (word_of_nat (length raw)) 0 (sum64 raw)])"

section \<open>One subscriber\<close>

definition StatusNormalClosure :: int where "StatusNormalClosure = 1000"
definition StatusGoingAway :: int where "StatusGoingAway = 1001"
definition StatusInternalError :: int where "StatusInternalError = 1011"

lemmas status_defs = StatusNormalClosure_def StatusGoingAway_def StatusInternalError_def StatusTooFarBehind_def

datatype pc =
    PcAnchor
  | PcWatch
  | PcBounds nat bool
  | PcGet nat bool
  | PcRead store nat bool
  | PcTooFar
  | PcSettle nat bool
  | PcSleep nat
  | PcClosed int string
  | PcBroken
  | PcPanicked

record subscriber =
  sb_req :: stream_request
  sb_next :: nat
  sb_flow :: "nat option"
  sb_begun :: bool
  sb_sent :: nat
  sb_out :: "bytes list"
  sb_abandons :: nat
  sb_pc :: pc

record serve_cfg =
  sr_chunk :: int
  sr_enc :: "encoder option"
  sr_sum :: "bytes \<Rightarrow> u64"

definition new_subscriber :: "stream_request \<Rightarrow> subscriber" where
  "new_subscriber req = \<lparr>sb_req = req, sb_next = unat (rq_start req), sb_flow = None, sb_begun = False,
     sb_sent = 0, sb_out = [], sb_abandons = 0,
     sb_pc = (if rq_start req = 0 then PcAnchor else PcWatch)\<rparr>"

definition anchorTip :: "run_error broadcaster \<Rightarrow> nat" where
  "anchorTip b =
     (case bc_watch b of (snap, _, _) \<Rightarrow>
        if sn_seq (flows b) snap = 0 then 0
        else if sn_complete snap then unat (sn_seq (flows b) snap) + 1
        else unat (sn_seq (flows b) snap))"

definition endedClose :: "stream_request \<Rightarrow> nat \<Rightarrow> int \<times> string" where
  "endedClose req next =
     (if rq_bounded req \<and> next \<le> unat (rq_end req)
      then (StatusGoingAway, ''source ended before range complete'')
      else (StatusNormalClosure, ''source ended''))"

text \<open>The end of a ledger: the cursor moves on and nothing is begun.\<close>

definition next_ledger :: "bytes list \<Rightarrow> subscriber \<Rightarrow> subscriber" where
  "next_ledger msgs s = s\<lparr>sb_out := sb_out s @ msgs, sb_flow := None, sb_begun := False,
     sb_next := sb_next s + 1, sb_pc := PcWatch\<rparr>"

text \<open>
  The cursor is on the current flow: write what the snapshot holds beyond what was sent,
  from BEGIN when nothing of this very flow was.
\<close>

definition fresh_flow :: "flow_snap \<Rightarrow> subscriber \<Rightarrow> bool" where
  "fresh_flow snap s \<longleftrightarrow> \<not> sb_begun s \<or> sb_flow s \<noteq> sn_flow snap"

definition enter_flow :: "flow list \<Rightarrow> flow_snap \<Rightarrow> subscriber \<Rightarrow> subscriber" where
  "enter_flow fs snap s =
     (if fresh_flow snap s then
        s\<lparr>sb_out := sb_out s @ [fl_begin (fs ! the (sn_flow snap))],
          sb_flow := sn_flow snap, sb_begun := True, sb_sent := 0\<rparr>
      else s)"

definition send_chunks :: "flow_snap \<Rightarrow> subscriber \<Rightarrow> subscriber" where
  "send_chunks snap s =
     s\<lparr>sb_out := sb_out s @ drop (sb_sent s) (sn_chunks snap),
       sb_sent := max (sb_sent s) (length (sn_chunks snap))\<rparr>"

definition follow_flow :: "flow list \<Rightarrow> flow_snap \<Rightarrow> nat \<Rightarrow> bool \<Rightarrow> subscriber \<Rightarrow> subscriber" where
  "follow_flow fs snap ch fin s =
     (let s1 = enter_flow fs snap s; s2 = send_chunks snap s1;
          wrote = fresh_flow snap s \<or> sb_sent s1 < length (sn_chunks snap)
      in case sn_end snap of
           Some e \<Rightarrow> next_ledger [e] s2
         | None \<Rightarrow> s2\<lparr>sb_pc := (if wrote then PcWatch else PcSettle ch fin)\<rparr>)"

text \<open>The cursor is behind the flow: finish the pinned flow if only END is missing, else the ring.\<close>

definition leave_flow :: "flow list \<Rightarrow> nat \<Rightarrow> bool \<Rightarrow> subscriber \<Rightarrow> subscriber" where
  "leave_flow fs ch fin s =
     (if \<not> sb_begun s then s\<lparr>sb_pc := PcBounds ch fin\<rparr>
      else case sb_flow s of
        None \<Rightarrow> s\<lparr>sb_pc := PcPanicked\<rparr>
      | Some i \<Rightarrow>
          let f = fs ! i in
          (case (if sb_sent s = length (fl_chunks f) then fl_end f else None) of
             Some e \<Rightarrow> next_ledger [e] s
           | None \<Rightarrow> s\<lparr>sb_flow := None, sb_begun := False, sb_abandons := sb_abandons s + 1,
                      sb_pc := PcBounds ch fin\<rparr>))"

definition past_end :: "subscriber \<Rightarrow> bool" where
  "past_end s \<longleftrightarrow> sb_next s \<noteq> 0 \<and> rq_bounded (sb_req s) \<and> sb_next s > unat (rq_end (sb_req s))"

definition serve_watch :: "hub \<Rightarrow> subscriber \<Rightarrow> subscriber" where
  "serve_watch h s =
     (let fs = flows (hb_bc h) in
      case bc_watch (hb_bc h) of (snap, ch, fin) \<Rightarrow>
        let sq = unat (sn_seq fs snap);
            s = (if sb_next s = 0 then s\<lparr>sb_next := sq\<rparr> else s)
        in if past_end s then s\<lparr>sb_pc := PcClosed StatusNormalClosure []\<rparr>
           else if sb_next s \<noteq> 0 \<and> sb_next s = sq then
             (if \<not> sb_begun s \<and> sn_complete snap then
                (case writeStamplessFlow fs snap of
                   None \<Rightarrow> s\<lparr>sb_pc := PcBroken\<rparr>
                 | Some msgs \<Rightarrow> s\<lparr>sb_out := sb_out s @ msgs, sb_next := sb_next s + 1, sb_pc := PcWatch\<rparr>)
              else follow_flow fs snap ch fin s)
           else if sb_next s \<noteq> 0 \<and> (sb_next s < sq \<or> sq = 0) then leave_flow fs ch fin s
           else s\<lparr>sb_pc := PcSettle ch fin\<rparr>)"

text \<open>The end of an iteration with nothing to send.\<close>

definition serve_settle :: "hub \<Rightarrow> nat \<Rightarrow> bool \<Rightarrow> subscriber \<Rightarrow> subscriber" where
  "serve_settle h ch fin s =
     (if fin then
        (case bc_failure (hb_bc h) of
           Some _ \<Rightarrow> s\<lparr>sb_pc := PcClosed StatusInternalError ''source failed''\<rparr>
         | None \<Rightarrow> (case endedClose (sb_req s) (sb_next s) of (code, reason) \<Rightarrow> s\<lparr>sb_pc := PcClosed code reason\<rparr>))
      else s\<lparr>sb_pc := PcSleep ch\<rparr>)"

text \<open>
  \<^verbatim>\<open>readRing\<close> in its steps: bounds, the bounds \<^verbatim>\<open>Get\<close> copies, the file read after the lock is
  released, and the bounds of the close reason.
\<close>

definition serve_bounds :: "hub \<Rightarrow> nat \<Rightarrow> bool \<Rightarrow> subscriber \<Rightarrow> subscriber" where
  "serve_bounds h ch fin s =
     (case Bounds (hb_store h) of (_, lat, full) \<Rightarrow>
        s\<lparr>sb_pc := (if \<not> full \<or> sb_next s > unat lat then PcSettle ch fin else PcGet ch fin)\<rparr>)"

definition serve_read :: "serve_cfg \<Rightarrow> hub \<Rightarrow> store \<Rightarrow> subscriber \<Rightarrow> hub \<times> subscriber" where
  "serve_read cfg h st s =
     (case Get_read st (word_of_nat (sb_next s)) (hb_disk h) of
        (Inl ErrNotRetained, d) \<Rightarrow> (h\<lparr>hb_disk := d\<rparr>, s\<lparr>sb_pc := PcTooFar\<rparr>)
      | (Inl _, d) \<Rightarrow> (h\<lparr>hb_disk := d\<rparr>, s\<lparr>sb_pc := PcBroken\<rparr>)
      | (Inr raw, d) \<Rightarrow>
          (h\<lparr>hb_disk := d\<rparr>,
           s\<lparr>sb_out := sb_out s @ writeRingFlow (sr_enc cfg) (sr_chunk cfg) (sr_sum cfg) (word_of_nat (sb_next s)) raw,
             sb_next := sb_next s + 1, sb_pc := PcWatch\<rparr>))"

definition serve_too_far :: "hub \<Rightarrow> subscriber \<Rightarrow> subscriber" where
  "serve_too_far h s =
     (case Bounds (hb_store h) of (old, lat, _) \<Rightarrow>
        s\<lparr>sb_pc := PcClosed StatusTooFarBehind (TooFarBehindReason old lat)\<rparr>)"

definition serve_step :: "serve_cfg \<Rightarrow> hub \<Rightarrow> subscriber \<Rightarrow> hub \<times> subscriber" where
  "serve_step cfg h s =
     (case sb_pc s of
        PcAnchor \<Rightarrow> (h, s\<lparr>sb_next := anchorTip (hb_bc h), sb_pc := PcWatch\<rparr>)
      | PcWatch \<Rightarrow> (h, serve_watch h s)
      | PcBounds ch fin \<Rightarrow> (h, serve_bounds h ch fin s)
      | PcGet ch fin \<Rightarrow> (h, s\<lparr>sb_pc := PcRead (hb_store h) ch fin\<rparr>)
      | PcRead st ch fin \<Rightarrow> serve_read cfg h st s
      | PcTooFar \<Rightarrow> (h, serve_too_far h s)
      | PcSettle ch fin \<Rightarrow> (h, serve_settle h ch fin s)
      | PcSleep ch \<Rightarrow> (h, if ch_closed (hb_bc h) ch then s\<lparr>sb_pc := PcWatch\<rparr> else s)
      | _ \<Rightarrow> (h, s))"

section \<open>The health report\<close>

record health =
  he_oldest :: u32
  he_latest :: u32
  he_subscribers :: nat
  he_live_abandons :: nat
  he_raw_fallbacks :: nat

text \<open>The three counters are the server's atomics.\<close>

definition handleHealth :: "hub \<Rightarrow> nat \<Rightarrow> nat \<Rightarrow> nat \<Rightarrow> health" where
  "handleHealth h connected abandons raw =
     (case Bounds (hb_store h) of (old, lat, _) \<Rightarrow>
        \<lparr>he_oldest = old, he_latest = lat, he_subscribers = connected,
         he_live_abandons = abandons, he_raw_fallbacks = raw\<rparr>)"

text \<open>Its body as the JSON encoder writes it: the fields in order, then a newline.\<close>

definition json_member :: "string \<Rightarrow> nat \<Rightarrow> string" where
  "json_member name n = [CHR 0x22] @ name @ [CHR 0x22] @ '':'' @ format_uint n"

definition health_body :: "health \<Rightarrow> bytes" where
  "health_body he = map of_char (''{'' @ json_member ''oldest'' (unat (he_oldest he)) @ '','' @
     json_member ''latest'' (unat (he_latest he)) @ '','' @ json_member ''subscribers'' (he_subscribers he) @ '','' @
     json_member ''live_abandons'' (he_live_abandons he) @ '','' @
     json_member ''raw_fallbacks'' (he_raw_fallbacks he) @ ''}'' @ [CHR 0x0A])"

text \<open>
  \<^verbatim>\<open>handleStream\<close>: a bad request is refused before the handshake, a good one becomes a
  subscriber.
\<close>

definition handleStream :: "query \<Rightarrow> request_error + subscriber" where
  "handleStream q = (case parseStreamRequest q of Inl e \<Rightarrow> Inl e | Inr req \<Rightarrow> Inr (new_subscriber req))"

end
