(* ===== verification/Client.thy ===== *)
theory Client
  imports Wire
begin

text \<open>
  \<^verbatim>\<open>remoteledger/\<close>: the subscriber's side. \<^verbatim>\<open>stream.go\<close> is the read loop that reassembles
  ledgers, the sequence tracker, the classification of closes and the subscription URL;
  \<^verbatim>\<open>decompress.go\<close> is the expansion of one chunk. The read loop is a function of the
  incoming messages: \<open>client_feed\<close> is one iteration, on what the connection's next read
  returned. What the consumer gets is the list of its yields, each a ledger or an error.

  Outside the repository, and parameters here: the zstd decoder (a partial function for each
  memory limit), the checksum, the clock, the URL parser, and what the connection delivers.
\<close>

section \<open>Errors and results\<close>

datatype protocol_error =
    BadMessage wire_error
  | BeginInside u32 u32
  | ChunkOutside u32
  | ChunkOrder u32 u32 u32
  | ChunkPayload u32 u32
  | PayloadCap u32
  | EndOutside u32
  | CountMismatch u32 u32 u32
  | LengthMismatch u32 u64 nat
  | ChecksumMismatch u32 u64 u64

text \<open>
  What a failed read is: a close frame, a message that is not binary, the consumer's own
  cancellation, anything else.
\<close>

datatype read_error = CloseFrame int string | NotBinary | ContextDone | Transport

datatype endpoint_error = BadUrl | BadScheme | NoHost | ReachesLast | RangeBackwards

datatype stream_error =
    EndpointFailed endpoint_error
  | DialFailed
  | ErrProtocol protocol_error
  | ErrGapExhausted u32
  | ErrGap u32 u32
  | TooFarBehindError u32 u32 u32
  | TruncatedInside u32
  | TruncatedEmpty
  | TruncatedAfter u32 u32
  | ReadFailed read_error
  | DecoderFailed

datatype yielded = Ledger bytes | Failure stream_error

section \<open>Limits\<close>

definition max_int64 :: int where "max_int64 = 2 ^ 63 - 1"

definition readLimit :: "int \<Rightarrow> int" where
  "readLimit maxChunkSize =
     (let n = maxChunkSize in
      if n < 0 then - 1
      else
        let n = (if n = 0 then MaxChunkSize else n) in
        if n > max_int64 - int ChunkHeaderSize - 1 then max_int64 - 1
        else max (n + int ChunkHeaderSize) (int EndSize))"

definition decoder_limit :: "int \<Rightarrow> int" where
  "decoder_limit maxChunkBytes =
     (if maxChunkBytes \<le> 0 \<or> maxChunkBytes > MaxChunkSize then MaxChunkSize else maxChunkBytes)"

type_synonym decoder = "bytes \<Rightarrow> bytes option"

text \<open>\<open>mk\<close> is \<^verbatim>\<open>zstd.NewReader\<close> with a memory limit.\<close>

definition newDecoder :: "(int \<Rightarrow> decoder option) \<Rightarrow> int \<Rightarrow> decoder option" where
  "newDecoder mk maxChunkBytes = mk (decoder_limit maxChunkBytes)"

definition appendChunkPayload :: "decoder \<Rightarrow> bytes \<Rightarrow> bytes \<Rightarrow> byte \<Rightarrow> bytes option" where
  "appendChunkPayload dec dst payload codec =
     (if codec = CodecRaw then Some (dst @ payload)
      else if codec = CodecZstd then map_option ((@) dst) (dec payload)
      else None)"

section \<open>Delivery metadata\<close>

record ledger_info =
  li_sequence :: u32
  li_emit_start :: i64
  li_emit_end :: i64
  li_received :: i64
  li_size :: nat
  li_chunks :: nat
  li_discarded :: nat

definition Delivery :: "ledger_info \<Rightarrow> i64 option" where
  "Delivery l = (if li_emit_end l = 0 then None else Some (li_received l - li_emit_end l))"

definition Pipeline :: "ledger_info \<Rightarrow> i64 option" where
  "Pipeline l = (if li_emit_start l = 0 then None else Some (li_received l - li_emit_start l))"

definition EmitWindow :: "ledger_info \<Rightarrow> i64 option" where
  "EmitWindow l = (if li_emit_start l = 0 \<or> li_emit_end l = 0 then None
     else Some (li_emit_end l - li_emit_start l))"

section \<open>The sequence tracker\<close>

record seq_tracker =
  tr_expected :: u32
  tr_exhausted :: bool

definition track_accept :: "seq_tracker \<Rightarrow> u32 \<Rightarrow> stream_error option" where
  "track_accept t sq =
     (if tr_exhausted t then Some (ErrGapExhausted sq)
      else if tr_expected t \<noteq> 0 \<and> sq \<noteq> tr_expected t then Some (ErrGap sq (tr_expected t))
      else None)"

definition track_advance :: "seq_tracker \<Rightarrow> u32 \<Rightarrow> seq_tracker" where
  "track_advance t sq = \<lparr>tr_expected = sq + 1, tr_exhausted = (sq = max_u32)\<rparr>"

section \<open>The read loop\<close>

text \<open>What the next read of the connection returns.\<close>

datatype incoming = Binary bytes | Text bytes | ReadError read_error

record client_cfg =
  cc_max_payload :: int
  cc_max_chunk :: int
  cc_dec :: decoder
  cc_sum :: "bytes \<Rightarrow> u64"
  cc_observe :: bool
  cc_now :: "nat \<Rightarrow> i64"
  cc_keep :: "nat \<Rightarrow> bool"

text \<open>Why the loop ended, with the close reason sent when it closed the connection itself.\<close>

datatype client_status = Running | Stopped "string option"

record client =
  cl_active :: bool
  cl_seq :: u32
  cl_emit_start :: i64
  cl_buf :: bytes
  cl_chunks :: u32
  cl_discarded :: nat
  cl_hashed :: bytes
  cl_track :: seq_tracker
  cl_infos :: "ledger_info list"
  cl_yields :: "yielded list"
  cl_status :: client_status

definition new_client :: "ledger_range \<Rightarrow> client" where
  "new_client rng = \<lparr>cl_active = False, cl_seq = 0, cl_emit_start = 0, cl_buf = [], cl_chunks = 0,
     cl_discarded = 0, cl_hashed = [], cl_track = \<lparr>tr_expected = rg_from rng, tr_exhausted = False\<rparr>,
     cl_infos = [], cl_yields = [], cl_status = Running\<rparr>"

definition client_fail :: "stream_error \<Rightarrow> client \<Rightarrow> client" where
  "client_fail e c = c\<lparr>cl_yields := cl_yields c @ [Failure e], cl_status := Stopped None\<rparr>"

text \<open>\<open>cc_keep k\<close> is whether the consumer pulls again after its \<open>k\<close>-th yield.\<close>

definition deliver :: "client_cfg \<Rightarrow> ledger_range \<Rightarrow> u32 \<Rightarrow> client \<Rightarrow> client" where
  "deliver cfg rng sq c =
     (let k = length (cl_yields c); c = c\<lparr>cl_yields := cl_yields c @ [Ledger (cl_buf c)]\<rparr> in
      if \<not> cc_keep cfg k then c\<lparr>cl_status := Stopped (Some ''consumer done'')\<rparr>
      else if rg_bounded rng \<and> sq \<ge> rg_to rng then c\<lparr>cl_status := Stopped (Some ''range complete'')\<rparr>
      else c)"

definition client_begin :: "client \<Rightarrow> message \<Rightarrow> client" where
  "client_begin c m =
     (let start = (\<lambda>c. c\<lparr>cl_active := True, cl_seq := m_seq m, cl_emit_start := m_emit_start m,
                         cl_buf := [], cl_chunks := 0, cl_hashed := []\<rparr>)
      in if cl_active c then
           (if m_seq m \<noteq> cl_seq c then client_fail (ErrProtocol (BeginInside (m_seq m) (cl_seq c))) c
            else start (c\<lparr>cl_discarded := cl_discarded c + 1\<rparr>))
         else (case track_accept (cl_track c) (m_seq m) of
                 Some e \<Rightarrow> client_fail e c
               | None \<Rightarrow> start c))"

definition client_chunk :: "client_cfg \<Rightarrow> client \<Rightarrow> message \<Rightarrow> client" where
  "client_chunk cfg c m =
     (if \<not> cl_active c \<or> m_seq m \<noteq> cl_seq c then client_fail (ErrProtocol (ChunkOutside (m_seq m))) c
      else if m_chunk_index m \<noteq> cl_chunks c then
        client_fail (ErrProtocol (ChunkOrder (m_seq m) (m_chunk_index m) (cl_chunks c))) c
      else case appendChunkPayload (cc_dec cfg) (cl_buf c) (m_payload m) (m_codec m) of
        None \<Rightarrow> client_fail (ErrProtocol (ChunkPayload (m_seq m) (m_chunk_index m))) c
      | Some raw \<Rightarrow>
          let before = length (cl_buf c); c = c\<lparr>cl_buf := raw\<rparr> in
          if cc_max_payload cfg \<ge> 0 \<and> int (length raw) > cc_max_payload cfg then
            client_fail (ErrProtocol (PayloadCap (m_seq m))) c
          else c\<lparr>cl_hashed := cl_hashed c @ drop before raw, cl_chunks := cl_chunks c + 1\<rparr>)"

definition client_end :: "client_cfg \<Rightarrow> ledger_range \<Rightarrow> client \<Rightarrow> message \<Rightarrow> client" where
  "client_end cfg rng c m =
     (if \<not> cl_active c \<or> m_seq m \<noteq> cl_seq c then client_fail (ErrProtocol (EndOutside (m_seq m))) c
      else if m_chunk_count m \<noteq> cl_chunks c then
        client_fail (ErrProtocol (CountMismatch (m_seq m) (m_chunk_count m) (cl_chunks c))) c
      else if m_total_len m \<noteq> word_of_nat (length (cl_buf c)) then
        client_fail (ErrProtocol (LengthMismatch (m_seq m) (m_total_len m) (length (cl_buf c)))) c
      else
        let checksum = cc_sum cfg (cl_hashed c) in
        if checksum \<noteq> m_checksum m then
          client_fail (ErrProtocol (ChecksumMismatch (m_seq m) checksum (m_checksum m))) c
        else
          let received = (if cc_observe cfg then cc_now cfg (length (cl_yields c)) else 0);
              c = c\<lparr>cl_track := track_advance (cl_track c) (m_seq m)\<rparr>;
              c = (if cc_observe cfg then
                     c\<lparr>cl_infos := cl_infos c @ [\<lparr>li_sequence = m_seq m, li_emit_start = cl_emit_start c,
                       li_emit_end = m_emit_end m, li_received = received, li_size = length (cl_buf c),
                       li_chunks = unat (cl_chunks c), li_discarded = cl_discarded c\<rparr>]\<rparr>
                   else c);
              c = c\<lparr>cl_active := False, cl_discarded := 0\<rparr>
          in deliver cfg rng (m_seq m) c)"

definition client_message :: "client_cfg \<Rightarrow> ledger_range \<Rightarrow> client \<Rightarrow> bytes \<Rightarrow> client" where
  "client_message cfg rng c msg =
     (case Decode msg of
        Inl e \<Rightarrow> client_fail (ErrProtocol (BadMessage e)) c
      | Inr m \<Rightarrow>
          if m_type m = TypeBegin then client_begin c m
          else if m_type m = TypeChunk then client_chunk cfg c m
          else if m_type m = TypeEnd then client_end cfg rng c m
          else c)"

text \<open>The end of the stream.\<close>

definition truncated :: "ledger_range \<Rightarrow> u32 \<Rightarrow> stream_error option" where
  "truncated rng expected =
     (if \<not> rg_bounded rng \<or> expected = 0 \<or> expected > rg_to rng then None
      else if expected = rg_from rng then Some TruncatedEmpty
      else Some (TruncatedAfter (expected - 1) (rg_to rng)))"

definition classifyClose :: "read_error \<Rightarrow> u32 \<Rightarrow> bool \<times> stream_error option" where
  "classifyClose e requested =
     (case e of
        CloseFrame code reason \<Rightarrow>
          if code = 1000 \<or> code = 1001 then (True, None)
          else if code = StatusTooFarBehind then
            (case ParseTooFarBehindReason reason of
               Some (old, lat) \<Rightarrow> (True, Some (TooFarBehindError requested old lat))
             | None \<Rightarrow> (True, Some (TooFarBehindError requested 0 0)))
          else (False, None)
      | _ \<Rightarrow> (False, None))"

definition client_closed :: "ledger_range \<Rightarrow> client \<Rightarrow> read_error \<Rightarrow> client" where
  "client_closed rng c e =
     (case classifyClose e (tr_expected (cl_track c)) of
        (False, _) \<Rightarrow> client_fail (ReadFailed e) c
      | (True, Some err) \<Rightarrow> client_fail err c
      | (True, None) \<Rightarrow>
          if cl_active c then client_fail (TruncatedInside (cl_seq c)) c
          else (case truncated rng (tr_expected (cl_track c)) of
                  Some err \<Rightarrow> client_fail err c
                | None \<Rightarrow> c\<lparr>cl_status := Stopped None\<rparr>))"

text \<open>
  \<^verbatim>\<open>readMessage\<close>: only binary messages, none over the read limit (the library refuses those
  with an error that carries no close status).
\<close>

definition readMessage :: "int \<Rightarrow> incoming \<Rightarrow> read_error + bytes" where
  "readMessage limit i =
     (case i of
        Binary m \<Rightarrow> if limit \<ge> 0 \<and> int (length m) > limit then Inl Transport else Inr m
      | Text _ \<Rightarrow> Inl NotBinary
      | ReadError e \<Rightarrow> Inl e)"

definition client_feed :: "client_cfg \<Rightarrow> ledger_range \<Rightarrow> client \<Rightarrow> incoming \<Rightarrow> client" where
  "client_feed cfg rng c i =
     (if cl_status c \<noteq> Running then c
      else case readMessage (readLimit (cc_max_chunk cfg)) i of
        Inl e \<Rightarrow> client_closed rng c e
      | Inr m \<Rightarrow> client_message cfg rng c m)"

definition client_run :: "client_cfg \<Rightarrow> ledger_range \<Rightarrow> incoming list \<Rightarrow> client" where
  "client_run cfg rng is = foldl (client_feed cfg rng) (new_client rng) is"

section \<open>The subscription URL\<close>

record url =
  u_scheme :: string
  u_host :: string
  u_path :: string
  u_query :: "string \<Rightarrow> string list option"

definition endpoint :: "(string \<Rightarrow> url option) \<Rightarrow> string \<Rightarrow> ledger_range \<Rightarrow> endpoint_error + url" where
  "endpoint parse rawURL rng =
     (case parse rawURL of
        None \<Rightarrow> Inl BadUrl
      | Some u \<Rightarrow>
          let scheme = (if u_scheme u = ''ws'' \<or> u_scheme u = ''wss'' then Some (u_scheme u)
                        else if u_scheme u = ''http'' then Some ''ws''
                        else if u_scheme u = ''https'' then Some ''wss'' else None) in
          case scheme of
            None \<Rightarrow> Inl BadScheme
          | Some sch \<Rightarrow>
              if u_host u = [] then Inl NoHost
              else
                let u = u\<lparr>u_scheme := sch\<rparr>;
                    u = (if u_path u = [] \<or> u_path u = ''/'' then u\<lparr>u_path := StreamPath\<rparr> else u)
                in if rg_from rng = max_u32 \<or> (rg_bounded rng \<and> rg_to rng = max_u32) then Inl ReachesLast
                else
                  let q = (u_query u)(''start'' := None, ''end'' := None);
                      q = q(''start'' \<mapsto> [format_uint (unat (rg_from rng))])
                  in if rg_bounded rng then
                       (if rg_to rng < rg_from rng then Inl RangeBackwards
                        else Inr (u\<lparr>u_query := q(''end'' \<mapsto> [format_uint (unat (rg_to rng))])\<rparr>))
                     else Inr (u\<lparr>u_query := q\<rparr>))"

text \<open>
  \<^verbatim>\<open>RawLedgers\<close>: the yields of a subscription. \<open>dial\<close> is the handshake, \<open>mk\<close> the decoder's
  constructor; the incoming messages are those of the connection it opens.
\<close>

definition RawLedgers :: "(string \<Rightarrow> url option) \<Rightarrow> (url \<Rightarrow> incoming list option) \<Rightarrow> (int \<Rightarrow> decoder option)
    \<Rightarrow> client_cfg \<Rightarrow> string \<Rightarrow> ledger_range \<Rightarrow> yielded list" where
  "RawLedgers parse dial mk cfg rawURL rng =
     (case endpoint parse rawURL rng of
        Inl e \<Rightarrow> [Failure (EndpointFailed e)]
      | Inr u \<Rightarrow>
          (case dial u of
             None \<Rightarrow> [Failure DialFailed]
           | Some is \<Rightarrow>
               (case newDecoder mk (cc_max_chunk cfg) of
                  None \<Rightarrow> [Failure DecoderFailed]
                | Some dec \<Rightarrow> cl_yields (client_run (cfg\<lparr>cc_dec := dec\<rparr>) rng is))))"

section \<open>What any peer can make the client do\<close>

text \<open>
  Whatever arrives, the client only hands up ledgers it verified, in sequence. The invariant
  ties the yields, the tracker and the assembly together: \<open>qs\<close> are the sequences delivered.
\<close>

definition consecutive :: "u32 list \<Rightarrow> bool" where
  "consecutive qs \<longleftrightarrow> (\<forall>i. Suc i < length qs \<longrightarrow> qs ! i \<noteq> max_u32 \<and> qs ! Suc i = qs ! i + 1)"

lemma consecutive_simps [simp]: "consecutive []" "consecutive [q]"
  by (simp_all add: consecutive_def)

lemma consecutive_snoc:
  "consecutive (qs @ [q]) \<longleftrightarrow> consecutive qs \<and> (qs = [] \<or> last qs \<noteq> max_u32 \<and> q = last qs + 1)"
proof (cases qs rule: rev_cases)
  case (snoc rs r)
  then show ?thesis
    by (auto simp: consecutive_def nth_append less_Suc_eq all_conj_distrib)
qed (simp add: consecutive_def)

fun ledgers_of :: "yielded list \<Rightarrow> bytes list" where
  "ledgers_of [] = []"
| "ledgers_of (Ledger b # ys) = b # ledgers_of ys"
| "ledgers_of (Failure e # ys) = ledgers_of ys"

lemma ledgers_of_append [simp]: "ledgers_of (ys @ zs) = ledgers_of ys @ ledgers_of zs"
  by (induction ys rule: ledgers_of.induct) auto

text \<open>No failure is ever followed by anything.\<close>

definition failure_last :: "client \<Rightarrow> bool" where
  "failure_last c \<longleftrightarrow> (\<forall>y \<in> set (butlast (cl_yields c)). \<exists>b. y = Ledger b) \<and>
     (cl_status c = Running \<longrightarrow> (\<forall>y \<in> set (cl_yields c). \<exists>b. y = Ledger b))"

definition tracks :: "ledger_range \<Rightarrow> u32 list \<Rightarrow> seq_tracker \<Rightarrow> bool" where
  "tracks rng qs t \<longleftrightarrow> consecutive qs \<and>
     (if qs = [] then t = \<lparr>tr_expected = rg_from rng, tr_exhausted = False\<rparr>
      else (rg_from rng = 0 \<or> hd qs = rg_from rng) \<and> t = track_advance t (last qs))"

definition client_inv :: "client_cfg \<Rightarrow> ledger_range \<Rightarrow> client \<Rightarrow> bool" where
  "client_inv cfg rng c \<longleftrightarrow>
     (\<exists>qs. length qs = length (ledgers_of (cl_yields c)) \<and> tracks rng qs (cl_track c) \<and>
        (cc_observe cfg \<longrightarrow> map li_sequence (cl_infos c) = qs \<and>
           map li_size (cl_infos c) = map length (ledgers_of (cl_yields c))) \<and>
        (cl_active c \<longrightarrow> track_accept (cl_track c) (cl_seq c) = None)) \<and>
     failure_last c \<and>
     (cl_status c = Running \<longrightarrow> cc_max_payload cfg \<ge> 0 \<longrightarrow> int (length (cl_buf c)) \<le> cc_max_payload cfg) \<and>
     (\<forall>b \<in> set (ledgers_of (cl_yields c)). cc_max_payload cfg \<ge> 0 \<longrightarrow> int (length b) \<le> cc_max_payload cfg) \<and>
     (cl_status c = Running \<longrightarrow> cl_hashed c = cl_buf c)"

lemma new_client_inv [simp]: "client_inv cfg rng (new_client rng)"
  by (auto simp: client_inv_def new_client_def tracks_def failure_last_def)

lemma tracks_accept:
  assumes "tracks rng qs t" "track_accept t q = None"
  shows "tracks rng (qs @ [q]) (track_advance t' q)"
proof (cases "qs = []")
  case True
  with assms show ?thesis
    by (auto simp: tracks_def track_accept_def track_advance_def split: if_splits)
next
  case False
  then have t: "t = \<lparr>tr_expected = last qs + 1, tr_exhausted = (last qs = max_u32)\<rparr>"
    using assms(1) by (simp add: tracks_def track_advance_def)
  with assms(2) have notmax: "last qs \<noteq> max_u32"
    by (auto simp: track_accept_def)
  then have "unat (last qs + 1) = Suc (unat (last qs))"
    by (rule unat_u32_Suc)
  then have "last qs + 1 \<noteq> 0"
    by (metis unat_0 Zero_not_Suc)
  with t assms(2) have "q = last qs + 1"
    by (auto simp: track_accept_def split: if_splits)
  with False notmax assms(1) show ?thesis
    by (auto simp: tracks_def track_advance_def consecutive_snoc)
qed

lemma client_fail_inv: "client_inv cfg rng c \<Longrightarrow> cl_status c = Running \<Longrightarrow> client_inv cfg rng (client_fail e c)"
  by (auto simp: client_inv_def client_fail_def failure_last_def)

lemma client_fail_buf: "client_fail e (c\<lparr>cl_buf := b\<rparr>) = (client_fail e c)\<lparr>cl_buf := b\<rparr>"
  by (simp add: client_fail_def)

lemma stopped_buf_inv:
  "cl_status c \<noteq> Running \<Longrightarrow> client_inv cfg rng (c\<lparr>cl_buf := b\<rparr>) = client_inv cfg rng c"
  by (simp add: client_inv_def failure_last_def)

lemma client_begin_inv:
  "client_inv cfg rng c \<Longrightarrow> cl_status c = Running \<Longrightarrow> client_inv cfg rng (client_begin c m)"
  by (auto simp: client_begin_def Let_def client_fail_inv split: option.splits)
    (auto simp: client_inv_def failure_last_def)

lemma appendChunkPayload_prefix:
  "appendChunkPayload dec dst payload codec = Some raw \<Longrightarrow> \<exists>p. raw = dst @ p"
  by (auto simp: appendChunkPayload_def split: if_splits)

lemma client_chunk_inv:
  assumes "client_inv cfg rng c" "cl_status c = Running"
  shows "client_inv cfg rng (client_chunk cfg c m)"
proof -
  note fail = client_fail_inv [OF assms]
  have "client_inv cfg rng (client_fail e (c\<lparr>cl_buf := raw\<rparr>))" for e raw
    using fail unfolding client_fail_buf
    by (subst stopped_buf_inv) (auto simp: client_fail_def)
  with fail assms show ?thesis
    by (auto simp: client_chunk_def Let_def dest!: appendChunkPayload_prefix split: option.splits)
      (auto simp: client_inv_def failure_last_def)
qed

lemma deliver_frame:
  "cl_yields (deliver cfg rng sq c) = cl_yields c @ [Ledger (cl_buf c)]"
  "cl_infos (deliver cfg rng sq c) = cl_infos c" "cl_track (deliver cfg rng sq c) = cl_track c"
  "cl_active (deliver cfg rng sq c) = cl_active c" "cl_buf (deliver cfg rng sq c) = cl_buf c"
  "cl_hashed (deliver cfg rng sq c) = cl_hashed c" "cl_seq (deliver cfg rng sq c) = cl_seq c"
  by (simp_all add: deliver_def Let_def)

text \<open>A verified END: what makes the client deliver.\<close>

definition end_matches :: "client_cfg \<Rightarrow> client \<Rightarrow> message \<Rightarrow> bool" where
  "end_matches cfg c m \<longleftrightarrow> cl_active c \<and> m_seq m = cl_seq c \<and> m_chunk_count m = cl_chunks c \<and>
     m_total_len m = word_of_nat (length (cl_buf c)) \<and> m_checksum m = cc_sum cfg (cl_hashed c)"

lemma client_end_cases:
  "(end_matches cfg c m \<longrightarrow> cl_yields (client_end cfg rng c m) = cl_yields c @ [Ledger (cl_buf c)]) \<and>
   (\<not> end_matches cfg c m \<longrightarrow> (\<exists>e. client_end cfg rng c m = client_fail (ErrProtocol e) c))"
  by (auto simp: client_end_def end_matches_def Let_def deliver_frame)

lemma client_end_inv:
  assumes inv: "client_inv cfg rng c" and run: "cl_status c = Running"
  shows "client_inv cfg rng (client_end cfg rng c m)"
proof (cases "end_matches cfg c m")
  case False
  then show ?thesis
    using client_end_cases [of cfg c m rng] client_fail_inv [OF assms] by auto
next
  case True
  let ?c = "client_end cfg rng c m"
  from inv obtain qs where qs: "length qs = length (ledgers_of (cl_yields c))" "tracks rng qs (cl_track c)"
      "cc_observe cfg \<longrightarrow> map li_sequence (cl_infos c) = qs \<and>
         map li_size (cl_infos c) = map length (ledgers_of (cl_yields c))"
      "track_accept (cl_track c) (cl_seq c) = None"
    using True by (auto simp: client_inv_def end_matches_def)
  have track: "tracks rng (qs @ [cl_seq c]) (track_advance (cl_track c) (cl_seq c))"
    by (rule tracks_accept [OF qs(2,4)])
  have fields: "cl_track ?c = track_advance (cl_track c) (cl_seq c)" "\<not> cl_active ?c"
      "cl_yields ?c = cl_yields c @ [Ledger (cl_buf c)]" "cl_buf ?c = cl_buf c" "cl_hashed ?c = cl_hashed c"
      "cc_observe cfg \<longrightarrow> map li_sequence (cl_infos ?c) = map li_sequence (cl_infos c) @ [cl_seq c] \<and>
         map li_size (cl_infos ?c) = map li_size (cl_infos c) @ [length (cl_buf c)]"
    using True by (auto simp: client_end_def end_matches_def Let_def deliver_frame)
  show ?thesis
    unfolding client_inv_def fields
  proof (intro conjI exI [of _ "qs @ [cl_seq c]"])
    show "failure_last ?c"
      using inv run by (auto simp: client_inv_def failure_last_def fields)
  qed (use inv run qs track fields in \<open>auto simp: client_inv_def\<close>)
qed

lemma client_closed_inv:
  "client_inv cfg rng c \<Longrightarrow> cl_status c = Running \<Longrightarrow> client_inv cfg rng (client_closed rng c e)"
  by (auto simp: client_closed_def client_fail_inv split: prod.splits bool.splits option.splits)
    (auto simp: client_inv_def failure_last_def)

lemma client_feed_inv: "client_inv cfg rng c \<Longrightarrow> client_inv cfg rng (client_feed cfg rng c i)"
  by (auto simp: client_feed_def client_message_def client_closed_inv client_fail_inv client_begin_inv
      client_chunk_inv client_end_inv split: sum.splits)

lemma client_run_inv: "client_inv cfg rng (client_run cfg rng is)"
proof -
  have "client_inv cfg rng c \<Longrightarrow> client_inv cfg rng (foldl (client_feed cfg rng) c is)" for c
    by (induction "is" arbitrary: c) (auto intro: client_feed_inv)
  then show ?thesis by (simp add: client_run_def)
qed

section \<open>A bounded range never ends quietly short\<close>

definition quiet :: "client \<Rightarrow> bool" where
  "quiet c \<longleftrightarrow> (\<forall>y \<in> set (cl_yields c). \<exists>b. y = Ledger b)"

lemma quiet_fail [simp]: "\<not> quiet (client_fail e c)"
  by (simp add: quiet_def client_fail_def)

text \<open>Between messages of a bounded subscription: how far it is, and that it stopped only at its end.\<close>

definition range_inv :: "ledger_range \<Rightarrow> client \<Rightarrow> bool" where
  "range_inv rng c \<longleftrightarrow> quiet c \<longrightarrow>
     unat (rg_from rng) + length (ledgers_of (cl_yields c)) = unat (tr_expected (cl_track c)) \<and>
     rg_from rng \<le> tr_expected (cl_track c) \<and>
     (if cl_status c = Running then tr_expected (cl_track c) \<le> rg_to rng \<and> \<not> tr_exhausted (cl_track c) \<and>
        (cl_active c \<longrightarrow> cl_seq c = tr_expected (cl_track c))
      else tr_expected (cl_track c) = rg_to rng + 1)"

definition whole_range :: "client_cfg \<Rightarrow> ledger_range \<Rightarrow> bool" where
  "whole_range cfg rng \<longleftrightarrow> (\<forall>k. cc_keep cfg k) \<and> rg_bounded rng \<and> rg_from rng \<noteq> 0 \<and>
     rg_from rng \<le> rg_to rng \<and> rg_to rng \<noteq> max_u32"

lemma range_inv_fail [simp]: "range_inv rng (client_fail e c)"
  by (simp add: range_inv_def)

lemma range_inv_loud: "\<not> quiet c \<Longrightarrow> range_inv rng c"
  by (simp add: range_inv_def)

text \<open>A message that delivers nothing moves nothing of this.\<close>

lemma range_inv_frame:
  assumes "range_inv rng c" "cl_status c = Running"
    and "cl_yields c' = cl_yields c" "cl_track c' = cl_track c" "cl_status c' = Running"
    and "cl_active c' \<Longrightarrow> quiet c \<Longrightarrow> cl_seq c' = tr_expected (cl_track c)"
  shows "range_inv rng c'"
  using assms by (simp add: range_inv_def quiet_def)

lemma range_inv_begin:
  assumes whole: "whole_range cfg rng" and inv: "range_inv rng c" and run: "cl_status c = Running"
  shows "range_inv rng (client_begin c m)"
proof -
  have "tr_expected (cl_track c) \<noteq> 0" if "quiet c"
    using whole inv that by (auto simp: whole_range_def range_inv_def dest: word_le_0_iff [THEN iffD1])
  then show ?thesis
    using inv run
    by (auto simp: client_begin_def Let_def track_accept_def split: if_splits option.splits
        intro!: range_inv_frame [OF inv run]) (auto simp: range_inv_def)
qed

lemma range_inv_chunk:
  assumes inv: "range_inv rng c" and run: "cl_status c = Running"
  shows "range_inv rng (client_chunk cfg c m)"
  using inv run
  by (auto simp: client_chunk_def Let_def split: option.splits intro!: range_inv_frame [OF inv run])
    (auto simp: range_inv_def)

lemma range_inv_end:
  assumes whole: "whole_range cfg rng" and inv: "range_inv rng c" and run: "cl_status c = Running"
  shows "range_inv rng (client_end cfg rng c m)"
proof (cases "end_matches cfg c m")
  case False
  then obtain e where "client_end cfg rng c m = client_fail (ErrProtocol e) c"
    using client_end_cases [of cfg c m rng] by blast
  then show ?thesis by simp
next
  case match: True
  let ?c = "client_end cfg rng c m" and ?x = "tr_expected (cl_track c)"
  have yields: "cl_yields ?c = cl_yields c @ [Ledger (cl_buf c)]"
    using match client_end_cases [of cfg c m rng] by blast
  show ?thesis
  proof (cases "quiet c")
    case False
    with yields have "\<not> quiet ?c" by (auto simp: quiet_def)
    then show ?thesis by (rule range_inv_loud)
  next
    case True
    with match inv run have at: "m_seq m = ?x" "?x \<le> rg_to rng" "rg_from rng \<le> ?x"
        "unat (rg_from rng) + length (ledgers_of (cl_yields c)) = unat ?x"
      by (auto simp: range_inv_def end_matches_def)
    have "?x \<noteq> max_u32"
      using at(2) whole u32_less_not_max [of ?x "rg_to rng"]
      by (cases "?x = rg_to rng") (auto simp: whole_range_def)
    then have x1: "unat (?x + 1) = Suc (unat ?x)" "?x + 1 \<le> rg_to rng \<longleftrightarrow> ?x < rg_to rng"
        "rg_from rng \<le> ?x + 1"
      using at(3) by (simp_all add: unat_u32_Suc word_less_nat_alt word_le_nat_alt Suc_le_eq)
    have fields: "cl_track ?c = \<lparr>tr_expected = ?x + 1, tr_exhausted = False\<rparr>" "\<not> cl_active ?c"
      using match at(1) \<open>?x \<noteq> max_u32\<close>
      by (auto simp: client_end_def end_matches_def Let_def deliver_frame track_advance_def)
    have "cl_status ?c = (if ?x \<ge> rg_to rng then Stopped (Some ''range complete'') else Running)"
      using match at(1) run whole
      by (auto simp: client_end_def end_matches_def Let_def deliver_def whole_range_def)
    with at x1 yields fields show ?thesis
      by (auto simp: range_inv_def)
  qed
qed

lemma range_inv_closed:
  assumes whole: "whole_range cfg rng" and inv: "range_inv rng c" and run: "cl_status c = Running"
  shows "range_inv rng (client_closed rng c e)"
proof (cases "quiet c")
  case False
  then have "\<not> quiet (client_closed rng c e)"
    by (auto simp: client_closed_def quiet_def client_fail_def split: prod.splits bool.splits option.splits)
  then show ?thesis by (rule range_inv_loud)
next
  case True
  then have "truncated rng (tr_expected (cl_track c)) \<noteq> None"
    using whole inv run
    by (auto simp: truncated_def range_inv_def whole_range_def dest: word_le_0_iff [THEN iffD1])
  then show ?thesis
    by (auto simp: client_closed_def split: prod.splits bool.splits option.splits)
qed

lemma range_inv_feed:
  assumes "whole_range cfg rng" "range_inv rng c"
  shows "range_inv rng (client_feed cfg rng c i)"
  using range_inv_begin [OF assms] range_inv_chunk [OF assms(2)] range_inv_end [OF assms]
    range_inv_closed [OF assms] assms(2)
  by (auto simp: client_feed_def client_message_def split: sum.splits)

lemma range_inv_run:
  assumes "whole_range cfg rng"
  shows "range_inv rng (client_run cfg rng is)"
proof -
  have "range_inv rng c \<Longrightarrow> range_inv rng (foldl (client_feed cfg rng) c is)" for c
    by (induction "is" arbitrary: c) (auto intro: range_inv_feed [OF assms])
  moreover have "range_inv rng (new_client rng)"
    using assms by (auto simp: range_inv_def new_client_def whole_range_def)
  ultimately show ?thesis by (simp add: client_run_def)
qed

section \<open>Properties\<close>

text \<open>A client for the witnesses, and what it receives: ledger 7, the single byte 5.\<close>

definition one_client :: client_cfg where
  "one_client = \<lparr>cc_max_payload = 10, cc_max_chunk = 0, cc_dec = (\<lambda>_. None), cc_sum = (\<lambda>_. 9),
     cc_observe = True, cc_now = (\<lambda>_. 4), cc_keep = (\<lambda>_. True)\<rparr>"

definition seven :: ledger_range where
  "seven = \<lparr>rg_from = 7, rg_to = 7, rg_bounded = True\<rparr>"

definition open_seven :: "incoming list" where
  "open_seven = [Binary (AppendBegin [] 7 3), Binary (AppendChunk [] 7 0 CodecRaw [5])]"

lemma client_feed_fits:
  assumes "cl_status c = Running" "length m \<le> 100"
  shows "client_feed one_client rng c (Binary m) = client_message one_client rng c m"
  using assms by (simp add: client_feed_def readMessage_def one_client_def readLimit_def max_int64_def MaxChunkSize_def)

lemma one_client_open:
  "client_run one_client seven open_seven = (new_client seven)\<lparr>cl_active := True, cl_seq := 7, cl_emit_start := 3,
     cl_buf := [5], cl_chunks := 1, cl_hashed := [5]\<rparr>"
proof -
  let ?c0 = "new_client seven"
  let ?c1 = "?c0\<lparr>cl_active := True, cl_seq := 7, cl_emit_start := 3\<rparr>"
  have "client_feed one_client seven ?c0 (Binary (AppendBegin [] 7 3)) = ?c1"
    by (subst client_feed_fits)
      (simp_all add: client_message_def client_begin_def track_accept_def new_client_def seven_def)
  moreover have "client_feed one_client seven ?c1 (Binary (AppendChunk [] 7 0 CodecRaw [5])) =
      ?c1\<lparr>cl_buf := [5], cl_chunks := 1, cl_hashed := [5]\<rparr>"
    by (subst client_feed_fits)
      (simp_all add: client_message_def Decode_AppendChunk client_chunk_def appendChunkPayload_def new_client_def one_client_def)
  ultimately show ?thesis
    by (simp add: client_run_def open_seven_def)
qed

lemma one_client_end:
  "client_feed one_client seven (client_run one_client seven open_seven) (Binary (AppendEnd [] 7 1 1 3 9)) =
     client_end one_client seven (client_run one_client seven open_seven)
       (zero_message\<lparr>m_type := TypeEnd, m_seq := 7, m_chunk_count := 1, m_total_len := 1, m_emit_end := 3, m_checksum := 9\<rparr>)"
  by (subst client_feed_fits) (simp_all add: client_message_def one_client_open new_client_def)

lemma one_client_stop:
  "cl_yields (client_feed one_client seven (client_run one_client seven open_seven) (Binary (AppendEnd [] 7 1 1 3 9))) = [Ledger [5]]"
  "cl_status (client_feed one_client seven (client_run one_client seven open_seven) (Binary (AppendEnd [] 7 1 1 3 9)))
     = Stopped (Some ''range complete'')"
  unfolding one_client_end unfolding one_client_open
  by (simp_all add: client_end_def new_client_def deliver_def Let_def one_client_def seven_def)

text \<open>Only a verified END hands anything up.\<close>

definition settled :: "client \<Rightarrow> client \<Rightarrow> bool" where
  "settled c c' \<longleftrightarrow> cl_yields c' = cl_yields c \<or>
     (\<exists>e. cl_yields c' = cl_yields c @ [Failure e] \<and> cl_status c' = Stopped None)"

lemma settled_fail [simp]: "settled c (client_fail e (c\<lparr>cl_buf := b\<rparr>))" "settled c (client_fail e c)"
  by (auto simp: settled_def client_fail_def)

lemma settled_begin: "settled c (client_begin c m)"
  by (auto simp: client_begin_def Let_def split: option.splits) (auto simp: settled_def)

lemma settled_chunk: "settled c (client_chunk cfg c m)"
  by (auto simp: client_chunk_def Let_def split: option.splits) (auto simp: settled_def)

lemma settled_closed: "settled c (client_closed rng c e)"
  by (auto simp: client_closed_def split: prod.splits bool.splits option.splits) (auto simp: settled_def)

lemma client_feed_settled:
  assumes "cl_status c = Running"
  shows "settled c (client_feed cfg rng c i) \<or>
    (\<exists>msg m. i = Binary msg \<and> Decode msg = Inr m \<and> m_type m = TypeEnd \<and> end_matches cfg c m \<and>
       cl_yields (client_feed cfg rng c i) = cl_yields c @ [Ledger (cl_buf c)])"
proof (cases "readMessage (readLimit (cc_max_chunk cfg)) i")
  case (Inl e)
  with assms settled_closed show ?thesis by (simp add: client_feed_def)
next
  case (Inr msg)
  then have i: "i = Binary msg"
    by (auto simp: readMessage_def split: incoming.splits if_splits)
  have feed: "client_feed cfg rng c i = client_message cfg rng c msg"
    using assms Inr by (simp add: client_feed_def)
  show ?thesis
  proof (cases "\<exists>m. Decode msg = Inr m \<and> m_type m = TypeEnd \<and> end_matches cfg c m")
    case True
    then obtain m where m: "Decode msg = Inr m" "m_type m = TypeEnd" "end_matches cfg c m" by blast
    then have "client_feed cfg rng c i = client_end cfg rng c m"
      by (simp add: feed client_message_def type_codes_distinct)
    with i m show ?thesis
      using client_end_cases [of cfg c m rng] by auto
  next
    case False
    then have "settled c (client_end cfg rng c m)" if "Decode msg = Inr m" "m_type m = TypeEnd" for m
      using client_end_cases [of cfg c m rng] that by fastforce
    then have "settled c (client_message cfg rng c msg)"
      using settled_begin [of c] settled_chunk [of c cfg]
      by (auto simp: client_message_def split: sum.splits) (simp add: settled_def)
    then show ?thesis by (simp add: feed)
  qed
qed

text \<open>
  C12: nothing unverified is ever handed up. Whatever the peer sent before, one more read either
  yields nothing, ends the stream with a failure, or it is an END for the ledger being
  assembled whose chunk count, length and checksum are those of the very bytes yielded.
\<close>

theorem client_only_verified:
  assumes "c = client_run cfg rng is" "cl_status c = Running"
  shows "cl_yields (client_feed cfg rng c i) = cl_yields c \<or>
    (\<exists>e. cl_yields (client_feed cfg rng c i) = cl_yields c @ [Failure e] \<and>
       cl_status (client_feed cfg rng c i) = Stopped None) \<or>
    (\<exists>msg m b. i = Binary msg \<and> Decode msg = Inr m \<and> m_type m = TypeEnd \<and> cl_active c \<and> m_seq m = cl_seq c \<and>
       m_chunk_count m = cl_chunks c \<and> m_total_len m = word_of_nat (length b) \<and> m_checksum m = cc_sum cfg b \<and>
       cl_yields (client_feed cfg rng c i) = cl_yields c @ [Ledger b])"
proof -
  have "cl_hashed c = cl_buf c"
    using client_run_inv [of cfg rng "is"] assms by (simp add: client_inv_def)
  then show ?thesis
    using client_feed_settled [OF assms(2), of cfg rng i] unfolding settled_def end_matches_def by metis
qed

theorem client_only_verified_witness:
  "\<exists>b. cl_yields (client_feed one_client seven (client_run one_client seven open_seven) (Binary (AppendEnd [] 7 1 1 3 9)))
      = [Ledger b] \<and> cc_sum one_client b = 9 \<and> word_of_nat (length b) = (1 :: u64)"
  using client_only_verified [OF refl, of one_client seven open_seven "Binary (AppendEnd [] 7 1 1 3 9)"]
    one_client_stop
  by (auto simp: one_client_open new_client_def)

text \<open>
  C13: in sequence, whatever arrives. The ledgers handed up have consecutive sequences that begin
  at the range's start (any, for a subscription at the tip) and never pass the last
  representable one; none is over the payload cap; a failure is the last thing yielded; and
  the observer was told of exactly these ledgers.
\<close>

theorem client_in_sequence:
  "\<exists>qs. length qs = length (ledgers_of (cl_yields (client_run cfg rng is))) \<and> consecutive qs \<and>
     (qs \<noteq> [] \<longrightarrow> rg_from rng = 0 \<or> hd qs = rg_from rng) \<and>
     (cc_observe cfg \<longrightarrow> map li_sequence (cl_infos (client_run cfg rng is)) = qs \<and>
        map li_size (cl_infos (client_run cfg rng is)) = map length (ledgers_of (cl_yields (client_run cfg rng is)))) \<and>
     failure_last (client_run cfg rng is) \<and>
     (cc_max_payload cfg \<ge> 0 \<longrightarrow>
        (\<forall>b \<in> set (ledgers_of (cl_yields (client_run cfg rng is))). int (length b) \<le> cc_max_payload cfg))"
  using client_run_inv [of cfg rng "is"] unfolding client_inv_def tracks_def by (metis (full_types))

theorem client_in_sequence_witness:
  "failure_last (client_run one_client seven open_seven)"
  using client_in_sequence [of one_client seven open_seven] by blast

text \<open>
  C14: a bounded range never ends quietly short. However the connection ends, whatever it carried:
  a client of a bounded range whose consumer keeps pulling either has handed up every ledger
  of the range when it stops, or its last yield is a failure.
\<close>

theorem client_never_quietly_short:
  assumes "whole_range cfg rng" "cl_status (client_run cfg rng is) \<noteq> Running"
    and "\<forall>y \<in> set (cl_yields (client_run cfg rng is)). \<exists>b. y = Ledger b"
  shows "length (cl_yields (client_run cfg rng is)) = unat (rg_to rng) + 1 - unat (rg_from rng)"
proof -
  let ?c = "client_run cfg rng is"
  have "ledgers_of ys = map (\<lambda>y. case y of Ledger b \<Rightarrow> b) ys" if "\<forall>y \<in> set ys. \<exists>b. y = Ledger b" for ys
    using that by (induction ys rule: ledgers_of.induct) auto
  then have len: "length (ledgers_of (cl_yields ?c)) = length (cl_yields ?c)"
    using assms(3) by simp
  have "unat (rg_from rng) + length (cl_yields ?c) = unat (rg_to rng + 1)"
    using range_inv_run [OF assms(1), of "is"] assms(2,3) len by (auto simp: range_inv_def quiet_def)
  moreover have "unat (rg_to rng + 1) = unat (rg_to rng) + 1"
    using assms(1) unat_u32_Suc [of "rg_to rng"] by (simp add: whole_range_def)
  ultimately show ?thesis by simp
qed

theorem client_never_quietly_short_witness:
  "length (cl_yields (client_run one_client seven (open_seven @ [Binary (AppendEnd [] 7 1 1 3 9)])))
     = unat (rg_to seven) + 1 - unat (rg_from seven)"
proof -
  have "whole_range one_client seven"
    by (simp add: whole_range_def one_client_def seven_def)
  from client_never_quietly_short [OF this, of "open_seven @ [Binary (AppendEnd [] 7 1 1 3 9)]"] one_client_stop
  show ?thesis
    by (simp add: client_run_def)
qed

text \<open>
  The read limit never turns into the library's spelling of no limit, except for the negative
  cap that asks for it: it fits in an int64 even after the library's increment, admits a whole
  chunk of the configured size (or of the largest the server can be configured for) and the
  END message.
\<close>

theorem read_limit_saturates:
  "(readLimit n < 0 \<longleftrightarrow> n < 0) \<and> readLimit n + 1 \<le> max_int64 \<and>
   (0 \<le> n \<longrightarrow> int EndSize \<le> readLimit n \<and>
      min (max_int64 - 1) ((if n = 0 then MaxChunkSize else n) + int ChunkHeaderSize) \<le> readLimit n)"
  by (auto simp: readLimit_def max_int64_def Let_def MaxChunkSize_def)

theorem read_limit_saturates_witness: "readLimit (2 ^ 63 - 1) + 1 \<le> max_int64"
  using read_limit_saturates by blast

end
