(* ===== verification/Protocol.thy ===== *)
theory Protocol
  imports Client Compress
begin

text \<open>
  The stream protocol between the two ends, as a specification: \<open>served\<close> are the message
  sequences a subscription may consist of. Every ledger from \<open>start\<close> on is announced by
  BEGIN, carried by its chunks in order and closed by END; an announced ledger may be begun
  again from its first chunk before it is closed. The server's theory shows its subscribers
  only write such sequences; the lemmas here show that a client fed with one hands up exactly
  the ledgers closed so far, whatever was begun again.

  The codecs are outside the repository. What the pair must satisfy is \<open>codec_ok\<close>: a frame
  of a payload that fits the decoder's memory limit decodes to the payload.
\<close>

section \<open>What the server may send\<close>

datatype cursor = Between nat | Within nat "bytes list"

text \<open>A chunk message that carries the payload \<open>p\<close>, verbatim or compressed.\<close>

definition carries :: "decoder \<Rightarrow> u32 \<Rightarrow> u32 \<Rightarrow> bytes \<Rightarrow> bytes \<Rightarrow> bool" where
  "carries dec sq idx p m \<longleftrightarrow>
     m = AppendChunk [] sq idx CodecRaw p \<or>
     (\<exists>x. m = AppendChunk [] sq idx CodecZstd x \<and> dec x = Some p)"

inductive served :: "decoder \<Rightarrow> (bytes \<Rightarrow> u64) \<Rightarrow> (u32 \<Rightarrow> bytes) \<Rightarrow> nat \<Rightarrow> nat \<Rightarrow> bytes list \<Rightarrow> cursor \<Rightarrow> bool"
  for dec sum64 L lim start where
  sv_start: "served dec sum64 L lim start [] (Between start)"
| sv_begin: "served dec sum64 L lim start msgs (Between n) \<Longrightarrow> n < 2 ^ 32 \<Longrightarrow>
    served dec sum64 L lim start (msgs @ [AppendBegin [] (word_of_nat n) t]) (Within n [])"
| sv_again: "served dec sum64 L lim start msgs (Within n parts) \<Longrightarrow>
    served dec sum64 L lim start (msgs @ [AppendBegin [] (word_of_nat n) t]) (Within n [])"
| sv_chunk: "served dec sum64 L lim start msgs (Within n parts) \<Longrightarrow>
    carries dec (word_of_nat n) (word_of_nat (length parts)) p m \<Longrightarrow> length m \<le> ChunkHeaderSize + lim \<Longrightarrow>
    prefix (concat parts @ p) (L (word_of_nat n)) \<Longrightarrow>
    served dec sum64 L lim start (msgs @ [m]) (Within n (parts @ [p]))"
| sv_end: "served dec sum64 L lim start msgs (Within n parts) \<Longrightarrow> concat parts = L (word_of_nat n) \<Longrightarrow>
    served dec sum64 L lim start
      (msgs @ [AppendEnd [] (word_of_nat n) (word_of_nat (length parts))
         (word_of_nat (length (L (word_of_nat n)))) t (sum64 (L (word_of_nat n)))])
      (Between (n + 1))"

inductive_cases served_betweenE: "served dec sum64 L lim start msgs (Between n)"
inductive_cases served_withinE: "served dec sum64 L lim start msgs (Within n parts)"

fun cursor_ledger :: "cursor \<Rightarrow> nat" where
  "cursor_ledger (Between n) = n"
| "cursor_ledger (Within n parts) = n"

lemma served_ledger:
  "served dec sum64 L lim start msgs cur \<Longrightarrow> start \<le> cursor_ledger cur \<and>
     (\<forall>n parts. cur = Within n parts \<longrightarrow> n < 2 ^ 32) \<and> (\<forall>n. cur = Between n \<longrightarrow> n = start \<or> n \<le> 2 ^ 32)"
  by (induction rule: served.induct) auto

section \<open>The client on a served stream\<close>

text \<open>The limits of a client that can take the stream: every message, every ledger.\<close>

definition accepts_stream :: "client_cfg \<Rightarrow> ledger_range \<Rightarrow> (u32 \<Rightarrow> bytes) \<Rightarrow> nat \<Rightarrow> nat \<Rightarrow> bool" where
  "accepts_stream cfg rng L lim start \<longleftrightarrow>
     0 < start \<and> (rg_from rng = 0 \<or> unat (rg_from rng) = start) \<and> (\<forall>k. cc_keep cfg k) \<and>
     (readLimit (cc_max_chunk cfg) \<ge> 0 \<longrightarrow> int (ChunkHeaderSize + lim) \<le> readLimit (cc_max_chunk cfg)) \<and>
     (cc_max_payload cfg \<ge> 0 \<longrightarrow> (\<forall>q. int (length (L q)) \<le> cc_max_payload cfg))"

text \<open>The subscription does not run past a bounded range.\<close>

fun in_range :: "ledger_range \<Rightarrow> nat \<Rightarrow> cursor \<Rightarrow> bool" where
  "in_range rng start (Between n) \<longleftrightarrow> (rg_bounded rng \<longrightarrow> n = start \<or> n \<le> unat (rg_to rng) + 1)"
| "in_range rng start (Within n parts) \<longleftrightarrow> (rg_bounded rng \<longrightarrow> n \<le> unat (rg_to rng))"

definition track_at :: "ledger_range \<Rightarrow> nat \<Rightarrow> nat \<Rightarrow> seq_tracker \<Rightarrow> bool" where
  "track_at rng start n t \<longleftrightarrow>
     (if n = start then t = \<lparr>tr_expected = rg_from rng, tr_exhausted = False\<rparr>
      else t = \<lparr>tr_expected = word_of_nat n, tr_exhausted = (n = 2 ^ 32)\<rparr>)"

definition delivered :: "(u32 \<Rightarrow> bytes) \<Rightarrow> nat \<Rightarrow> nat \<Rightarrow> yielded list" where
  "delivered L start n = map (\<lambda>k. Ledger (L (word_of_nat k))) [start..<n]"

fun client_at :: "ledger_range \<Rightarrow> (u32 \<Rightarrow> bytes) \<Rightarrow> nat \<Rightarrow> client \<Rightarrow> cursor \<Rightarrow> bool" where
  "client_at rng L start c (Between n) \<longleftrightarrow>
     \<not> cl_active c \<and> track_at rng start n (cl_track c) \<and> cl_yields c = delivered L start n \<and>
     cl_status c = (if rg_bounded rng \<and> start < n \<and> unat (rg_to rng) < n
                    then Stopped (Some ''range complete'') else Running)"
| "client_at rng L start c (Within n parts) \<longleftrightarrow>
     cl_active c \<and> track_at rng start n (cl_track c) \<and> cl_yields c = delivered L start n \<and>
     cl_status c = Running \<and> cl_seq c = word_of_nat n \<and> cl_buf c = concat parts \<and>
     cl_chunks c = word_of_nat (length parts) \<and> cl_hashed c = concat parts"

lemma delivered_Suc: "start \<le> n \<Longrightarrow> delivered L start (Suc n) = delivered L start n @ [Ledger (L (word_of_nat n))]"
  by (simp add: delivered_def)

lemma readLimit_end: "readLimit n \<ge> 0 \<Longrightarrow> int EndSize \<le> readLimit n"
  by (auto simp: readLimit_def max_int64_def Let_def split: if_splits)

lemma readMessage_fits:
  "(readLimit (cc_max_chunk cfg) \<ge> 0 \<Longrightarrow> int (length m) \<le> readLimit (cc_max_chunk cfg)) \<Longrightarrow>
     readMessage (readLimit (cc_max_chunk cfg)) (Binary m) = Inr m"
  by (auto simp: readMessage_def)

lemma client_run_snoc: "client_run cfg rng (is @ [i]) = client_feed cfg rng (client_run cfg rng is) i"
  by (simp add: client_run_def)

lemma client_feed_message:
  assumes "cl_status c = Running" "readLimit (cc_max_chunk cfg) \<ge> 0 \<Longrightarrow> int (length m) \<le> readLimit (cc_max_chunk cfg)"
  shows "client_feed cfg rng c (Binary m) = client_message cfg rng c m"
  using assms by (simp add: client_feed_def readMessage_fits)

lemma client_feed_begin:
  assumes "cl_status c = Running"
  shows "client_feed cfg rng c (Binary (AppendBegin [] sq t)) =
    client_begin c (zero_message\<lparr>m_type := TypeBegin, m_seq := sq, m_emit_start := t\<rparr>)"
  using readLimit_end [of "cc_max_chunk cfg"] assms
  by (subst client_feed_message) (auto simp: client_message_def)

lemma track_at_accept:
  "track_at rng start n t \<Longrightarrow> n < 2 ^ 32 \<Longrightarrow> rg_from rng = 0 \<or> unat (rg_from rng) = start \<Longrightarrow>
     track_accept t (word_of_nat n) = None"
  by (auto simp: track_at_def track_accept_def split: if_splits)

lemma track_at_advance:
  assumes "n < 2 ^ 32" "start \<le> n"
  shows "track_at rng start (n + 1) (track_advance t (word_of_nat n))"
proof -
  have "word_of_nat n = max_u32 \<longleftrightarrow> n + 1 = 2 ^ 32"
    using assms(1) unat_u32_max_iff [of "word_of_nat n"] by (auto simp: unat_of_nat_u32)
  then show ?thesis
    using assms(2) by (simp add: track_at_def track_advance_def)
qed

text \<open>Each message moves the client along with the protocol's cursor.\<close>

lemma client_at_begin:
  assumes "client_at rng L start c (Between n)" "accepts_stream cfg rng L lim start"
    and "n < 2 ^ 32" "in_range rng start (Within n [])"
  shows "client_at rng L start (client_feed cfg rng c (Binary (AppendBegin [] (word_of_nat n) t))) (Within n [])"
proof -
  have run: "cl_status c = Running"
    using assms(1,4) by auto
  have "track_accept (cl_track c) (word_of_nat n) = None"
    using assms(1-3) track_at_accept [of rng start n "cl_track c"] by (auto simp: accepts_stream_def)
  then show ?thesis
    using assms(1) run by (simp add: client_feed_begin [OF run] client_begin_def)
qed

lemma client_at_again:
  assumes "client_at rng L start c (Within n parts)"
  shows "client_at rng L start (client_feed cfg rng c (Binary (AppendBegin [] (word_of_nat n) t))) (Within n [])"
proof -
  have run: "cl_status c = Running"
    using assms(1) by auto
  show ?thesis
    using assms(1) run by (simp add: client_feed_begin [OF run] client_begin_def Let_def)
qed

lemma client_at_chunk:
  assumes at: "client_at rng L start c (Within n parts)" and acc: "accepts_stream cfg rng L lim start"
    and m: "carries (cc_dec cfg) (word_of_nat n) (word_of_nat (length parts)) p m" "length m \<le> ChunkHeaderSize + lim"
    and p: "prefix (concat parts @ p) (L (word_of_nat n))"
  shows "client_at rng L start (client_feed cfg rng c (Binary m)) (Within n (parts @ [p]))"
proof -
  have run: "cl_status c = Running"
    using at by auto
  have lim: "int (length m) \<le> readLimit (cc_max_chunk cfg)" if "readLimit (cc_max_chunk cfg) \<ge> 0"
    using m(2) acc that by (auto simp: accepts_stream_def)
  obtain codec x where msg: "m = AppendChunk [] (word_of_nat n) (word_of_nat (length parts)) codec x"
    "codec = CodecRaw \<or> codec = CodecZstd" and app: "appendChunkPayload (cc_dec cfg) (cl_buf c) x codec = Some (cl_buf c @ p)"
    using m(1) by (auto simp: carries_def appendChunkPayload_def)
  have "int (length (concat parts @ p)) \<le> cc_max_payload cfg" if "cc_max_payload cfg \<ge> 0"
  proof -
    have "int (length (L (word_of_nat n))) \<le> cc_max_payload cfg"
      using acc that by (simp add: accepts_stream_def)
    with prefix_length_le [OF p] show ?thesis by linarith
  qed
  then have "\<not> (cc_max_payload cfg \<ge> 0 \<and> int (length (concat parts @ p)) > cc_max_payload cfg)"
    by auto
  moreover have "client_feed cfg rng c (Binary m) = client_chunk cfg c
      (zero_message\<lparr>m_type := TypeChunk, m_seq := word_of_nat n, m_chunk_index := word_of_nat (length parts),
         m_codec := codec, m_payload := x\<rparr>)"
    using client_feed_message [of c cfg m rng] run lim
    by (simp add: client_message_def msg(1) Decode_AppendChunk [OF msg(2)])
  ultimately show ?thesis
    using at app by (auto simp: client_chunk_def Let_def)
qed

lemma client_at_end:
  assumes at: "client_at rng L start c (Within n parts)" and acc: "accepts_stream cfg rng L lim start"
    and full: "concat parts = L (word_of_nat n)" and n: "n < 2 ^ 32" "start \<le> n" and rng: "in_range rng start (Within n parts)"
  shows "client_at rng L start (client_feed cfg rng c
      (Binary (AppendEnd [] (word_of_nat n) (word_of_nat (length parts))
         (word_of_nat (length (L (word_of_nat n)))) t (cc_sum cfg (L (word_of_nat n)))))) (Between (n + 1))"
    (is "client_at rng L start (client_feed cfg rng c (Binary ?m)) _")
proof -
  have run: "cl_status c = Running"
    using at by auto
  have lim: "int (length ?m) \<le> readLimit (cc_max_chunk cfg)" if "readLimit (cc_max_chunk cfg) \<ge> 0"
    using readLimit_end [OF that] by simp
  let ?d = "zero_message\<lparr>m_type := TypeEnd, m_seq := word_of_nat n, m_chunk_count := word_of_nat (length parts),
      m_total_len := word_of_nat (length (L (word_of_nat n))), m_emit_end := t,
      m_checksum := cc_sum cfg (L (word_of_nat n))\<rparr>"
  have feed: "client_feed cfg rng c (Binary ?m) = client_end cfg rng c ?d"
    using client_feed_message [of c cfg ?m rng] run lim by (simp add: client_message_def)
  have match: "end_matches cfg c ?d"
    using at full by (simp add: end_matches_def)
  have "(rg_to rng \<le> word_of_nat n) \<longleftrightarrow> unat (rg_to rng) < n + 1"
    using n(1) by (auto simp: word_le_nat_alt unat_of_nat_u32)
  then have "cl_status (client_end cfg rng c ?d) =
      (if rg_bounded rng \<and> unat (rg_to rng) < n + 1 then Stopped (Some ''range complete'') else Running)"
    using match run acc by (auto simp: client_end_def end_matches_def Let_def deliver_def accepts_stream_def)
  moreover have "cl_track (client_end cfg rng c ?d) = track_advance (cl_track c) (word_of_nat n)"
    "\<not> cl_active (client_end cfg rng c ?d)"
    using match by (auto simp: client_end_def end_matches_def Let_def deliver_frame)
  moreover have "cl_yields (client_end cfg rng c ?d) = delivered L start (n + 1)"
    using client_end_cases [of cfg c ?d rng] match at full n(2) by (simp add: delivered_Suc)
  ultimately show ?thesis
    using track_at_advance [OF n, of rng "cl_track c"] n(2) by (simp add: feed)
qed

lemma served_client:
  "served (cc_dec cfg) (cc_sum cfg) L lim start msgs cur \<Longrightarrow> accepts_stream cfg rng L lim start \<Longrightarrow>
   in_range rng start cur \<Longrightarrow> client_at rng L start (client_run cfg rng (map Binary msgs)) cur"
proof (induction rule: served.induct)
  case sv_start
  then show ?case
    by (simp add: client_run_def new_client_def track_at_def delivered_def)
next
  case (sv_begin msgs n t)
  then show ?case
    by (auto simp: client_run_snoc intro!: client_at_begin simp del: client_at.simps)
next
  case (sv_again msgs n parts t)
  then show ?case
    by (auto simp: client_run_snoc intro!: client_at_again simp del: client_at.simps)
next
  case (sv_chunk msgs n parts p m)
  then show ?case
    by (auto simp: client_run_snoc intro!: client_at_chunk simp del: client_at.simps)
next
  case (sv_end msgs n parts t)
  have n: "n < 2 ^ 32" "start \<le> n"
    using served_ledger [OF sv_end(1)] by auto
  with sv_end have rng: "in_range rng start (Within n parts)" by auto
  from client_at_end [OF sv_end(3) [OF sv_end(4) rng] sv_end(4,2) n rng]
  show ?case
    unfolding map_append list.map client_run_snoc .
qed

end
