(* ===== verification/Session.thy ===== *)
theory Session
  imports Source_Calm Serve Protocol
begin

text \<open>
  A subscriber of \<^verbatim>\<open>internal/server\<close> among the server's other goroutines: the system whose
  steps are the source's next event, one shared access of \<^verbatim>\<open>serve\<close>, and the connection
  breaking, in any order. The lemmas show that whatever the interleaving, the messages
  written to the connection are a sequence the protocol allows (theory \<open>Protocol\<close>), that
  the branch of the code that dereferences the pinned flow never meets nil, and that the
  cursor stays within the requested range.
\<close>

section \<open>Messages the server has at hand\<close>

text \<open>
  The codecs' contract: a frame that the encoder made of a payload within the limit decodes
  to the payload.
\<close>

definition codec_ok :: "encoder option \<Rightarrow> decoder \<Rightarrow> nat \<Rightarrow> bool" where
  "codec_ok enc dec lim \<longleftrightarrow> (\<forall>e x. enc = Some e \<longrightarrow> length x \<le> lim \<longrightarrow> dec (e x) = Some x)"

definition chunk_payload :: "decoder \<Rightarrow> bytes \<Rightarrow> bytes" where
  "chunk_payload dec m =
     (case Decode m of
        Inl _ \<Rightarrow> []
      | Inr x \<Rightarrow> (case appendChunkPayload dec [] (m_payload x) (m_codec x) of None \<Rightarrow> [] | Some p \<Rightarrow> p))"

lemma frames_carries:
  "frames enc sq idx p m \<Longrightarrow> codec_ok enc dec lim \<Longrightarrow> length p \<le> lim \<Longrightarrow>
     carries dec sq idx p m \<and> length m \<le> ChunkHeaderSize + lim"
  using frames_length [of enc sq idx p m] by (auto simp: frames_def carries_def codec_ok_def)

lemma carries_payload: "carries dec sq idx p m \<Longrightarrow> chunk_payload dec m = p"
  by (auto simp: carries_def chunk_payload_def appendChunkPayload_def)

text \<open>Flows as the protocol sees them.\<close>

definition flow_carries :: "decoder \<Rightarrow> (bytes \<Rightarrow> u64) \<Rightarrow> (u32 \<Rightarrow> bytes) \<Rightarrow> nat \<Rightarrow> flow \<Rightarrow> bool" where
  "flow_carries dec sum64 L lim f \<longleftrightarrow>
     (\<exists>t. fl_begin f = AppendBegin [] (fl_seq f) t) \<and>
     (\<forall>i < length (fl_chunks f).
        carries dec (fl_seq f) (word_of_nat i) (chunk_payload dec (fl_chunks f ! i)) (fl_chunks f ! i) \<and>
        length (fl_chunks f ! i) \<le> ChunkHeaderSize + lim) \<and>
     prefix (concat (map (chunk_payload dec) (fl_chunks f))) (L (fl_seq f)) \<and>
     (fl_end f \<noteq> None \<longrightarrow>
        concat (map (chunk_payload dec) (fl_chunks f)) = L (fl_seq f) \<and>
        (\<exists>t. fl_end f = Some (AppendEnd [] (fl_seq f) (word_of_nat (length (fl_chunks f)))
               (word_of_nat (length (L (fl_seq f)))) t (sum64 (L (fl_seq f))))))"

lemma flow_ok_carries:
  assumes "flow_ok cfg L f" "codec_ok (sc_enc cfg) dec lim" "nat (sc_chunk cfg) \<le> lim"
  shows "flow_carries dec (sc_sum cfg) L lim f"
proof -
  from assms(1) obtain parts where f: "flow_of cfg L f parts"
    by (auto simp: flow_ok_def)
  then have len: "length (fl_chunks f) = length parts"
    by (simp add: flow_of_def framed_def)
  have msg: "carries dec (fl_seq f) (word_of_nat i) (parts ! i) (fl_chunks f ! i) \<and>
      length (fl_chunks f ! i) \<le> ChunkHeaderSize + lim" if "i < length parts" for i
  proof (rule frames_carries)
    show "frames (sc_enc cfg) (fl_seq f) (word_of_nat i) (parts ! i) (fl_chunks f ! i)"
      using f that by (simp add: flow_of_def framed_def)
    show "length (parts ! i) \<le> lim"
      using f that assms(3) by (auto simp: flow_of_def framed_def dest: nth_mem intro: order_trans)
  qed (rule assms(2))
  have payload: "chunk_payload dec (fl_chunks f ! i) = parts ! i" if "i < length parts" for i
    using msg [OF that] carries_payload by blast
  then have parts: "map (chunk_payload dec) (fl_chunks f) = parts"
    using len by (simp add: list_eq_iff_nth_eq)
  have "\<forall>i < length (fl_chunks f). carries dec (fl_seq f) (word_of_nat i) (chunk_payload dec (fl_chunks f ! i))
      (fl_chunks f ! i) \<and> length (fl_chunks f ! i) \<le> ChunkHeaderSize + lim"
    using msg payload len by metis
  with f len show ?thesis
    unfolding flow_carries_def flow_of_def parts by auto
qed

section \<open>Extending what was served\<close>

text \<open>A subscription that may announce ledger \<open>n\<close> next: between ledgers, or within \<open>n\<close> itself.\<close>

definition may_begin :: "decoder \<Rightarrow> (bytes \<Rightarrow> u64) \<Rightarrow> (u32 \<Rightarrow> bytes) \<Rightarrow> nat \<Rightarrow> nat \<Rightarrow> bytes list \<Rightarrow> nat \<Rightarrow> bool" where
  "may_begin dec sum64 L lim start msgs n \<longleftrightarrow>
     served dec sum64 L lim start msgs (Between n) \<or> (\<exists>parts. served dec sum64 L lim start msgs (Within n parts))"

lemma may_begin_begin:
  "may_begin dec sum64 L lim start msgs n \<Longrightarrow> n < 2 ^ 32 \<Longrightarrow>
     served dec sum64 L lim start (msgs @ [AppendBegin [] (word_of_nat n) t]) (Within n [])"
  by (auto simp: may_begin_def intro: sv_begin sv_again)

lemma served_chunks:
  assumes "served dec sum64 L lim start msgs (Within n parts)"
    and "length ms = length ps"
    and "\<And>i. i < length ms \<Longrightarrow> carries dec (word_of_nat n) (word_of_nat (length parts + i)) (ps ! i) (ms ! i) \<and>
      length (ms ! i) \<le> ChunkHeaderSize + lim"
    and "prefix (concat (parts @ ps)) (L (word_of_nat n))"
  shows "served dec sum64 L lim start (msgs @ ms) (Within n (parts @ ps))"
  using assms(2,1,3,4)
proof (induction ms ps arbitrary: msgs parts rule: list_induct2)
  case (Cons m ms p ps)
  have "served dec sum64 L lim start (msgs @ [m]) (Within n (parts @ [p]))"
  proof (rule sv_chunk [OF Cons.prems(1)])
    show "carries dec (word_of_nat n) (word_of_nat (length parts)) p m" "length m \<le> ChunkHeaderSize + lim"
      using Cons.prems(2) [of 0] by simp_all
    show "prefix (concat parts @ p) (L (word_of_nat n))"
      using Cons.prems(3) by (auto simp: prefix_def)
  qed
  from Cons.IH [OF this] Cons.prems(2) [of "Suc i" for i] Cons.prems(3) show ?case
    by simp
qed simp

text \<open>The next chunks of a flow, and its end.\<close>

lemma served_flow_chunks:
  assumes f: "flow_carries dec sum64 L lim f" "fl_seq f = word_of_nat n"
    and msgs: "served dec sum64 L lim start msgs (Within n (map (chunk_payload dec) (take k (fl_chunks f))))"
    and k: "k \<le> length (fl_chunks f)"
  shows "served dec sum64 L lim start (msgs @ drop k (fl_chunks f)) (Within n (map (chunk_payload dec) (fl_chunks f)))"
proof -
  have "served dec sum64 L lim start (msgs @ drop k (fl_chunks f))
      (Within n (map (chunk_payload dec) (take k (fl_chunks f)) @ map (chunk_payload dec) (drop k (fl_chunks f))))"
  proof (rule served_chunks [OF msgs])
    fix i assume "i < length (drop k (fl_chunks f))"
    with f show "carries dec (word_of_nat n) (word_of_nat (length (map (chunk_payload dec) (take k (fl_chunks f))) + i))
          (map (chunk_payload dec) (drop k (fl_chunks f)) ! i) (drop k (fl_chunks f) ! i) \<and>
        length (drop k (fl_chunks f) ! i) \<le> ChunkHeaderSize + lim"
      using spec [of _ "k + i"] k by (auto simp: flow_carries_def min_def dest!: spec [of _ "k + i"])
  qed (use f in \<open>auto simp: flow_carries_def simp flip: map_append\<close>)
  then show ?thesis
    by (simp flip: map_append)
qed

lemma served_flow_end:
  assumes "flow_carries dec sum64 L lim f" "fl_seq f = word_of_nat n" "fl_end f = Some e"
    and "served dec sum64 L lim start msgs (Within n (map (chunk_payload dec) (fl_chunks f)))"
  shows "served dec sum64 L lim start (msgs @ [e]) (Between (n + 1))"
  using sv_end [OF assms(4)] assms(1-3) by (auto simp: flow_carries_def)

text \<open>A completed flow from memory, without its stamps.\<close>

lemma served_stampless:
  assumes f: "flow_carries dec sum64 L lim (fs ! i)" "fl_seq (fs ! i) = word_of_nat n"
    and snap: "snap = \<lparr>sn_flow = Some i, sn_chunks = fl_chunks (fs ! i), sn_end = fl_end (fs ! i)\<rparr>"
      "fl_end (fs ! i) \<noteq> None"
    and msgs: "may_begin dec sum64 L lim start msgs n" "n < 2 ^ 32"
  shows "\<exists>out. writeStamplessFlow fs snap = Some out \<and> served dec sum64 L lim start (msgs @ out) (Between (n + 1))"
proof -
  let ?f = "fs ! i" and ?ps = "map (chunk_payload dec) (fl_chunks (fs ! i))"
  from f snap(2) obtain t where fin: "fl_end ?f = Some (AppendEnd [] (word_of_nat n)
      (word_of_nat (length (fl_chunks ?f))) (word_of_nat (length (L (word_of_nat n)))) t (sum64 (L (word_of_nat n))))"
    and full: "concat ?ps = L (word_of_nat n)"
    by (auto simp: flow_carries_def)
  have "served dec sum64 L lim start ((msgs @ [AppendBegin [] (word_of_nat n) 0]) @ drop 0 (fl_chunks ?f)) (Within n ?ps)"
    by (rule served_flow_chunks [OF f]) (use may_begin_begin [OF msgs] in simp_all)
  from sv_end [OF this full, of 0] show ?thesis
    using fin f(2) snap(1) by (simp add: writeStamplessFlow_def sn_seq_def)
qed

text \<open>A ledger from the ring is cut exactly as the source cuts it.\<close>

lemma ring_chunks_pieces:
  "0 < c \<Longrightarrow> ring_chunks enc c sq raw off idx =
    (let ps = pieces (nat c) (drop off raw) in
     (map (\<lambda>i. encodeChunk enc sq (idx + word_of_nat i) (ps ! i)) [0..<length ps],
      idx + word_of_nat (length ps)))"
proof (induction enc c sq raw off idx rule: ring_chunks.induct)
  case (1 enc c sq raw off idx)
  show ?case
  proof (cases "off < length raw")
    case False
    then show ?thesis by (simp add: ring_chunks.simps [of enc c sq raw off idx])
  next
    case True
    let ?ps = "pieces (nat c) (drop (off + nat c) raw)"
    have ps: "pieces (nat c) (drop off raw) = take (nat c) (drop off raw) # ?ps"
      using True "1.prems" by (simp add: pieces_step add.commute)
    have slice: "sub_slice off (min (off + nat c) (length raw)) raw = take (nat c) (drop off raw)"
      by (auto simp: sub_slice_def min_def)
    have "ring_chunks enc c sq raw off idx =
        (encodeChunk enc sq idx (take (nat c) (drop off raw)) #
           map (\<lambda>i. encodeChunk enc sq (idx + 1 + word_of_nat i) (?ps ! i)) [0..<length ?ps],
         idx + 1 + word_of_nat (length ?ps))"
      using True "1.prems" "1.IH" [OF _ refl] slice
      by (simp add: ring_chunks.simps [of enc c sq raw off idx] Let_def)
    then show ?thesis
      by (simp add: ps Let_def upt_conv_Cons comp_def add.assoc del: upt_Suc flip: map_Suc_upt)
  qed
qed

lemma served_ring:
  assumes c: "0 < c" "nat c \<le> lim" and enc: "codec_ok enc dec lim" and raw: "raw = L (word_of_nat n)"
    and msgs: "may_begin dec sum64 L lim start msgs n" "n < 2 ^ 32"
  shows "served dec sum64 L lim start (msgs @ writeRingFlow enc c sum64 (word_of_nat n) raw) (Between (n + 1))"
proof -
  let ?ps = "pieces (nat c) raw"
  let ?ms = "map (\<lambda>i. encodeChunk enc (word_of_nat n) (word_of_nat i) (?ps ! i)) [0..<length ?ps]"
  have "served dec sum64 L lim start ((msgs @ [AppendBegin [] (word_of_nat n) 0]) @ ?ms) (Within n ([] @ ?ps))"
  proof (rule served_chunks [OF may_begin_begin [OF msgs]])
    fix i assume i: "i < length ?ms"
    then have "?ps ! i \<in> set ?ps" by simp
    with pieces_bounds [of "nat c" "?ps ! i" raw] c have "length (?ps ! i) \<le> lim"
      by auto
    with frames_carries [OF encodeChunk_frames enc this] i
    show "carries dec (word_of_nat n) (word_of_nat (length [] + i)) (?ps ! i) (?ms ! i) \<and>
        length (?ms ! i) \<le> ChunkHeaderSize + lim"
      by simp
  qed (simp_all add: raw)
  from sv_end [OF this, of 0] c(1) show ?thesis
    by (simp add: writeRingFlow_def ring_chunks_pieces Let_def raw)
qed

section \<open>The hub between steps\<close>

text \<open>Every ledger file of the ring's directory holds the ledger its name says.\<close>

definition files_agree :: "(u32 \<Rightarrow> bytes) \<Rightarrow> store \<Rightarrow> disk \<Rightarrow> bool" where
  "files_agree L s d \<longleftrightarrow> (\<forall>q b. file_bytes (dir s, LedgerFileName q) d = Some b \<longrightarrow> b = L q)"

definition hub_ok :: "'r source_cfg \<Rightarrow> (u32 \<Rightarrow> bytes) \<Rightarrow> phase \<Rightarrow> hub \<Rightarrow> bool" where
  "hub_ok cfg L ph h \<longleftrightarrow> bc_at cfg L ph (hb_bc h) \<and> ring_inv (hb_store h) (hb_disk h) \<and>
     files_agree L (hb_store h) (hb_disk h)"

lemma ring_inv_entry: "entry d' = entry d \<Longrightarrow> ring_inv s d' = ring_inv s d"
  by (simp add: ring_inv_def clean_dir_def ledgers_on_def)

lemma files_agree_entry: "entry d' = entry d \<Longrightarrow> files_agree L s d' = files_agree L s d"
  by (simp add: files_agree_def file_bytes_entry)

lemma Get_read_entry: "Get_read st q d = (r, d') \<Longrightarrow> entry d' = entry d"
  by (auto simp: Get_read_def os_read_file_def entry_def split: if_splits fault.splits option.splits
      node.splits sum.splits os_error.splits)

lemma Get_read_agrees:
  "files_agree L s d \<Longrightarrow> dir st = dir s \<Longrightarrow> Get_read st q d = (Inr raw, d') \<Longrightarrow> raw = L q"
  by (auto simp: Get_read_def os_read_file_def files_agree_def ledger_path_def file_bytes_def
      split: if_splits fault.splits option.splits node.splits sum.splits os_error.splits)

lemma hub_event_bc_step:
  "hub_event h ev = Inr h' \<Longrightarrow> bc_step (hb_bc h) (hb_bc h') \<or> hb_bc h' = hb_bc h"
  by (cases ev) (auto simp: with_bc_def intro: bc_step.intros split: sum.splits prod.splits)

lemma hub_ok_emits:
  assumes ok: "hub_ok cfg L ph h" and emit: "emits cfg L ph ev ph'" and step: "hub_event h ev = Inr h'"
  shows "hub_ok cfg L ph' h' \<and> flows_grow (flows (hb_bc h)) (flows (hb_bc h')) \<and>
    dir (hb_store h') = dir (hb_store h)"
proof -
  have bc: "bc_at cfg L ph' (hb_bc h')"
    using emits_hub [OF emit, of h] ok step by (auto simp: hub_ok_def)
  have inv: "bc_inv (hb_bc h)" "ring_inv (hb_store h) (hb_disk h)" "files_agree L (hb_store h) (hb_disk h)"
    using ok by (auto simp: hub_ok_def bc_at_def)
  have grow: "flows_grow (flows (hb_bc h)) (flows (hb_bc h'))"
    using hub_event_bc_step [OF step] bc_step_grows [OF _ inv(1)] by auto
  have puts: "\<forall>(q, parts) \<in> set (put_of ev). concat parts = L q"
  proof (cases ev)
    case (EvPut q parts)
    with emit ok show ?thesis
      by (auto elim!: emitsE simp: hub_ok_def bc_at_def phase_at_def flow_of_def)
  qed simp_all
  have run: "run_puts (hb_store h) (hb_disk h) (put_of ev) = (hb_store h', hb_disk h')"
    using hub_event_ring [OF step] by simp
  note ring = run_puts_inv [OF inv(2) run] run_puts_files [OF inv(2) run]
  from ring inv(3) puts have "files_agree L (hb_store h') (hb_disk h')"
    unfolding files_agree_def by (metis (mono_tags, lifting) case_prod_conv)
  with bc grow ring show ?thesis by (simp add: hub_ok_def)
qed

section \<open>The subscriber between steps\<close>

definition req_range :: "stream_request \<Rightarrow> ledger_range" where
  "req_range r = \<lparr>rg_from = rq_start r, rg_to = rq_end r, rg_bounded = rq_bounded r\<rparr>"

text \<open>
  What was written is a stream of the protocol whose cursor is the subscriber's: within the
  flow it is in, or at the ledger it has to announce next.
\<close>

definition sub_at :: "decoder \<Rightarrow> (bytes \<Rightarrow> u64) \<Rightarrow> (u32 \<Rightarrow> bytes) \<Rightarrow> nat \<Rightarrow> flow list \<Rightarrow> nat \<Rightarrow> subscriber \<Rightarrow> bool" where
  "sub_at dec sum64 L lim fs start s \<longleftrightarrow>
     (\<exists>cur. served dec sum64 L lim start (sb_out s) cur \<and> in_range (req_range (sb_req s)) start cur \<and>
        cursor_ledger cur = sb_next s \<and>
        (sb_begun s \<longrightarrow>
           (\<exists>i. sb_flow s = Some i \<and> i < length fs \<and> fl_seq (fs ! i) = word_of_nat (sb_next s) \<and>
              sb_sent s \<le> length (fl_chunks (fs ! i)) \<and>
              cur = Within (sb_next s) (map (chunk_payload dec) (take (sb_sent s) (fl_chunks (fs ! i)))))))"

fun pc_ok :: "string \<Rightarrow> subscriber \<Rightarrow> pc \<Rightarrow> bool" where
  "pc_ok dr s PcAnchor = (sb_next s = 0)"
| "pc_ok dr s (PcBounds ch fin) = (sb_next s \<noteq> 0 \<and> \<not> sb_begun s \<and> \<not> past_end s)"
| "pc_ok dr s (PcGet ch fin) = (sb_next s \<noteq> 0 \<and> \<not> sb_begun s \<and> \<not> past_end s \<and> sb_next s < 2 ^ 32)"
| "pc_ok dr s (PcRead st ch fin) =
     (sb_next s \<noteq> 0 \<and> \<not> sb_begun s \<and> \<not> past_end s \<and> sb_next s < 2 ^ 32 \<and> dir st = dr)"
| "pc_ok dr s PcPanicked = False"
| "pc_ok dr s _ = True"

definition anchored :: "decoder \<Rightarrow> (bytes \<Rightarrow> u64) \<Rightarrow> (u32 \<Rightarrow> bytes) \<Rightarrow> nat \<Rightarrow> flow list \<Rightarrow> subscriber \<Rightarrow> bool" where
  "anchored dec sum64 L lim fs s \<longleftrightarrow>
     (if sb_next s = 0 then rq_start (sb_req s) = 0 \<and> sb_out s = [] \<and> \<not> sb_begun s
      else \<exists>start > 0. (rq_start (sb_req s) = 0 \<or> unat (rq_start (sb_req s)) = start) \<and>
             sub_at dec sum64 L lim fs start s)"

definition sub_ok :: "decoder \<Rightarrow> (bytes \<Rightarrow> u64) \<Rightarrow> (u32 \<Rightarrow> bytes) \<Rightarrow> nat \<Rightarrow> hub \<Rightarrow> subscriber \<Rightarrow> bool" where
  "sub_ok dec sum64 L lim h s \<longleftrightarrow>
     anchored dec sum64 L lim (flows (hb_bc h)) s \<and> pc_ok (dir (hb_store h)) s (sb_pc s)"

lemma unat_pos_iff: "0 < unat q \<longleftrightarrow> q \<noteq> 0" for q :: u32
  by (metis gr0I less_irrefl unat_0 unat_eq_0)

lemma new_subscriber_ok [simp]: "sub_ok dec sum64 L lim h (new_subscriber req)"
  by (auto simp: sub_ok_def anchored_def sub_at_def new_subscriber_def unat_eq_0 unat_pos_iff req_range_def
      intro!: exI [of _ "Between (unat (rq_start req))"] sv_start)

text \<open>The source's steps keep it: flows only grow.\<close>

lemma sub_at_grow: "flows_grow fs gs \<Longrightarrow> sub_at dec sum64 L lim fs start s \<Longrightarrow> sub_at dec sum64 L lim gs start s"
  unfolding sub_at_def flows_grow_def flow_grows_def prefix_def
  by (elim exE conjE) (rule exI, intro conjI, assumption+, force)

lemma sub_ok_grow:
  assumes "flows_grow (flows (hb_bc h)) (flows (hb_bc h'))" "dir (hb_store h') = dir (hb_store h)"
    and "sub_ok dec sum64 L lim h s"
  shows "sub_ok dec sum64 L lim h' s"
  using assms sub_at_grow [OF assms(1)] by (auto simp: sub_ok_def anchored_def split: if_splits)

lemma sub_at_begin: "sub_at dec sum64 L lim fs start s \<Longrightarrow> may_begin dec sum64 L lim start (sb_out s) (sb_next s)"
  unfolding sub_at_def may_begin_def by (metis cursor.exhaust cursor_ledger.simps)

text \<open>A whole ledger was written, from wherever.\<close>

lemma sub_at_next:
  assumes "served dec sum64 L lim start (sb_out s @ msgs) (Between (sb_next s + 1))" "\<not> past_end s" "sb_next s \<noteq> 0"
    and "sb_out s' = sb_out s @ msgs" "sb_next s' = sb_next s + 1" "\<not> sb_begun s'" "sb_req s' = sb_req s"
  shows "sub_at dec sum64 L lim fs start s'"
  using assms by (auto simp: sub_at_def past_end_def req_range_def intro!: exI [of _ "Between (sb_next s + 1)"])

section \<open>Each step of a subscriber\<close>

definition server_ok :: "'r source_cfg \<Rightarrow> serve_cfg \<Rightarrow> decoder \<Rightarrow> nat \<Rightarrow> bool" where
  "server_ok cfg scfg dec lim \<longleftrightarrow> sr_sum scfg = sc_sum cfg \<and> 0 < sr_chunk scfg \<and>
     nat (sr_chunk scfg) \<le> lim \<and> nat (sc_chunk cfg) \<le> lim \<and>
     codec_ok (sc_enc cfg) dec lim \<and> codec_ok (sr_enc scfg) dec lim"

text \<open>The source and the handlers of a server that \<open>New\<close> built.\<close>

definition serves :: "server \<Rightarrow> 'r source_cfg \<Rightarrow> serve_cfg \<Rightarrow> bool" where
  "serves srv cfg scfg \<longleftrightarrow> sc_chunk cfg = sv_chunk srv \<and> sc_enc cfg = sv_enc srv \<and>
     sr_chunk scfg = sv_chunk srv \<and> sr_enc scfg = sv_ring_enc srv \<and> sr_sum scfg = sc_sum cfg"

text \<open>The snapshot of a watch: nothing yet, or the last flow as it is.\<close>

definition snap_of :: "flow list \<Rightarrow> nat \<Rightarrow> flow_snap" where
  "snap_of fs i = \<lparr>sn_flow = Some i, sn_chunks = fl_chunks (fs ! i), sn_end = fl_end (fs ! i)\<rparr>"

lemma watch_cases:
  assumes "bc_inv b"
  obtains "flows b = []" "bc_watch b = (\<lparr>sn_flow = None, sn_chunks = [], sn_end = None\<rparr>, notify b, ended b)"
  | i where "flows b \<noteq> []" "i = length (flows b) - 1" "bc_watch b = (snap_of (flows b) i, notify b, ended b)"
  using assms by (cases "flows b = []") (auto simp: bc_watch_def cur_flow_last snap_of_def bc_inv_def last_conv_nth)

lemma snap_of_simps [simp]:
  "sn_seq fs (snap_of fs i) = fl_seq (fs ! i)" "sn_complete (snap_of fs i) \<longleftrightarrow> fl_end (fs ! i) \<noteq> None"
  "sn_flow (snap_of fs i) = Some i" "sn_chunks (snap_of fs i) = fl_chunks (fs ! i)"
  "sn_end (snap_of fs i) = fl_end (fs ! i)"
  by (simp_all add: snap_of_def sn_seq_def sn_complete_def)

lemma watch_flow:
  assumes "bc_inv b" "bc_watch b = (snap, ch, fin)" "sn_seq (flows b) snap \<noteq> 0"
  shows "\<exists>i < length (flows b). snap = snap_of (flows b) i"
proof (cases rule: watch_cases [OF assms(1)])
  case 1
  with assms(2,3) show ?thesis by (auto simp: sn_seq_def)
next
  case (2 i)
  with assms(2) show ?thesis by (intro exI [of _ i]) simp
qed

text \<open>Following the current flow.\<close>

lemma follow_flow_at:
  assumes f: "flow_carries dec sum64 L lim (fs ! i)" "i < length fs"
    and n: "sb_next s = unat (fl_seq (fs ! i))" "sb_next s \<noteq> 0" "\<not> past_end s"
    and at: "sub_at dec sum64 L lim fs start s"
  shows "sub_at dec sum64 L lim fs start (follow_flow fs (snap_of fs i) ch fin s) \<and>
    sb_next (follow_flow fs (snap_of fs i) ch fin s) \<noteq> 0 \<and>
    sb_req (follow_flow fs (snap_of fs i) ch fin s) = sb_req s \<and>
    sb_pc (follow_flow fs (snap_of fs i) ch fin s) \<in> {PcWatch, PcSettle ch fin}"
proof -
  let ?n = "sb_next s" and ?f = "fs ! i"
  define s1 where "s1 = enter_flow fs (snap_of fs i) s"
  have n32: "?n < 2 ^ 32" and seq: "fl_seq ?f = word_of_nat ?n"
    using n(1) unat_lt_u32 [of "fl_seq ?f"] by auto
  have s1: "served dec sum64 L lim start (sb_out s1) (Within ?n (map (chunk_payload dec) (take (sb_sent s1) (fl_chunks ?f)))) \<and>
      sb_sent s1 \<le> length (fl_chunks ?f) \<and> sb_next s1 = ?n \<and> sb_req s1 = sb_req s \<and> sb_flow s1 = Some i \<and> sb_begun s1"
  proof (cases "fresh_flow (snap_of fs i) s")
    case True
    with may_begin_begin [OF sub_at_begin [OF at] n32] f(1) seq show ?thesis
      by (auto simp: s1_def enter_flow_def flow_carries_def)
  next
    case False
    with at show ?thesis by (auto simp: s1_def enter_flow_def fresh_flow_def sub_at_def)
  qed
  define s2 where "s2 = send_chunks (snap_of fs i) s1"
  have s2: "served dec sum64 L lim start (sb_out s2) (Within ?n (map (chunk_payload dec) (fl_chunks ?f)))"
    using served_flow_chunks [OF f(1) seq, of start "sb_out s1" "sb_sent s1"] s1
    by (simp add: s2_def send_chunks_def)
  have s2_eq: "sb_next s2 = ?n" "sb_req s2 = sb_req s" "sb_flow s2 = Some i" "sb_begun s2" "sb_sent s2 = length (fl_chunks ?f)"
    using s1 by (simp_all add: s2_def send_chunks_def)
  have follow: "follow_flow fs (snap_of fs i) ch fin s = (case fl_end ?f of
      Some e \<Rightarrow> next_ledger [e] s2
    | None \<Rightarrow> s2\<lparr>sb_pc := (if fresh_flow (snap_of fs i) s \<or> sb_sent s1 < length (fl_chunks ?f)
                             then PcWatch else PcSettle ch fin)\<rparr>)"
    by (simp only: follow_flow_def Let_def s1_def s2_def snap_of_simps)
  show ?thesis
  proof (cases "fl_end ?f")
    case (Some e)
    have "sub_at dec sum64 L lim fs start (next_ledger [e] s2)"
    proof (rule sub_at_next)
      show "served dec sum64 L lim start (sb_out s2 @ [e]) (Between (sb_next s2 + 1))"
        using served_flow_end [OF f(1) seq Some s2] by (simp add: s2_eq)
      show "\<not> past_end s2" "sb_next s2 \<noteq> 0"
        using n(2,3) s2_eq by (simp_all add: past_end_def)
    qed (simp_all add: next_ledger_def)
    with Some n(2) s2_eq show ?thesis
      by (simp add: follow next_ledger_def)
  next
    case None
    have "in_range (req_range (sb_req s)) start (Within ?n (map (chunk_payload dec) (fl_chunks ?f)))"
      using n(2,3) by (auto simp: past_end_def req_range_def)
    with None s2 s2_eq f(2) seq n(2) show ?thesis
      by (auto simp: follow sub_at_def)
  qed
qed

text \<open>Leaving a flow the source has moved past.\<close>

lemma leave_flow_at:
  assumes f: "\<forall>i < length fs. flow_carries dec sum64 L lim (fs ! i)"
    and n: "sb_next s \<noteq> 0" "\<not> past_end s" and at: "sub_at dec sum64 L lim fs start s"
  shows "sub_at dec sum64 L lim fs start (leave_flow fs ch fin s) \<and> sb_next (leave_flow fs ch fin s) \<noteq> 0 \<and>
    sb_req (leave_flow fs ch fin s) = sb_req s \<and>
    (sb_pc (leave_flow fs ch fin s) = PcWatch \<or>
     sb_pc (leave_flow fs ch fin s) = PcBounds ch fin \<and> \<not> sb_begun (leave_flow fs ch fin s) \<and>
       sb_next (leave_flow fs ch fin s) = sb_next s)"
proof (cases "sb_begun s")
  case False
  with n at show ?thesis by (simp add: leave_flow_def sub_at_def)
next
  case True
  with at obtain i where i: "sb_flow s = Some i" "i < length fs" "fl_seq (fs ! i) = word_of_nat (sb_next s)"
    and served: "served dec sum64 L lim start (sb_out s)
      (Within (sb_next s) (map (chunk_payload dec) (take (sb_sent s) (fl_chunks (fs ! i)))))"
    by (auto simp: sub_at_def)
  show ?thesis
  proof (cases "if sb_sent s = length (fl_chunks (fs ! i)) then fl_end (fs ! i) else None")
    case None
    with True i n at show ?thesis
      by (auto simp: leave_flow_def sub_at_def)
  next
    case (Some e)
    then have e: "sb_sent s = length (fl_chunks (fs ! i))" "fl_end (fs ! i) = Some e"
      by (auto split: if_splits)
    have "sub_at dec sum64 L lim fs start (next_ledger [e] s)"
    proof (rule sub_at_next [OF _ n(2,1)])
      show "served dec sum64 L lim start (sb_out s @ [e]) (Between (sb_next s + 1))"
        using served_flow_end [of dec sum64 L lim "fs ! i" "sb_next s" e start "sb_out s"] f i served e by simp
    qed (simp_all add: next_ledger_def)
    with True i e n show ?thesis
      by (simp add: leave_flow_def next_ledger_def)
  qed
qed

lemma anchored_tip:
  assumes "anchored dec sum64 L lim fs s" "sb_next s = 0" "0 < n"
  shows "anchored dec sum64 L lim fs (s\<lparr>sb_next := n\<rparr>)"
  using assms by (auto simp: anchored_def sub_at_def intro!: exI [of _ n] exI [of _ "Between n"] sv_start)

lemma anchored_at:
  assumes "anchored dec sum64 L lim fs s" "sb_next s \<noteq> 0"
  obtains start where "0 < start" "rq_start (sb_req s) = 0 \<or> unat (rq_start (sb_req s)) = start"
    "sub_at dec sum64 L lim fs start s"
  using assms by (auto simp: anchored_def)

lemma sub_at_anchored:
  assumes "sub_at dec sum64 L lim fs start s'" "sb_next s' \<noteq> 0" "sb_req s' = sb_req s"
    and "0 < start" "rq_start (sb_req s) = 0 \<or> unat (rq_start (sb_req s)) = start"
  shows "anchored dec sum64 L lim fs s'"
  using assms by (auto simp: anchored_def)

lemma hub_ok_flows:
  assumes "hub_ok cfg L ph h" "server_ok cfg scfg dec lim" "i < length (flows (hb_bc h))"
  shows "flow_carries dec (sc_sum cfg) L lim (flows (hb_bc h) ! i)"
  using assms by (intro flow_ok_carries) (auto simp: hub_ok_def bc_at_def server_ok_def)

lemma anchored_pc [simp]: "anchored dec sum64 L lim fs (s\<lparr>sb_pc := x\<rparr>) = anchored dec sum64 L lim fs s"
  by (simp add: anchored_def sub_at_def)

text \<open>The watch, once the cursor is anchored or the stream has not begun.\<close>

definition anchor_now :: "u32 \<Rightarrow> subscriber \<Rightarrow> subscriber" where
  "anchor_now sq s = (if sb_next s = 0 then s\<lparr>sb_next := unat sq\<rparr> else s)"

lemma serve_watch_split:
  assumes "bc_watch (hb_bc h) = (snap, ch, fin)"
  shows "serve_watch h s =
    (let fs = flows (hb_bc h); sq = sn_seq fs snap; s0 = anchor_now sq s in
     if past_end s0 then s0\<lparr>sb_pc := PcClosed StatusNormalClosure []\<rparr>
     else if sb_next s0 \<noteq> 0 \<and> sb_next s0 = unat sq then
       (if \<not> sb_begun s0 \<and> sn_complete snap then
          (case writeStamplessFlow fs snap of
             None \<Rightarrow> s0\<lparr>sb_pc := PcBroken\<rparr>
           | Some msgs \<Rightarrow> s0\<lparr>sb_out := sb_out s0 @ msgs, sb_next := sb_next s0 + 1, sb_pc := PcWatch\<rparr>)
        else follow_flow fs snap ch fin s0)
     else if sb_next s0 \<noteq> 0 \<and> (sb_next s0 < unat sq \<or> unat sq = 0) then leave_flow fs ch fin s0
     else s0\<lparr>sb_pc := PcSettle ch fin\<rparr>)"
  by (simp only: serve_watch_def Let_def assms prod.case anchor_now_def)

lemma past_end_pc [simp]: "past_end (s\<lparr>sb_pc := x\<rparr>) = past_end s"
  by (simp add: past_end_def)

lemma anchor_now_anchored:
  assumes "sub_ok dec sum64 L lim h s"
  shows "anchored dec sum64 L lim (flows (hb_bc h)) (anchor_now sq s)"
  using assms anchored_tip [of dec sum64 L lim "flows (hb_bc h)" s "unat sq"]
  by (cases "unat sq = 0") (auto simp: anchor_now_def sub_ok_def anchored_def [of _ _ _ _ _ "_\<lparr>sb_next := 0\<rparr>"] anchored_def [of _ _ _ _ _ s])

definition started_at :: "decoder \<Rightarrow> (bytes \<Rightarrow> u64) \<Rightarrow> (u32 \<Rightarrow> bytes) \<Rightarrow> nat \<Rightarrow> flow list \<Rightarrow> nat \<Rightarrow> subscriber \<Rightarrow> bool" where
  "started_at dec sum64 L lim fs start s \<longleftrightarrow> 0 < start \<and>
     (rq_start (sb_req s) = 0 \<or> unat (rq_start (sb_req s)) = start) \<and> sub_at dec sum64 L lim fs start s"

lemma started_at_at: "started_at dec sum64 L lim fs start s \<Longrightarrow> sub_at dec sum64 L lim fs start s"
  by (simp add: started_at_def)

lemma started_at_ok:
  assumes "started_at dec sum64 L lim (flows (hb_bc h)) start s"
    and "sub_at dec sum64 L lim (flows (hb_bc h)) start s'" "sb_next s' \<noteq> 0" "sb_req s' = sb_req s"
    and "pc_ok (dir (hb_store h)) s' (sb_pc s')"
  shows "sub_ok dec sum64 L lim h s'"
  using assms sub_at_anchored [OF assms(2-4)] by (auto simp: started_at_def sub_ok_def)

text \<open>The five ways through one iteration of \<^verbatim>\<open>serve\<close> up to the next access to shared state.\<close>

lemma serve_watch_cases:
  assumes hub: "hub_ok cfg L ph h" and srv: "server_ok cfg scfg dec lim"
    and sub: "sub_ok dec (sc_sum cfg) L lim h s"
    and w: "bc_watch (hb_bc h) = (snap, ch, fin)"
    and fs: "fs = flows (hb_bc h)" and sq: "sq = sn_seq fs snap" and s0: "s0 = anchor_now sq s"
  obtains (halt) "past_end s0 \<or> sb_next s0 = 0"
      "serve_watch h s = s0\<lparr>sb_pc := if past_end s0 then PcClosed StatusNormalClosure [] else PcSettle ch fin\<rparr>"
  | (stampless) start out where "started_at dec (sc_sum cfg) L lim fs start s0" "\<not> past_end s0" "sb_next s0 = unat sq"
      "0 < sb_next s0" "sb_next s0 < 2 ^ 32" "\<not> sb_begun s0"
      "served dec (sc_sum cfg) L lim start (sb_out s0 @ out) (Between (sb_next s0 + 1))"
      "serve_watch h s = s0\<lparr>sb_out := sb_out s0 @ out, sb_next := sb_next s0 + 1, sb_pc := PcWatch\<rparr>"
  | (follow) start i where "started_at dec (sc_sum cfg) L lim fs start s0" "\<not> past_end s0" "sb_next s0 = unat sq"
      "0 < sb_next s0" "i < length fs" "snap = snap_of fs i" "fl_seq (fs ! i) = sq" "\<not> (\<not> sb_begun s0 \<and> sn_complete snap)"
      "serve_watch h s = follow_flow fs snap ch fin s0"
  | (leave) start where "started_at dec (sc_sum cfg) L lim fs start s0" "\<not> past_end s0" "0 < sb_next s0"
      "sb_next s0 < unat sq \<or> unat sq = 0" "serve_watch h s = leave_flow fs ch fin s0"
  | (ahead) start where "started_at dec (sc_sum cfg) L lim fs start s0" "\<not> past_end s0" "unat sq < sb_next s0" "0 < unat sq"
      "serve_watch h s = s0\<lparr>sb_pc := PcSettle ch fin\<rparr>"
proof -
  note split = serve_watch_split [OF w, of s, folded fs, folded sq, unfolded Let_def, folded sq, folded s0]
  show thesis
  proof (cases "past_end s0 \<or> sb_next s0 = 0")
    case True
    with split show thesis by (intro halt) auto
  next
    case False
    then obtain start where at: "started_at dec (sc_sum cfg) L lim fs start s0"
      using anchored_at [OF anchor_now_anchored [OF sub, of sq, folded fs s0]] unfolding started_at_def by blast
    consider "sb_next s0 = unat sq" | "sb_next s0 < unat sq \<or> unat sq = 0" "sb_next s0 \<noteq> unat sq"
      | "unat sq < sb_next s0" "0 < unat sq" by linarith
    then show thesis
    proof cases
      case 1
      with False have "sq \<noteq> 0" by auto
      with watch_flow [OF _ w] hub obtain i where i: "i < length fs" "snap = snap_of fs i"
        by (auto simp: hub_ok_def bc_at_def sq fs)
      with sq have seq: "fl_seq (fs ! i) = sq" by simp
      show thesis
      proof (cases "\<not> sb_begun s0 \<and> sn_complete snap")
        case True
        have n: "fl_seq (fs ! i) = word_of_nat (sb_next s0)" "sb_next s0 < 2 ^ 32"
          using seq 1 unat_lt_u32 [of sq] by auto
        obtain out where "writeStamplessFlow fs snap = Some out"
            "served dec (sc_sum cfg) L lim start (sb_out s0 @ out) (Between (sb_next s0 + 1))"
          using served_stampless [of dec "sc_sum cfg" L lim fs i "sb_next s0" snap start "sb_out s0"]
            hub_ok_flows [OF hub srv i(1) [unfolded fs], folded fs] i n True sub_at_begin [OF started_at_at [OF at]]
          by (auto simp: snap_of_def sn_complete_def)
        with split False 1 True at n(2) show thesis by (intro stampless) auto
      qed (use split False 1 at i seq in \<open>intro follow, auto\<close>)
    qed (use split False at in \<open>intro leave, auto\<close>, use split False at in \<open>intro ahead, auto\<close>)
  qed
qed

lemma serve_watch_ok:
  assumes hub: "hub_ok cfg L ph h" and srv: "server_ok cfg scfg dec lim"
    and sub: "sub_ok dec (sc_sum cfg) L lim h s"
  shows "sub_ok dec (sc_sum cfg) L lim h (serve_watch h s)"
proof -
  obtain snap ch fin where w: "bc_watch (hb_bc h) = (snap, ch, fin)"
    by (metis prod_cases3)
  let ?fs = "flows (hb_bc h)"
  have flows: "\<forall>i < length ?fs. flow_carries dec (sc_sum cfg) L lim (?fs ! i)"
    using hub_ok_flows [OF hub srv] by blast
  note anchored = anchor_now_anchored [OF sub, of "sn_seq ?fs snap"]
  show ?thesis
  proof (cases rule: serve_watch_cases [OF hub srv sub w refl refl refl, case_names halt stampless follow leave ahead])
    case halt
    with anchored show ?thesis by (simp add: sub_ok_def)
  next
    case (stampless start out)
    have "sub_at dec (sc_sum cfg) L lim ?fs start (serve_watch h s)"
      by (rule sub_at_next [OF stampless(7,2)]) (use stampless in auto)
    with stampless show ?thesis by (intro started_at_ok [OF stampless(1)]) auto
  next
    case (follow start i)
    have "sb_next (anchor_now (sn_seq ?fs snap) s) = unat (fl_seq (?fs ! i))"
      using follow(3) unfolding follow(7) .
    note at = follow_flow_at [OF _ follow(5) this _ follow(2) started_at_at [OF follow(1)], of ch fin, folded follow(6)]
    show ?thesis
      unfolding follow(9) by (rule started_at_ok [OF follow(1)]) (use at flows follow(4,5) in auto)
  next
    case (leave start)
    from leave_flow_at [OF flows _ _ started_at_at [OF leave(1)], of ch fin] leave show ?thesis
      by (intro started_at_ok [OF leave(1)]) (auto simp: past_end_def)
  next
    case (ahead start)
    with anchored show ?thesis by (simp add: sub_ok_def)
  qed
qed

text \<open>A read of the ring.\<close>

lemma serve_read_ok:
  assumes hub: "hub_ok cfg L ph h" and srv: "server_ok cfg scfg dec lim"
    and sub: "sub_ok dec (sc_sum cfg) L lim h s" and pc: "sb_pc s = PcRead st ch fin"
    and step: "serve_read scfg h st s = (h', s')"
  shows "hub_ok cfg L ph h' \<and> sub_ok dec (sc_sum cfg) L lim h' s' \<and> hb_bc h' = hb_bc h"
proof -
  obtain r d where rd: "Get_read st (word_of_nat (sb_next s)) (hb_disk h) = (r, d)"
    by fastforce
  note entry = Get_read_entry [OF rd]
  have hub': "hub_ok cfg L ph (h\<lparr>hb_disk := d\<rparr>)"
    using hub by (simp add: hub_ok_def ring_inv_entry [OF entry] files_agree_entry [OF entry])
  have n: "sb_next s \<noteq> 0" "\<not> sb_begun s" "\<not> past_end s" "sb_next s < 2 ^ 32" "dir st = dir (hb_store h)"
    using sub pc by (auto simp: sub_ok_def)
  obtain start where start: "0 < start" "rq_start (sb_req s) = 0 \<or> unat (rq_start (sb_req s)) = start"
    and at: "sub_at dec (sc_sum cfg) L lim (flows (hb_bc h)) start s"
    using sub n(1) anchored_at [of dec "sc_sum cfg" L lim "flows (hb_bc h)" s] by (auto simp: sub_ok_def)
  have keep: "sub_ok dec (sc_sum cfg) L lim (h\<lparr>hb_disk := d\<rparr>) (s\<lparr>sb_pc := x\<rparr>)"
    if "x = PcTooFar \<or> x = PcBroken" for x
    using that sub by (auto simp: sub_ok_def)
  show ?thesis
  proof (cases r)
    case (Inl e)
    with step rd hub' keep show ?thesis
      by (cases e) (auto simp: serve_read_def)
  next
    case (Inr raw)
    have raw: "raw = L (word_of_nat (sb_next s))"
      using hub n(5) rd Inr by (auto simp: hub_ok_def intro: Get_read_agrees)
    let ?out = "writeRingFlow (sr_enc scfg) (sr_chunk scfg) (sr_sum scfg) (word_of_nat (sb_next s)) raw"
    let ?s = "s\<lparr>sb_out := sb_out s @ ?out, sb_next := sb_next s + 1, sb_pc := PcWatch\<rparr>"
    have "served dec (sc_sum cfg) L lim start (sb_out s @ ?out) (Between (sb_next s + 1))"
      using served_ring [OF _ _ _ raw sub_at_begin [OF at] n(4), of "sr_chunk scfg" "sr_enc scfg"] srv
      by (simp add: server_ok_def)
    then have "sub_at dec (sc_sum cfg) L lim (flows (hb_bc h)) start ?s"
      by (rule sub_at_next) (use n in auto)
    then have "anchored dec (sc_sum cfg) L lim (flows (hb_bc h)) ?s"
      by (rule sub_at_anchored [OF _ _ _ start]) auto
    with step rd Inr hub' show ?thesis
      by (auto simp: serve_read_def sub_ok_def)
  qed
qed

text \<open>Every step of a subscriber keeps the hub and its own invariant.\<close>

lemma serve_step_ok:
  assumes hub: "hub_ok cfg L ph h" and srv: "server_ok cfg scfg dec lim"
    and sub: "sub_ok dec (sc_sum cfg) L lim h s" and step: "serve_step scfg h s = (h', s')"
  shows "hub_ok cfg L ph h' \<and> sub_ok dec (sc_sum cfg) L lim h' s' \<and> hb_bc h' = hb_bc h"
proof (cases "sb_pc s")
  case PcAnchor
  have "anchored dec (sc_sum cfg) L lim (flows (hb_bc h)) (s\<lparr>sb_next := n\<rparr>)" for n
    using sub PcAnchor anchored_tip [of dec "sc_sum cfg" L lim "flows (hb_bc h)" s n]
    by (cases "n = 0") (auto simp: sub_ok_def anchored_def)
  with PcAnchor hub step show ?thesis
    by (auto simp: serve_step_def sub_ok_def)
next
  case PcWatch
  with hub srv sub step serve_watch_ok show ?thesis
    by (auto simp: serve_step_def)
next
  case (PcBounds ch fin)
  have "sb_next s \<le> unat (latest (hb_store h)) \<Longrightarrow> sb_next s < 2 ^ 32"
    using le_less_trans [OF _ unat_lt_u32 [of "latest (hb_store h)"]] by simp
  with PcBounds hub sub step show ?thesis
    by (auto simp: serve_step_def serve_bounds_def sub_ok_def Bounds_def)
next
  case (PcRead st ch fin)
  with step have "serve_read scfg h st s = (h', s')" by (simp add: serve_step_def)
  from serve_read_ok [OF hub srv sub PcRead this] show ?thesis .
next
  case (PcSettle ch fin)
  with hub sub step show ?thesis
    by (auto simp: serve_step_def serve_settle_def sub_ok_def split: option.splits prod.splits)
qed (use hub sub step in \<open>auto simp: serve_step_def serve_too_far_def sub_ok_def split: prod.splits\<close>)

text \<open>What a subscriber's step leaves of the hub: at most a fault of the disk is used up.\<close>

lemma serve_read_hub:
  assumes "serve_read scfg h st s = (h', s')"
  shows "hb_bc h' = hb_bc h \<and> hb_store h' = hb_store h \<and> entry (hb_disk h') = entry (hb_disk h)"
proof -
  obtain r d where rd: "Get_read st (word_of_nat (sb_next s)) (hb_disk h) = (r, d)"
    by fastforce
  with assms have "h' = h\<lparr>hb_disk := d\<rparr>"
    by (auto simp: serve_read_def split: sum.splits store_error.splits)
  with Get_read_entry [OF rd] show ?thesis by simp
qed

lemma serve_step_hub:
  assumes "serve_step scfg h s = (h', s')"
  shows "hb_bc h' = hb_bc h \<and> hb_store h' = hb_store h \<and> entry (hb_disk h') = entry (hb_disk h)"
proof (cases "sb_pc s")
  case (PcRead st ch fin)
  with assms have "serve_read scfg h st s = (h', s')" by (simp add: serve_step_def)
  then show ?thesis by (rule serve_read_hub)
qed (use assms in \<open>simp_all add: serve_step_def\<close>)

lemma hub_ok_served: "hub_ok cfg L ph h \<Longrightarrow> serve_step scfg h s = (h', s') \<Longrightarrow> hub_ok cfg L ph h'"
  using serve_step_hub [of scfg h s h' s'] ring_inv_entry [of "hb_disk h'" "hb_disk h"]
    files_agree_entry [of "hb_disk h'" "hb_disk h"]
  by (simp add: hub_ok_def)

lemma sub_ok_served: "serve_step scfg h t = (h', t') \<Longrightarrow> sub_ok dec sum64 L lim h' s = sub_ok dec sum64 L lim h s"
  by (drule serve_step_hub) (simp add: sub_ok_def)

text \<open>The request never changes.\<close>

lemma next_ledger_req [simp]: "sb_req (next_ledger msgs s) = sb_req s"
  by (simp add: next_ledger_def)

lemma follow_flow_req [simp]: "sb_req (follow_flow fs snap ch fin s) = sb_req s"
  by (simp add: follow_flow_def Let_def send_chunks_def enter_flow_def split: option.splits)

lemma leave_flow_req [simp]: "sb_req (leave_flow fs ch fin s) = sb_req s"
  by (simp add: leave_flow_def Let_def split: option.splits)

lemma anchor_now_req [simp]: "sb_req (anchor_now sq s) = sb_req s"
  by (simp add: anchor_now_def)

lemma serve_watch_req [simp]: "sb_req (serve_watch h s) = sb_req s"
  by (cases "bc_watch (hb_bc h)") (simp add: serve_watch_split Let_def split: option.splits)

lemma serve_step_req: "serve_step scfg h s = (h', s') \<Longrightarrow> sb_req s' = sb_req s"
  by (auto simp: serve_step_def serve_bounds_def serve_read_def serve_too_far_def serve_settle_def
      split: pc.splits prod.splits option.splits sum.splits store_error.splits if_splits)

section \<open>The system\<close>

text \<open>
  One subscriber among the source and everything else: the source publishes its next event,
  the subscriber takes its next shared access, its connection breaks, or some other
  subscriber, in whatever state, takes a step.
\<close>

type_synonym system = "hub \<times> phase \<times> subscriber"

inductive sys_step :: "'r source_cfg \<Rightarrow> serve_cfg \<Rightarrow> (u32 \<Rightarrow> bytes) \<Rightarrow> system \<Rightarrow> system \<Rightarrow> bool"
  for cfg :: "'r source_cfg" and scfg L where
  sys_source: "emits cfg L ph ev ph' \<Longrightarrow> hub_event h ev = Inr h' \<Longrightarrow> sys_step cfg scfg L (h, ph, s) (h', ph', s)"
| sys_serve: "serve_step scfg h s = (h', s') \<Longrightarrow> sys_step cfg scfg L (h, ph, s) (h', ph, s')"
| sys_break: "sys_step cfg scfg L (h, ph, s) (h, ph, s\<lparr>sb_pc := PcBroken\<rparr>)"
| sys_other: "serve_step scfg h t = (h', t') \<Longrightarrow> sys_step cfg scfg L (h, ph, s) (h', ph, s)"

inductive_cases sys_stepE: "sys_step cfg scfg L (h, ph, s) sys'"

definition sys_steps :: "'r source_cfg \<Rightarrow> serve_cfg \<Rightarrow> (u32 \<Rightarrow> bytes) \<Rightarrow> system \<Rightarrow> system \<Rightarrow> bool" where
  "sys_steps cfg scfg L = (sys_step cfg scfg L)\<^sup>*\<^sup>*"

fun sys_ok :: "'r source_cfg \<Rightarrow> (u32 \<Rightarrow> bytes) \<Rightarrow> decoder \<Rightarrow> nat \<Rightarrow> system \<Rightarrow> bool" where
  "sys_ok cfg L dec lim (h, ph, s) \<longleftrightarrow> hub_ok cfg L ph h \<and> sub_ok dec (sc_sum cfg) L lim h s"

lemma sys_step_ok:
  assumes "sys_step cfg scfg L sys sys'" "server_ok cfg scfg dec lim" "sys_ok cfg L dec lim sys"
  shows "sys_ok cfg L dec lim sys'"
  using assms
proof (induction rule: sys_step.induct)
  case (sys_source ph ev ph' h h' s)
  then show ?case
    using hub_ok_emits [OF _ sys_source(1,2)] sub_ok_grow [of h h' dec "sc_sum cfg" L lim s] by auto
next
  case (sys_serve h s h' s' ph)
  then show ?case
    using serve_step_ok [of cfg L ph h scfg dec lim s h' s'] by auto
next
  case (sys_break h ph s)
  then show ?case by (simp add: sub_ok_def)
next
  case (sys_other h t h' t' ph s)
  then show ?case
    using hub_ok_served [OF _ sys_other(1)] sub_ok_served [OF sys_other(1)] by auto
qed

lemma sys_steps_ok:
  assumes "sys_steps cfg scfg L sys sys'" "server_ok cfg scfg dec lim" "sys_ok cfg L dec lim sys"
  shows "sys_ok cfg L dec lim sys'"
  using assms(1,3) unfolding sys_steps_def
  by (induction rule: rtranclp_induct) (auto intro: sys_step_ok [OF _ assms(2)])

lemma sys_steps_req:
  "sys_steps cfg scfg L sys sys' \<Longrightarrow> sb_req (snd (snd sys')) = sb_req (snd (snd sys))"
  unfolding sys_steps_def
  by (induction rule: rtranclp_induct) (auto elim!: sys_step.cases dest: serve_step_req)

text \<open>What the peer of such a subscriber makes of any prefix of what was written.\<close>

lemma served_prefix:
  "served dec sum64 L lim start msgs c \<Longrightarrow> prefix msgs' msgs \<Longrightarrow>
     \<exists>c'. served dec sum64 L lim start msgs' c' \<and> (in_range rng start c \<longrightarrow> in_range rng start c')"
proof (induction rule: served.induct)
  case sv_start
  then show ?case by (auto intro: served.sv_start)
next
  case (sv_begin msgs n t)
  show ?case
  proof (cases "prefix msgs' msgs")
    case True
    have "in_range rng start (Within n []) \<longrightarrow> in_range rng start (Between n)" by auto
    with sv_begin.IH True show ?thesis by blast
  next
    case False
    with sv_begin.prems served.sv_begin [OF sv_begin(1,2)] show ?thesis
      by (metis prefix_snoc)
  qed
next
  case (sv_again msgs n parts t)
  show ?case
  proof (cases "prefix msgs' msgs")
    case True
    have "in_range rng start (Within n []) \<longrightarrow> in_range rng start (Within n parts)" by auto
    with sv_again.IH True show ?thesis by blast
  next
    case False
    with sv_again.prems served.sv_again [OF sv_again(1)] show ?thesis
      by (metis prefix_snoc)
  qed
next
  case (sv_chunk msgs n parts p m)
  show ?case
  proof (cases "prefix msgs' msgs")
    case True
    have "in_range rng start (Within n (parts @ [p])) \<longrightarrow> in_range rng start (Within n parts)" by auto
    with sv_chunk.IH True show ?thesis by blast
  next
    case False
    with sv_chunk.prems served.sv_chunk [OF sv_chunk(1-4)] show ?thesis
      by (metis prefix_snoc)
  qed
next
  case (sv_end msgs n parts t)
  show ?case
  proof (cases "prefix msgs' msgs")
    case True
    have "start \<le> n" using served_ledger [OF sv_end(1)] by auto
    then have "in_range rng start (Between (n + 1)) \<longrightarrow> in_range rng start (Within n parts)" by auto
    with sv_end.IH True show ?thesis by blast
  next
    case False
    with sv_end.prems served.sv_end [OF sv_end(1,2)] show ?thesis
      by (metis prefix_snoc)
  qed
qed

text \<open>The flagship: what a client has handed up after any part of what a subscriber wrote.\<close>

lemma session_delivers:
  assumes run: "sys_steps cfg scfg L (h0, ph0, new_subscriber req) (h, ph, s)"
    and ok: "hub_ok cfg L ph0 h0" "server_ok cfg scfg dec lim"
    and client: "cc_dec ccfg = dec" "cc_sum ccfg = sc_sum cfg"
      "\<And>start. 0 < start \<Longrightarrow> rq_start req = 0 \<or> unat (rq_start req) = start \<Longrightarrow>
         accepts_stream ccfg (req_range req) L lim start"
    and prefix: "prefix msgs (sb_out s)"
  shows "\<exists>start n. start \<le> n \<and> (rq_start req = 0 \<or> unat (rq_start req) = start) \<and>
    cl_yields (client_run ccfg (req_range req) (map Binary msgs)) = delivered L start n"
proof -
  have "sb_req s = req"
    using sys_steps_req [OF run] by (simp add: new_subscriber_def)
  with prefix have seen: "prefix msgs (sb_out s)" "sb_req s = req" by auto
  have "sys_ok cfg L dec lim (h0, ph0, new_subscriber req)"
    using ok(1) by simp
  from sys_steps_ok [OF run ok(2) this] have sub: "anchored dec (sc_sum cfg) L lim (flows (hb_bc h)) s"
    by (simp add: sub_ok_def)
  show ?thesis
  proof (cases "sb_next s = 0")
    case True
    with sub seen have "msgs = []" "rq_start req = 0"
      by (auto simp: anchored_def)
    then show ?thesis
      by (auto simp: client_run_def new_client_def delivered_def intro!: exI [of _ 0])
  next
    case False
    with sub seen obtain start where start: "0 < start" "rq_start req = 0 \<or> unat (rq_start req) = start"
      and at: "sub_at dec (sc_sum cfg) L lim (flows (hb_bc h)) start s"
      by (auto elim!: anchored_at)
    then obtain c where "served dec (sc_sum cfg) L lim start (sb_out s) c" "in_range (req_range req) start c"
      using seen(2) by (auto simp: sub_at_def)
    from served_prefix [OF this(1) seen(1), of "req_range req"] this(2) obtain c' where
      c': "served dec (sc_sum cfg) L lim start msgs c'" "in_range (req_range req) start c'"
      by blast
    from served_client [OF c'(1) [folded client(1,2)] client(3) [OF start] c'(2)]
    have "client_at (req_range req) L start (client_run ccfg (req_range req) (map Binary msgs)) c'" .
    with served_ledger [OF c'(1)] start show ?thesis
      by (cases c') auto
  qed
qed

end
