(* ===== verification/Session_Live.thy ===== *)
theory Session_Live
  imports Session
begin

text \<open>
  Progress of a subscriber of \<^verbatim>\<open>internal/server\<close>, over the system of theory \<open>Session\<close>. What one
  pass over the flow can lead to is one lemma, \<open>watch_outcome\<close>; from it follow the invariant
  \<open>view_ok\<close> of the program counter (a subscriber asleep on an open channel has nothing to do, a
  close code says what happened) and the measure \<open>steps_left\<close> that every step of a subscriber
  lowers once the source has ended.
\<close>

section \<open>The ring never gains an old ledger\<close>

definition servable :: "store \<Rightarrow> nat \<Rightarrow> bool" where
  "servable s n \<longleftrightarrow> filled s \<and> unat (oldest s) \<le> n \<and> n \<le> unat (latest s)"

lemma pruneLocked_servable:
  assumes "ring_inv s d" "pruneLocked s d = (e, s1, d1)" "servable s1 n"
  shows "servable s n"
proof (cases "filled s")
  case True
  then have span: "oldest s \<le> latest s" "0 < retention s"
    using assms(1) by (auto simp: ring_inv_def)
  obtain e' old' d' where loop: "prune_loop (dir s) (retention s) (latest s) (oldest s) d = (e', old', d')"
    by (metis prod_cases3)
  from prune_loop_spec [OF loop span] have "unat (oldest s) \<le> unat old'"
    by (simp add: word_le_nat_alt)
  with assms(2,3) loop True show ?thesis
    by (auto simp: pruneLocked_def servable_def)
qed (use assms in \<open>auto simp: pruneLocked_def\<close>)

lemma extend_servable:
  "servable (Store.extend s q) n \<Longrightarrow> n \<noteq> unat q \<Longrightarrow> filled s \<Longrightarrow> q = latest s + 1 \<Longrightarrow> servable s n"
  using unat_u32_Suc [of "latest s"]
  by (cases "latest s = max_u32") (auto simp: servable_def Store.extend_def)

lemma put_servable:
  assumes "ring_inv s d" "put s d q parts = (r, s', d')" "servable s' n" "n \<noteq> unat q"
  shows "servable s n"
proof (cases "q = 0")
  case nz: False
  let ?rst = "filled s \<and> q \<noteq> latest s + 1"
  obtain e1 s1 d1 where c: "(if ?rst then clearLocked s d else (None, s, d)) = (e1, s1, d1)"
    by (metis prod_cases3)
  have s1: "ring_inv s1 d1" "e1 \<noteq> None \<Longrightarrow> s1 = s" "filled s1 \<Longrightarrow> s1 = s" "e1 = None \<Longrightarrow> filled s1 \<Longrightarrow> q = latest s + 1"
    using clearLocked_inv [OF assms(1), of e1 s1 d1] c assms(1) by (auto split: if_splits)
  show ?thesis
  proof (cases e1)
    case (Some e)
    with assms(2,3) nz c s1(2) show ?thesis by (auto simp: put_def Let_def)
  next
    case None
    obtain e2 d2 where w: "write_ledger s1 q parts d1 = (e2, d2)" by fastforce
    show ?thesis
    proof (cases e2)
      case (Some e)
      with assms(2) nz c None w have "s' = s1" by (auto simp: put_def Let_def)
      with assms(3) s1(3) show ?thesis by (auto simp: servable_def)
    next
      case e2: None
      obtain e3 s3 d3 where p: "pruneLocked (Store.extend s1 q) d2 = (e3, s3, d3)"
        by (metis prod_cases3)
      with assms(2) nz c None w e2 have "s' = s3" by (auto simp: put_def Let_def Store.extend_def)
      moreover have "ring_inv (Store.extend s1 q) d2"
        using extend_inv [OF s1(1), of q parts d2] w e2 nz s1 None by auto
      ultimately have "servable (Store.extend s1 q) n"
        using pruneLocked_servable p assms(3) by blast
      with extend_servable assms(4) s1(3) s1(4) [OF None] show ?thesis
        by (cases "filled s1") (auto simp: servable_def Store.extend_def)
    qed
  qed
qed (use assms in \<open>auto simp: put_def\<close>)

section \<open>What one watch leads to\<close>

text \<open>Something of the current flow is still to be written: its BEGIN or a chunk.\<close>

definition unsent :: "hub \<Rightarrow> subscriber \<Rightarrow> bool" where
  "unsent h s \<longleftrightarrow> (let fs = flows (hb_bc h) in
     \<not> (fs \<noteq> [] \<and> sb_begun s \<and> sb_flow s = Some (length fs - 1) \<and>
        length (fl_chunks (last fs)) \<le> sb_sent s))"

text \<open>The current ledger's sequence, zero before the first.\<close>

definition tip :: "hub \<Rightarrow> nat" where
  "tip h = (if flows (hb_bc h) = [] then 0 else unat (fl_seq (last (flows (hb_bc h)))))"

text \<open>
  The cursor is waiting for the source: not anchored and nothing begun, ahead of the current
  ledger, or on it with everything sent while it is still open. And the cursor is behind:
  only the ring can serve it.
\<close>

definition awaits :: "hub \<Rightarrow> subscriber \<Rightarrow> bool" where
  "awaits h s \<longleftrightarrow> (if sb_next s = 0 then tip h = 0 else tip h \<noteq> 0 \<and> tip h < sb_next s) \<or>
     (sb_next s \<noteq> 0 \<and> sb_next s = tip h \<and> \<not> unsent h s \<and> fl_end (last (flows (hb_bc h))) = None)"

definition behind :: "hub \<Rightarrow> subscriber \<Rightarrow> bool" where
  "behind h s \<longleftrightarrow> sb_next s \<noteq> 0 \<and> (sb_next s < tip h \<or> tip h = 0)"

definition watch_result :: "hub \<Rightarrow> subscriber \<Rightarrow> subscriber \<Rightarrow> bool" where
  "watch_result h s s' \<longleftrightarrow> sb_next s \<le> sb_next s' \<and> sb_next s' \<le> max (sb_next s) (2 ^ 32) \<and>
     (sb_pc s' = PcClosed StatusNormalClosure [] \<and> past_end s' \<or>
      sb_pc s' = PcWatch \<and> sb_next s < sb_next s' \<and> sb_next s' \<le> 2 ^ 32 \<or>
      sb_pc s' = PcWatch \<and> unsent h s \<and> \<not> unsent h s' \<or>
      sb_pc s' = PcSettle (notify (hb_bc h)) (ended (hb_bc h)) \<and> \<not> past_end s' \<and> awaits h s' \<or>
      sb_pc s' = PcBounds (notify (hb_bc h)) (ended (hb_bc h)) \<and> \<not> past_end s' \<and> behind h s')"

lemma watch_result_mono:
  assumes "watch_result h s0 s'" "sb_next s \<le> sb_next s0" "sb_next s0 \<le> max (sb_next s) (2 ^ 32)"
    and "unsent h s0 = unsent h s"
  shows "watch_result h s s'"
proof -
  have "sb_next s \<le> sb_next s'" "sb_next s' \<le> max (sb_next s) (2 ^ 32)"
    using assms(1-3) by (auto simp: watch_result_def)
  moreover have "sb_next s0 < sb_next s' \<Longrightarrow> sb_next s < sb_next s'"
    using assms(2) by simp
  ultimately show ?thesis
    using assms(1,4) unfolding watch_result_def by blast
qed

lemma served_begun:
  assumes "sub_at dec sum64 L lim fs start s" "sb_begun s"
  shows "sb_next s < 2 ^ 32"
  using assms served_ledger [of dec sum64 L lim start "sb_out s"] by (fastforce simp: sub_at_def)

lemma watch_snap:
  assumes "bc_inv b" "bc_watch b = (snap, ch, fin)"
  shows "ch = notify b \<and> fin = ended b \<and>
    (if flows b = [] then snap = \<lparr>sn_flow = None, sn_chunks = [], sn_end = None\<rparr>
     else snap = snap_of (flows b) (length (flows b) - 1))"
  by (cases rule: watch_cases [OF assms(1)]) (use assms(2) in auto)

lemma follow_flow_result:
  assumes fs: "flows (hb_bc h) \<noteq> []" "i = length (flows (hb_bc h)) - 1"
    and n: "sb_next s = tip h" "sb_next s \<noteq> 0" "\<not> past_end s" and live: "\<not> (\<not> sb_begun s \<and> fl_end (flows (hb_bc h) ! i) \<noteq> None)"
    and at: "sub_at dec sum64 L lim (flows (hb_bc h)) start s"
  shows "watch_result h s (follow_flow (flows (hb_bc h)) (snap_of (flows (hb_bc h)) i) (notify (hb_bc h)) (ended (hb_bc h)) s)"
proof -
  let ?fs = "flows (hb_bc h)"
  let ?f = "?fs ! i"
  let ?s = "follow_flow ?fs (snap_of ?fs i) (notify (hb_bc h)) (ended (hb_bc h)) s"
  have last: "last ?fs = ?f"
    using fs by (simp add: last_conv_nth)
  have n32: "sb_next s < 2 ^ 32"
    using n by (auto simp: tip_def fs)
  define s1 where "s1 = enter_flow ?fs (snap_of ?fs i) s"
  define s2 where "s2 = send_chunks (snap_of ?fs i) s1"
  have s2: "sb_next s2 = sb_next s" "sb_flow s2 = Some i" "sb_begun s2" "sb_sent s2 \<ge> length (fl_chunks ?f)"
    by (auto simp: s2_def send_chunks_def s1_def enter_flow_def fresh_flow_def)
  have past: "past_end s2 = past_end s"
    by (simp add: s2_def send_chunks_def s1_def enter_flow_def past_end_def)
  have sent: "\<not> unsent h (s2\<lparr>sb_pc := x\<rparr>)" for x
    using s2 fs last by (simp add: unsent_def Let_def)
  have fresh: "unsent h s" if "fresh_flow (snap_of ?fs i) s \<or> sb_sent s1 < length (fl_chunks ?f)"
    using that fs last by (auto simp: unsent_def Let_def s1_def enter_flow_def fresh_flow_def split: if_splits)
  have follow: "?s = (case fl_end ?f of
      Some e \<Rightarrow> next_ledger [e] s2
    | None \<Rightarrow> s2\<lparr>sb_pc := (if fresh_flow (snap_of ?fs i) s \<or> sb_sent s1 < length (fl_chunks ?f)
                             then PcWatch else PcSettle (notify (hb_bc h)) (ended (hb_bc h)))\<rparr>)"
    by (simp only: follow_flow_def Let_def s1_def s2_def snap_of_simps)
  show ?thesis
  proof (cases "fl_end ?f")
    case (Some e)
    with s2 n32 show ?thesis by (simp add: follow watch_result_def next_ledger_def)
  next
    case None
    show ?thesis
    proof (cases "fresh_flow (snap_of ?fs i) s \<or> sb_sent s1 < length (fl_chunks ?f)")
      case True
      with None s2 sent fresh show ?thesis by (simp add: follow watch_result_def)
    next
      case False
      have "tip h = sb_next s2" "sb_next s2 \<noteq> 0"
        using s2 n by auto
      with None s2 sent past n(3) False last show ?thesis
        by (simp add: follow watch_result_def awaits_def)
    qed
  qed
qed

lemma leave_flow_result:
  assumes begun: "sb_begun s \<Longrightarrow> \<exists>i. sb_flow s = Some i" "sb_begun s \<Longrightarrow> sb_next s < 2 ^ 32" and "behind h s" "\<not> past_end s"
  shows "watch_result h s (leave_flow fs (notify (hb_bc h)) (ended (hb_bc h)) s)"
  using assms by (auto simp: leave_flow_def watch_result_def behind_def next_ledger_def past_end_def Let_def split: option.splits)

lemma watch_outcome:
  assumes hub: "hub_ok cfg L ph h" and srv: "server_ok cfg scfg dec lim"
    and sub: "sub_ok dec (sc_sum cfg) L lim h s"
  shows "watch_result h s (serve_watch h s)"
proof -
  let ?b = "hb_bc h" and ?fs = "flows (hb_bc h)"
  have inv: "bc_inv ?b" using hub by (simp add: hub_ok_def bc_at_def)
  obtain snap ch fin where w: "bc_watch ?b = (snap, ch, fin)"
    by (metis prod_cases3)
  note snap = watch_snap [OF inv w]
  have sq: "unat (sn_seq ?fs snap) = tip h"
    using snap by (simp add: tip_def sn_seq_def snap_of_def last_conv_nth split: if_splits)
  define s0 where "s0 = anchor_now (sn_seq ?fs snap) s"
  have s0_next: "sb_next s0 = (if sb_next s = 0 then tip h else sb_next s)"
    by (simp add: s0_def anchor_now_def sq)
  have unsent0: "unsent h s0 = unsent h s"
    by (cases "sb_next s = 0") (simp_all add: s0_def anchor_now_def unsent_def)
  have "sb_next s \<le> sb_next s0" "sb_next s0 \<le> max (sb_next s) (2 ^ 32)"
    using less_imp_le [OF unat_lt_u32 [of "fl_seq (last ?fs)"]] by (auto simp: s0_next tip_def)
  note lift = watch_result_mono [OF _ this unsent0]
  show ?thesis
  proof (cases rule: serve_watch_cases [OF hub srv sub w refl refl s0_def, unfolded sq, case_names halt stampless follow leave ahead])
    case halt
    moreover have "tip h = 0" if "sb_next s0 = 0"
      using that by (auto simp: s0_next split: if_splits)
    ultimately show ?thesis
      using snap by (intro lift) (auto simp: watch_result_def awaits_def)
  next
    case (stampless start out)
    then show ?thesis by (intro lift) (simp add: watch_result_def)
  next
    case (follow start i)
    then have ne: "?fs \<noteq> []" by auto
    have tip: "snap = snap_of ?fs (length ?fs - 1)" and gen: "ch = notify ?b" "fin = ended ?b"
      using snap ne by simp_all
    have live: "\<not> (\<not> sb_begun s0 \<and> fl_end (?fs ! (length ?fs - 1)) \<noteq> None)"
      using follow(8) by (simp add: tip sn_complete_def)
    have "sb_next s0 \<noteq> 0" using follow(4) by simp
    from follow_flow_result [OF ne refl follow(3) this follow(2) live started_at_at [OF follow(1)]] show ?thesis
      unfolding follow(9) by (intro lift) (simp only: tip gen)
  next
    case (leave start)
    have "sb_begun s0 \<Longrightarrow> \<exists>i. sb_flow s0 = Some i"
      using started_at_at [OF leave(1)] by (auto simp: sub_at_def)
    with leave_flow_result [of s0 h ?fs] served_begun [OF started_at_at [OF leave(1)]] leave snap show ?thesis
      by (intro lift) (auto simp: behind_def)
  next
    case (ahead start)
    with snap show ?thesis by (intro lift) (auto simp: watch_result_def awaits_def)
  qed
qed

section \<open>What a program counter knows\<close>

text \<open>
  A subscriber with nothing to do: it waits for the source, or the ring does not have what it
  asks for. And what a close code claims.
\<close>

definition idle :: "hub \<Rightarrow> subscriber \<Rightarrow> bool" where
  "idle h s \<longleftrightarrow> awaits h s \<or> behind h s \<and> \<not> servable (hb_store h) (sb_next s)"

definition honest_close :: "hub \<Rightarrow> subscriber \<Rightarrow> int \<Rightarrow> bool" where
  "honest_close h s code \<longleftrightarrow>
     code = StatusNormalClosure \<and>
       (past_end s \<or> ended (hb_bc h) \<and> bc_failure (hb_bc h) = None \<and> \<not> rq_bounded (sb_req s)) \<or>
     code = StatusGoingAway \<and> ended (hb_bc h) \<and> bc_failure (hb_bc h) = None \<and>
       rq_bounded (sb_req s) \<and> sb_next s \<le> unat (rq_end (sb_req s)) \<or>
     code = StatusInternalError \<and> ended (hb_bc h) \<and> bc_failure (hb_bc h) \<noteq> None \<or>
     code = StatusTooFarBehind"

fun pc_view :: "hub \<Rightarrow> subscriber \<Rightarrow> pc \<Rightarrow> bool" where
  "pc_view h s (PcBounds ch fin) =
     (ch \<le> notify (hb_bc h) \<and> (fin \<longrightarrow> ended (hb_bc h)) \<and> \<not> past_end s \<and> (ch_closed (hb_bc h) ch \<or> behind h s))"
| "pc_view h s (PcSettle ch fin) =
     (ch \<le> notify (hb_bc h) \<and> (fin \<longrightarrow> ended (hb_bc h)) \<and> \<not> past_end s \<and> (fin \<or> ch_closed (hb_bc h) ch \<or> idle h s))"
| "pc_view h s (PcSleep ch) = (ch \<le> notify (hb_bc h) \<and> (ch_closed (hb_bc h) ch \<or> idle h s))"
| "pc_view h s (PcClosed code reason) = honest_close h s code"
| "pc_view h s _ = True"

definition view_ok :: "hub \<Rightarrow> subscriber \<Rightarrow> bool" where
  "view_ok h s \<longleftrightarrow> pc_view h s (sb_pc s) \<and> sb_next s \<le> 2 ^ 32"

lemma idle_pc [simp]: "idle h (s\<lparr>sb_pc := x\<rparr>) = idle h s" "behind h (s\<lparr>sb_pc := x\<rparr>) = behind h s"
  by (simp_all add: idle_def awaits_def behind_def unsent_def)

lemma new_subscriber_view [simp]: "view_ok h (new_subscriber req)"
  using less_imp_le [OF unat_lt_u32 [of "rq_start req"]] by (simp add: view_ok_def new_subscriber_def)

lemma anchorTip_bound: "anchorTip b \<le> 2 ^ 32"
  using Suc_leI [OF unat_lt_u32 [of "sn_seq (flows b) (fst (bc_watch b))"]]
    less_imp_le [OF unat_lt_u32 [of "sn_seq (flows b) (fst (bc_watch b))"]]
  by (auto simp: anchorTip_def split: prod.splits)

lemma serve_step_view:
  assumes hub: "hub_ok cfg L ph h" and srv: "server_ok cfg scfg dec lim"
    and sub: "sub_ok dec (sc_sum cfg) L lim h s" and view: "view_ok h s" and step: "serve_step scfg h s = (h', s')"
  shows "view_ok h' s'"
proof (cases "sb_pc s")
  case PcAnchor
  with step anchorTip_bound [of "hb_bc h"] show ?thesis
    by (auto simp: serve_step_def view_ok_def)
next
  case PcWatch
  then have "h' = h" "s' = serve_watch h s"
    using step by (auto simp: serve_step_def)
  with watch_outcome [OF hub srv sub] view show ?thesis
    by (auto simp: watch_result_def view_ok_def honest_close_def idle_def ch_closed_def)
next
  case (PcBounds ch fin)
  with view step show ?thesis
    by (auto simp: serve_step_def serve_bounds_def Bounds_def view_ok_def idle_def servable_def)
next
  case (PcRead st ch fin)
  have "sb_next s < 2 ^ 32"
    using sub PcRead by (simp add: sub_ok_def)
  with PcRead view step show ?thesis
    by (auto simp: serve_step_def serve_read_def view_ok_def split: prod.splits sum.splits store_error.splits)
next
  case (PcSettle ch fin)
  with view step show ?thesis
    by (auto simp: serve_step_def serve_settle_def view_ok_def honest_close_def endedClose_def past_end_def
        bc_failure_def split: option.splits prod.splits if_splits)
qed (use view step in \<open>auto simp: serve_step_def serve_too_far_def view_ok_def honest_close_def split: prod.splits\<close>)

text \<open>The source's steps: either it closes the channel, or it is a put of the current ledger.\<close>

lemma emit_effect:
  assumes hub: "hub_ok cfg L ph h" and emit: "emits cfg L ph ev ph'" and step: "hub_event h ev = Inr h'"
  shows "ch_closed (hb_bc h') (notify (hb_bc h)) \<and> notify (hb_bc h) \<le> notify (hb_bc h') \<or>
    hb_bc h' = hb_bc h \<and> (\<forall>n. servable (hb_store h') n \<longrightarrow> n \<noteq> tip h \<longrightarrow> servable (hb_store h) n)"
proof (cases "\<exists>q parts. ev = EvPut q parts")
  case True
  then obtain q parts where ev: "ev = EvPut q parts" by blast
  with emit hub have "q = fl_seq (last (flows (hb_bc h)))" "flows (hb_bc h) \<noteq> []"
    by (auto elim!: emitsE simp: hub_ok_def bc_at_def phase_at_def)
  then have q: "unat q = tip h" by (simp add: tip_def)
  obtain r s' d' where put: "put (hb_store h) (hb_disk h) q parts = (r, s', d')"
    by (metis prod_cases3)
  with ev step have "hb_bc h' = hb_bc h" "hb_store h' = s'"
    by (auto simp: PutParts_def)
  moreover have "ring_inv (hb_store h) (hb_disk h)" using hub by (simp add: hub_ok_def)
  ultimately show ?thesis
    using put_servable [OF _ put] q by auto
next
  case False
  have inv: "bc_inv (hb_bc h)" using hub by (simp add: hub_ok_def bc_at_def)
  have "\<not> ended (hb_bc h)"
    using emit hub by (cases ph) (auto elim!: emitsE simp: hub_ok_def bc_at_def phase_at_def)
  with False step inv show ?thesis
    by (cases ev) (auto simp: with_bc_def bc_begin_Inr bc_chunk_Inr bc_end_Inr bc_finish_def ch_closed_def
        split: sum.splits)
qed

lemma emit_not_ended: "hub_ok cfg L ph h \<Longrightarrow> emits cfg L ph ev ph' \<Longrightarrow> \<not> ended (hb_bc h)"
  by (cases ph) (auto elim!: emitsE simp: hub_ok_def bc_at_def phase_at_def)

lemma pc_view_mono:
  assumes "ch_closed (hb_bc h') (notify (hb_bc h)) \<and> notify (hb_bc h) \<le> notify (hb_bc h') \<or>
      hb_bc h' = hb_bc h \<and> (\<forall>n. servable (hb_store h') n \<longrightarrow> n \<noteq> tip h \<longrightarrow> servable (hb_store h) n)"
    and "\<not> ended (hb_bc h)" "pc_view h s p"
  shows "pc_view h' s p"
  using assms(1)
proof
  assume closed: "ch_closed (hb_bc h') (notify (hb_bc h)) \<and> notify (hb_bc h) \<le> notify (hb_bc h')"
  have "ch_closed (hb_bc h') ch" if "ch \<le> notify (hb_bc h)" for ch
    using that closed by (auto simp: ch_closed_def)
  with closed assms(2,3) show ?thesis
    by (cases p) (auto simp: honest_close_def)
next
  assume put: "hb_bc h' = hb_bc h \<and> (\<forall>n. servable (hb_store h') n \<longrightarrow> n \<noteq> tip h \<longrightarrow> servable (hb_store h) n)"
  have "idle h s \<Longrightarrow> idle h' s" "behind h s = behind h' s"
    using put by (auto simp: idle_def awaits_def behind_def tip_def unsent_def)
  with put assms(2,3) show ?thesis
    by (cases p) (auto simp: honest_close_def)
qed

lemma view_ok_served: "serve_step scfg h t = (h', t') \<Longrightarrow> view_ok h' s = view_ok h s"
  by (drule serve_step_hub, cases "sb_pc s")
    (simp_all add: view_ok_def idle_def awaits_def behind_def tip_def unsent_def honest_close_def)

lemma sys_step_view:
  assumes "sys_step cfg scfg L sys sys'" "server_ok cfg scfg dec lim" "sys_ok cfg L dec lim sys"
    and "view_ok (fst sys) (snd (snd sys))"
  shows "view_ok (fst sys') (snd (snd sys'))"
  using assms
proof (induction rule: sys_step.induct)
  case (sys_source ph ev ph' h h' s)
  then show ?case
    using pc_view_mono [OF emit_effect [OF _ sys_source(1,2)] emit_not_ended [OF _ sys_source(1)]]
    by (auto simp: view_ok_def)
next
  case (sys_serve h s h' s' ph)
  then show ?case
    using serve_step_view [of cfg L ph h scfg dec lim s h' s'] by auto
next
  case (sys_break h ph s)
  then show ?case by (simp add: view_ok_def)
next
  case (sys_other h t h' t' ph s)
  then show ?case
    using view_ok_served [OF sys_other(1)] by simp
qed

lemma sys_steps_view:
  assumes "sys_steps cfg scfg L sys sys'" "server_ok cfg scfg dec lim" "sys_ok cfg L dec lim sys"
    and "view_ok (fst sys) (snd (snd sys))"
  shows "view_ok (fst sys') (snd (snd sys'))"
proof -
  have "sys_ok cfg L dec lim sys' \<and> view_ok (fst sys') (snd (snd sys'))"
    using assms(1,3,4) unfolding sys_steps_def
    by (induction rule: rtranclp_induct) (auto intro: sys_step_ok [OF _ assms(2)] sys_step_view [OF _ assms(2)])
  then show ?thesis ..
qed

section \<open>After the source has ended\<close>

text \<open>
  A measure of how many steps a subscriber can still take once nothing more will be published:
  twelve for every sequence up to the last, and a rank of the program counter.
\<close>

fun finished :: "pc \<Rightarrow> bool" where
  "finished (PcClosed code reason) = True"
| "finished PcBroken = True"
| "finished PcPanicked = True"
| "finished _ = False"

fun pc_rank :: "bool \<Rightarrow> pc \<Rightarrow> nat" where
  "pc_rank u PcAnchor = 10"
| "pc_rank u (PcBounds ch fin) = (if fin then 4 else 9)"
| "pc_rank u (PcSettle ch fin) = (if fin then 1 else 8)"
| "pc_rank u (PcSleep ch) = 7"
| "pc_rank u PcWatch = (if u then 6 else 5)"
| "pc_rank u (PcGet ch fin) = 3"
| "pc_rank u (PcRead st ch fin) = 2"
| "pc_rank u PcTooFar = 1"
| "pc_rank u _ = 0"

definition steps_left :: "hub \<Rightarrow> subscriber \<Rightarrow> nat" where
  "steps_left h s = 12 * (2 ^ 32 + 1 - sb_next s) + pc_rank (unsent h s) (sb_pc s)"

lemma pc_rank_bound: "pc_rank u p \<le> 10"
  by (cases p) auto

lemma steps_left_bound: "steps_left h s \<le> 12 * (2 ^ 32 + 2)"
  using pc_rank_bound [of "unsent h s" "sb_pc s"] by (simp add: steps_left_def)

lemma unsent_store [simp]: "unsent (h\<lparr>hb_disk := d\<rparr>) s = unsent h s"
  by (simp add: unsent_def)

lemma steps_left_next:
  "sb_next s < sb_next s' \<Longrightarrow> sb_next s' \<le> 2 ^ 32 \<Longrightarrow> sb_pc s' = PcWatch \<Longrightarrow> steps_left h' s' < steps_left h s"
  by (cases "unsent h' s'"; simp add: steps_left_def; linarith)

lemma steps_left_rank:
  "sb_next s \<le> sb_next s' \<Longrightarrow> pc_rank (unsent h' s') (sb_pc s') < pc_rank (unsent h s) (sb_pc s) \<Longrightarrow>
     steps_left h' s' < steps_left h s"
  unfolding steps_left_def by (intro add_le_less_mono mult_le_mono2 diff_le_mono2)

lemma serve_step_progress:
  assumes hub: "hub_ok cfg L ph h" and srv: "server_ok cfg scfg dec lim"
    and sub: "sub_ok dec (sc_sum cfg) L lim h s" and view: "view_ok h s"
    and fin: "ended (hb_bc h)" and live: "\<not> finished (sb_pc s)" and step: "serve_step scfg h s = (h', s')"
  shows "steps_left h' s' < steps_left h s"
proof (cases "sb_pc s")
  case PcAnchor
  with step sub show ?thesis
    by (intro steps_left_rank) (auto simp: serve_step_def sub_ok_def)
next
  case PcWatch
  then have "h' = h" "s' = serve_watch h s"
    using step by (auto simp: serve_step_def)
  with watch_outcome [OF hub srv sub] PcWatch fin show ?thesis
    unfolding watch_result_def by (auto intro: steps_left_next steps_left_rank)
next
  case (PcBounds ch fin)
  with step show ?thesis
    by (intro steps_left_rank) (auto simp: serve_step_def serve_bounds_def Bounds_def)
next
  case (PcRead st ch fin)
  have "sb_next s < 2 ^ 32"
    using sub PcRead by (simp add: sub_ok_def)
  with PcRead step show ?thesis
    by (auto simp: serve_step_def serve_read_def intro: steps_left_next steps_left_rank
        split: prod.splits sum.splits store_error.splits)
next
  case (PcSettle ch fin)
  with step show ?thesis
    by (intro steps_left_rank) (auto simp: serve_step_def serve_settle_def split: option.splits prod.splits)
next
  case (PcSleep ch)
  have "notify_closed (hb_bc h)"
    using hub fin by (simp add: hub_ok_def bc_at_def bc_inv_def)
  with PcSleep view have "ch_closed (hb_bc h) ch"
    by (auto simp: view_ok_def ch_closed_def)
  with PcSleep step show ?thesis
    by (intro steps_left_rank) (auto simp: serve_step_def)
qed (use step live in \<open>auto simp: serve_step_def serve_too_far_def split: prod.splits intro!: steps_left_rank\<close>)

lemma serve_closes:
  assumes srv: "server_ok cfg scfg dec lim"
  shows "hub_ok cfg L ph h \<Longrightarrow> sub_ok dec (sc_sum cfg) L lim h s \<Longrightarrow> view_ok h s \<Longrightarrow> ended (hb_bc h) \<Longrightarrow>
    \<exists>k \<le> steps_left h s. finished (sb_pc (snd (((\<lambda>(h, s). serve_step scfg h s) ^^ k) (h, s))))"
proof (induction "steps_left h s" arbitrary: h s rule: less_induct)
  case less
  show ?case
  proof (cases "finished (sb_pc s)")
    case True
    then show ?thesis by (intro exI [of _ 0]) simp
  next
    case False
    obtain h' s' where step: "serve_step scfg h s = (h', s')" by fastforce
    note ok = serve_step_ok [OF less.prems(1) srv less.prems(2) step]
    note view = serve_step_view [OF less.prems(1) srv less.prems(2,3) step]
    note fewer = serve_step_progress [OF less.prems(1) srv less.prems(2-4) False step]
    from less.hyps [OF fewer] ok view less.prems(4) obtain k where
      "k \<le> steps_left h' s'" "finished (sb_pc (snd (((\<lambda>(h, s). serve_step scfg h s) ^^ k) (h', s'))))"
      by auto
    with step fewer show ?thesis
      by (intro exI [of _ "Suc k"]) (simp add: funpow_Suc_right del: funpow.simps)
  qed
qed

section \<open>What a subscriber of a run has written\<close>

lemma session_position:
  assumes run: "sys_steps cfg scfg L (h0, ph0, new_subscriber req) (h, ph, s)"
    and ok: "hub_ok cfg L ph0 h0" "server_ok cfg scfg dec lim"
    and client: "cc_dec ccfg = dec" "cc_sum ccfg = sc_sum cfg"
      "\<And>start. 0 < start \<Longrightarrow> rq_start req = 0 \<or> unat (rq_start req) = start \<Longrightarrow>
         accepts_stream ccfg (req_range req) L lim start"
    and anchored: "sb_next s \<noteq> 0"
  shows "\<exists>start. 0 < start \<and> (rq_start req = 0 \<or> unat (rq_start req) = start) \<and>
    (rq_bounded req \<longrightarrow> sb_next s = start \<or> sb_next s \<le> unat (rq_end req) + 1) \<and>
    cl_yields (client_run ccfg (req_range req) (map Binary (sb_out s))) = delivered L start (sb_next s)"
proof -
  have req: "sb_req s = req"
    using sys_steps_req [OF run] by (simp add: new_subscriber_def)
  have "sys_ok cfg L dec lim (h0, ph0, new_subscriber req)"
    using ok(1) by simp
  from sys_steps_ok [OF run ok(2) this] have "anchored dec (sc_sum cfg) L lim (flows (hb_bc h)) s"
    by (simp add: sub_ok_def)
  then obtain start where start: "0 < start" "rq_start req = 0 \<or> unat (rq_start req) = start"
    and at: "sub_at dec (sc_sum cfg) L lim (flows (hb_bc h)) start s"
    using anchored req by (auto elim!: anchored_at)
  then obtain c where c: "served dec (sc_sum cfg) L lim start (sb_out s) c" "in_range (req_range req) start c"
      "cursor_ledger c = sb_next s"
    using req by (auto simp: sub_at_def)
  from served_client [OF c(1) [folded client(1,2)] client(3) [OF start] c(2)] c(2,3) start show ?thesis
    by (cases c) (auto simp: req_range_def)
qed

end
