(* ===== verification/Pipelined.thy ===== *)
theory Pipelined
  imports Session
begin

text \<open>
  The source loop with its compressing pipeline running beside it. Theory \<open>Source_Loop\<close> publishes
  a chunk when it is submitted; in the code \<^verbatim>\<open>submit\<close> (\<^verbatim>\<open>compress.go\<close>) only queues it, while workers
  and the publisher of theory \<open>Compress\<close> run on, and \<^verbatim>\<open>Run\<close> (\<^verbatim>\<open>server.go\<close>) waits for them twice: in
  \<^verbatim>\<open>flush\<close> before END, and in the deferred \<^verbatim>\<open>close\<close> before the deferred \<^verbatim>\<open>finish\<close>. Here the two
  goroutine groups interleave in any order.

  The locale \<open>event_simulation\<close> is what makes one labelled system a refinement of another: every
  step emits nothing and leaves the abstraction alone, or emits one event the abstract system
  can make. It is interpreted on the pipelined loop against the grammar \<open>emits\<close>, with the ledger
  as far as it is published for abstraction; so everything theory \<open>Session\<close> shows of sources that
  follow the grammar holds of a server that compresses.
\<close>

section \<open>Simulation of events\<close>

inductive labelled_runs :: "('c \<Rightarrow> 'e list \<Rightarrow> 'c \<Rightarrow> bool) \<Rightarrow> 'c \<Rightarrow> 'e list \<Rightarrow> 'c \<Rightarrow> bool" for step where
  runs_nil: "labelled_runs step c [] c"
| runs_snoc: "labelled_runs step c evs c' \<Longrightarrow> step c' new c'' \<Longrightarrow> labelled_runs step c (evs @ new) c''"

lemma labelled_runs_trans: "labelled_runs step b evs' c \<Longrightarrow> labelled_runs step a evs b \<Longrightarrow> labelled_runs step a (evs @ evs') c"
  by (induction rule: labelled_runs.induct) (auto intro: runs_snoc simp flip: append_assoc)

lemma labelled_runs_cons: "step a evs b \<Longrightarrow> labelled_runs step b evs' c \<Longrightarrow> labelled_runs step a (evs @ evs') c"
  using labelled_runs_trans [of step b evs' c a evs] runs_snoc [OF runs_nil, of step a evs b] by simp

definition single :: "('a \<Rightarrow> 'e \<Rightarrow> 'a \<Rightarrow> bool) \<Rightarrow> 'a \<Rightarrow> 'e list \<Rightarrow> 'a \<Rightarrow> bool" where
  "single astep a evs a' \<longleftrightarrow> (\<exists>ev. evs = [ev] \<and> astep a ev a')"

locale event_simulation =
  fixes cstep :: "'c \<Rightarrow> 'e list \<Rightarrow> 'c \<Rightarrow> bool" and astep :: "'a \<Rightarrow> 'e \<Rightarrow> 'a \<Rightarrow> bool"
    and inv :: "'c \<Rightarrow> bool" and view :: "'c \<Rightarrow> 'a"
  assumes matched: "inv c \<Longrightarrow> cstep c evs c' \<Longrightarrow>
      inv c' \<and> (evs = [] \<and> view c' = view c \<or> single astep (view c) evs (view c'))"
begin

lemma runs_matched: "labelled_runs cstep c evs c' \<Longrightarrow> inv c \<Longrightarrow> inv c' \<and> labelled_runs (single astep) (view c) evs (view c')"
proof (induction rule: labelled_runs.induct)
  case (runs_snoc c evs c' new c'')
  with matched [OF _ runs_snoc(2)] show ?case
    by (auto intro: labelled_runs.runs_snoc)
qed (simp add: runs_nil)

end

section \<open>The source loop beside its pipeline\<close>

type_synonym piped = "phase \<times> pipeline"

text \<open>
  The phase is what the source goroutine has called; a step's events are what it published.
  Chunks are read as the loop reads them: not empty, within the chunk size and the payload cap.
  \<open>ps_inline\<close> is the pipeline of a nil encoder; \<open>ps_finish\<close> is every return of \<^verbatim>\<open>Run\<close>.
\<close>

definition next_part :: "'r source_cfg \<Rightarrow> (u32 \<Rightarrow> bytes) \<Rightarrow> u32 \<Rightarrow> bytes list \<Rightarrow> bytes \<Rightarrow> bool" where
  "next_part cfg L sq parts raw \<longleftrightarrow> raw \<noteq> [] \<and> length raw \<le> nat (sc_chunk cfg) \<and>
     prefix (concat parts @ raw) (L sq) \<and> int (length (concat parts @ raw)) \<le> sc_max cfg"

inductive piped_step :: "'r source_cfg \<Rightarrow> nat \<Rightarrow> (u32 \<Rightarrow> bytes) \<Rightarrow> piped \<Rightarrow> event list \<Rightarrow> piped \<Rightarrow> bool"
  for cfg :: "'r source_cfg" and workers L where
  ps_begin: "prev = 0 \<or> sq = prev + 1 \<Longrightarrow>
    piped_step cfg workers L (Idle prev, p) [EvBegin sq (AppendBegin [] sq t)] (InFlow sq [], p)"
| ps_submit: "sc_enc cfg \<noteq> None \<Longrightarrow> next_part cfg L sq parts raw \<Longrightarrow> length gap = ChunkHeaderSize \<Longrightarrow>
    pl_submit p \<lparr>j_seq = sq, j_idx = word_of_nat (length parts), j_msg = gap @ raw, j_out = None\<rparr> p' \<Longrightarrow>
    piped_step cfg workers L (InFlow sq parts, p) [] (InFlow sq (parts @ [raw]), p')"
| ps_inline: "sc_enc cfg = None \<Longrightarrow> next_part cfg L sq parts raw \<Longrightarrow> length gap = ChunkHeaderSize \<Longrightarrow>
    submit_inline [] sq (word_of_nat (length parts)) (gap @ raw) = Some msgs \<Longrightarrow>
    piped_step cfg workers L (InFlow sq parts, p) (map EvChunk msgs) (InFlow sq (parts @ [raw]), p)"
| ps_pipe: "sc_enc cfg = Some e \<Longrightarrow> pl_step e workers p p' \<Longrightarrow>
    piped_step cfg workers L (ph, p) (map EvChunk (drop (length (published p)) (published p'))) (ph, p')"
| ps_end: "submitting p = None \<Longrightarrow> flush_returns p \<Longrightarrow> concat parts = L sq \<Longrightarrow>
    piped_step cfg workers L (InFlow sq parts, p)
      [EvEnd (AppendEnd [] sq (word_of_nat (length parts)) (word_of_nat (length (L sq))) t (sc_sum cfg (L sq)))]
      (Ended sq parts, p)"
| ps_put: "sq \<noteq> 0 \<Longrightarrow> piped_step cfg workers L (Ended sq parts, p) [EvPut sq parts] (Idle sq, p)"
| ps_put_failed: "piped_step cfg workers L (Ended sq parts, p) [EvPut sq parts] (Halted, p)"
| ps_finish: "ph \<noteq> Done \<Longrightarrow> close_returns p \<Longrightarrow> piped_step cfg workers L (ph, p) [EvFinish e] (Done, p)"

inductive_cases piped_stepE: "piped_step cfg workers L c evs c'"

section \<open>What is in flight\<close>

text \<open>The ledger as far as it is published: its parts but for those of the jobs in flight.\<close>

fun piped_view :: "piped \<Rightarrow> phase" where
  "piped_view (InFlow sq parts, p) = InFlow sq (take (length parts - inflight p) parts)"
| "piped_view (ph, p) = ph"

definition part_of :: "u32 \<Rightarrow> bytes list \<Rightarrow> nat \<Rightarrow> job \<Rightarrow> bool" where
  "part_of sq parts k j \<longleftrightarrow> j_seq j = sq \<and> j_idx j = word_of_nat k \<and> j_payload j = parts ! k"

definition tail_jobs :: "u32 \<Rightarrow> bytes list \<Rightarrow> pipeline \<Rightarrow> bool" where
  "tail_jobs sq parts p \<longleftrightarrow> inflight p \<le> length parts \<and>
     (\<forall>i < inflight p. part_of sq parts (length parts - inflight p + i) (jobs p ! (length (published p) + i)))"

definition parts_read :: "'r source_cfg \<Rightarrow> (u32 \<Rightarrow> bytes) \<Rightarrow> u32 \<Rightarrow> bytes list \<Rightarrow> bool" where
  "parts_read cfg L sq parts \<longleftrightarrow> (\<forall>k < length parts. next_part cfg L sq (take k parts) (parts ! k))"

fun phase_jobs :: "'r source_cfg \<Rightarrow> (u32 \<Rightarrow> bytes) \<Rightarrow> piped \<Rightarrow> bool" where
  "phase_jobs cfg L (InFlow sq parts, p) \<longleftrightarrow> tail_jobs sq parts p \<and> parts_read cfg L sq parts"
| "phase_jobs cfg L (ph, p) \<longleftrightarrow> inflight p = 0"

definition pipe_ok :: "'r source_cfg \<Rightarrow> pipeline \<Rightarrow> bool" where
  "pipe_ok cfg p \<longleftrightarrow> (case sc_enc cfg of None \<Rightarrow> p = newChunkPipeline | Some e \<Rightarrow> pl_inv e p)"

definition piped_inv :: "'r source_cfg \<Rightarrow> (u32 \<Rightarrow> bytes) \<Rightarrow> piped \<Rightarrow> bool" where
  "piped_inv cfg L c \<longleftrightarrow> phase_jobs cfg L c \<and> pipe_ok cfg (snd c)"

lemma parts_read_snoc: "parts_read cfg L sq parts \<Longrightarrow> next_part cfg L sq parts raw \<Longrightarrow> parts_read cfg L sq (parts @ [raw])"
  by (auto simp: parts_read_def nth_append less_Suc_eq)

lemma part_of_snoc: "k < length parts \<Longrightarrow> part_of sq (parts @ [raw]) k j = part_of sq parts k j"
  by (simp add: part_of_def nth_append)

lemma tail_jobs_flushed: "inflight p = 0 \<Longrightarrow> tail_jobs sq parts p"
  by (simp add: tail_jobs_def)

text \<open>Submitting a chunk, and what the pipeline's own steps publish of the ledger.\<close>

lemma submit_tail:
  assumes "pl_submit p j p'" "pl_inv e p" "tail_jobs sq parts p" "part_of sq (parts @ [raw]) (length parts) j"
  shows "tail_jobs sq (parts @ [raw]) p' \<and> inflight p' = inflight p + 1"
  using assms
  by (auto elim!: pl_submitE simp: tail_jobs_def pl_inv_def less_Suc_eq nth_append part_of_snoc)

text \<open>A step of the pipeline publishes nothing, or the front one of the jobs in flight.\<close>

lemma pl_step_publishes:
  assumes "pl_step e workers p p'" "pl_inv e p"
  shows "(published p' = published p \<and> inflight p' = inflight p \<and> submitted p' = submitted p) \<or>
    (0 < inflight p \<and> inflight p' = inflight p - 1 \<and> jobs p' = jobs p \<and>
     (\<exists>m. published p' = published p @ [m] \<and>
        frames (Some e) (j_seq (jobs p ! length (published p))) (j_idx (jobs p ! length (published p)))
          (j_payload (jobs p ! length (published p))) m))"
  using assms(1)
proof (cases rule: pl_step.cases)
  case (publish i m)
  with assms(2) have i: "i = length (published p)" "i < length (jobs p)"
    by (auto simp: pl_inv_def cons_upt)
  with assms(2) have "framed_ok e (jobs p ! i)" "0 < inflight p"
    by (auto simp: pl_inv_def)
  with publish i show ?thesis by (auto simp: framed_ok_def)
qed (auto simp: submitted_def submitted_set_out [unfolded submitted_def])

lemma tail_jobs_submitted:
  assumes "tail_jobs sq parts p" "submitted p' = submitted p" "published p' = published p" "inflight p' = inflight p"
    and "length (published p) + inflight p = length (jobs p)"
  shows "tail_jobs sq parts p'"
proof -
  have len: "length (jobs p') = length (jobs p)"
    using assms(2) unfolding submitted_def by (rule map_eq_imp_length_eq)
  have same: "j_seq (jobs p' ! k) = j_seq (jobs p ! k) \<and> j_idx (jobs p' ! k) = j_idx (jobs p ! k) \<and>
      j_payload (jobs p' ! k) = j_payload (jobs p ! k)" if "k < length (jobs p)" for k
    using arg_cong [OF assms(2), of "\<lambda>xs. xs ! k"] that len by (simp add: submitted_def)
  have "part_of sq parts k' (jobs p' ! (length (published p) + i)) = part_of sq parts k' (jobs p ! (length (published p) + i))"
    if "i < inflight p" for i k'
    using same [of "length (published p) + i"] that assms(5) by (simp add: part_of_def)
  with assms(1) show ?thesis
    unfolding tail_jobs_def assms(3,4) by blast
qed

section \<open>The simulation\<close>

lemma pl_inv_count: "pl_inv e p \<Longrightarrow> length (published p) + inflight p = length (jobs p)"
  by (simp add: pl_inv_def)

lemma piped_pipe:
  assumes inv: "piped_inv cfg L (ph, p)" and e: "sc_enc cfg = Some e" and step: "pl_step e workers p p'"
  shows "piped_inv cfg L (ph, p') \<and>
    (map EvChunk (drop (length (published p)) (published p')) = [] \<and> piped_view (ph, p') = piped_view (ph, p) \<or>
     single (emits cfg L) (piped_view (ph, p)) (map EvChunk (drop (length (published p)) (published p'))) (piped_view (ph, p')))"
proof -
  have pl: "pl_inv e p" "pl_inv e p'"
    using inv e pl_step_inv [OF step] by (auto simp: piped_inv_def pipe_ok_def)
  note count = pl_inv_count [OF pl(1)]
  show ?thesis
    using pl_step_publishes [OF step pl(1)]
  proof (elim disjE conjE exE)
    assume same: "published p' = published p" "inflight p' = inflight p" "submitted p' = submitted p"
    then have "phase_jobs cfg L (ph, p')"
      using inv tail_jobs_submitted [OF _ same(3,1,2) count] by (cases ph) (auto simp: piped_inv_def pipe_ok_def)
    moreover have "piped_view (ph, p') = piped_view (ph, p)"
      using same(2) by (cases ph) auto
    ultimately show ?thesis
      using same(1) pl(2) e by (simp add: piped_inv_def pipe_ok_def)
  next
    fix m
    assume new: "0 < inflight p" "inflight p' = inflight p - 1" "jobs p' = jobs p" "published p' = published p @ [m]"
      and m: "frames (Some e) (j_seq (jobs p ! length (published p))) (j_idx (jobs p ! length (published p)))
          (j_payload (jobs p ! length (published p))) m"
    obtain sq parts where ph: "ph = InFlow sq parts"
      using inv new(1) by (cases ph) (auto simp: piped_inv_def pipe_ok_def)
    define k where "k = length parts - inflight p"
    have jobs: "tail_jobs sq parts p" "parts_read cfg L sq parts"
      using inv by (auto simp: piped_inv_def pipe_ok_def ph)
    then have k: "k < length parts" "length parts - inflight p' = Suc k"
      using new by (auto simp: k_def tail_jobs_def)
    have first: "part_of sq parts k (jobs p ! length (published p))"
      using jobs(1) new(1) unfolding tail_jobs_def k_def by (metis add.right_neutral)
    have "part_of sq parts (length parts - inflight p' + i) (jobs p' ! (length (published p') + i))" if "i < inflight p'" for i
    proof -
      have "Suc i < inflight p" using that new(2) by simp
      with jobs(1) have "part_of sq parts (length parts - inflight p + Suc i) (jobs p ! (length (published p) + Suc i))"
        unfolding tail_jobs_def by blast
      with k new(3,4) show ?thesis by (simp add: k_def)
    qed
    then have "tail_jobs sq parts p'"
      using jobs(1) new(2) by (auto simp: tail_jobs_def)
    moreover have "emits cfg L (InFlow sq (take k parts)) (EvChunk m) (InFlow sq (take (Suc k) parts))"
    proof -
      have "next_part cfg L sq (take k parts) (parts ! k)"
        using jobs(2) k(1) by (simp add: parts_read_def)
      then show ?thesis
        using m first k(1) e
        by (auto simp: next_part_def part_of_def take_Suc_conv_app_nth intro!: g_chunk [where parts = "take k parts"])
    qed
    ultimately show ?thesis
      using pl(2) e jobs(2) new(4) k by (auto simp: piped_inv_def pipe_ok_def ph single_def k_def)
  qed
qed

lemma piped_matched:
  assumes "piped_inv cfg L c" "piped_step cfg workers L c evs c'"
  shows "piped_inv cfg L c' \<and> (evs = [] \<and> piped_view c' = piped_view c \<or> single (emits cfg L) (piped_view c) evs (piped_view c'))"
  using assms(2,1)
proof (induction rule: piped_step.induct)
  case (ps_begin prev sq p t)
  then show ?case
    by (auto simp: piped_inv_def tail_jobs_flushed parts_read_def single_def intro!: g_begin)
next
  case (ps_submit sq parts raw gap p p')
  let ?j = "\<lparr>j_seq = sq, j_idx = word_of_nat (length parts), j_msg = gap @ raw, j_out = None\<rparr>"
  obtain e where e: "sc_enc cfg = Some e" using ps_submit(1) by auto
  with ps_submit(5) have inv: "pl_inv e p" "tail_jobs sq parts p" "parts_read cfg L sq parts"
    by (auto simp: piped_inv_def pipe_ok_def)
  have "part_of sq (parts @ [raw]) (length parts) ?j"
    using ps_submit(3) by (simp add: part_of_def j_payload_def)
  from submit_tail [OF ps_submit(4) inv(1,2) this] have tail: "tail_jobs sq (parts @ [raw]) p'" "inflight p' = inflight p + 1"
    by auto
  with inv pl_submit_inv [OF ps_submit(4) inv(1)] parts_read_snoc [OF inv(3) ps_submit(2)] e show ?case
    by (simp add: piped_inv_def pipe_ok_def tail_jobs_def)
next
  case (ps_inline sq parts raw gap msgs p)
  then have p: "p = newChunkPipeline" "parts_read cfg L sq parts"
    by (auto simp: piped_inv_def pipe_ok_def)
  have msgs: "msgs = [AppendChunk [] sq (word_of_nat (length parts)) CodecRaw raw]"
    using ps_inline(3,4) submit_inline_raw [of gap "[]" sq] by simp
  have "emits cfg L (InFlow sq parts) (EvChunk (hd msgs)) (InFlow sq (parts @ [raw]))"
    using ps_inline(2) by (auto simp: next_part_def msgs frames_def intro!: g_chunk)
  then show ?case
    using p parts_read_snoc [OF p(2) ps_inline(2)] ps_inline(1)
    by (auto simp: piped_inv_def pipe_ok_def single_def msgs newChunkPipeline_def tail_jobs_def)
next
  case (ps_pipe e p p' ph)
  from piped_pipe [OF ps_pipe(3,1,2)] show ?case .
next
  case (ps_end p parts sq t)
  then show ?case
    by (auto simp: piped_inv_def single_def flush_returns_def intro!: g_end)
next
  case (ps_put sq parts p)
  then show ?case by (auto simp: piped_inv_def single_def intro!: g_put)
next
  case (ps_put_failed sq parts p)
  then show ?case by (auto simp: piped_inv_def single_def intro!: g_put_failed)
next
  case (ps_finish ph p err)
  have "inflight p = 0"
    using ps_finish(2,3) close_flush
    by (auto simp: piped_inv_def pipe_ok_def flush_returns_def newChunkPipeline_def split: option.splits)
  moreover have "piped_view (ph, p) \<noteq> Done"
    using ps_finish(1) by (cases ph) auto
  ultimately show ?case
    using ps_finish(3) by (auto simp: piped_inv_def single_def intro!: g_finish)
qed

interpretation piped: event_simulation "piped_step cfg workers L" "emits cfg L" "piped_inv cfg L" piped_view
  for cfg :: "'r source_cfg" and workers L
  by unfold_locales (rule piped_matched)

text \<open>Without an encoder the pipeline is the loop of theory \<open>Source_Loop\<close>: each event of the grammar is a step.\<close>

lemma piped_inline:
  assumes "sc_enc cfg = None" "emits cfg L ph ev ph'"
  shows "piped_step cfg workers L (ph, newChunkPipeline) [ev] (ph', newChunkPipeline)"
  using assms(2)
proof (induction rule: emits.induct)
  case (g_chunk p parts sq m)
  then have m: "m = AppendChunk [] sq (word_of_nat (length parts)) CodecRaw p"
    using assms(1) by (simp add: frames_def)
  let ?gap = "replicate ChunkHeaderSize 0"
  have "submit_inline [] sq (word_of_nat (length parts)) (?gap @ p) = Some [m]"
    using submit_inline_raw [of ?gap "[]" sq] by (simp add: m)
  from ps_inline [OF assms(1) _ _ this] g_chunk show ?case
    by (simp add: next_part_def)
qed (auto intro: piped_step.intros simp: newChunkPipeline_def flush_returns_def close_returns_def)

section \<open>A run of the pipelined loop\<close>

definition piped_start :: piped where
  "piped_start = (Idle 0, newChunkPipeline)"

lemma piped_start_inv [simp]: "piped_inv cfg L piped_start" "piped_view piped_start = Idle 0"
  by (auto simp: piped_start_def piped_inv_def pipe_ok_def newChunkPipeline_def split: option.splits)
    (simp flip: newChunkPipeline_def)

lemma labelled_source_trace: "labelled_runs (single (emits cfg L)) ph0 evs ph \<Longrightarrow> ph0 = Idle 0 \<Longrightarrow> source_trace cfg L evs ph"
  by (induction rule: labelled_runs.induct) (auto simp: single_def intro: source_trace.intros)

lemma piped_trace:
  assumes "labelled_runs (piped_step cfg workers L) piped_start evs c"
  shows "piped_inv cfg L c \<and> source_trace cfg L evs (piped_view c)"
  using piped.runs_matched [OF assms] labelled_source_trace [OF _ refl] by auto

text \<open>The events of one step on the hub: at most one, which the hub takes without a panic.\<close>

lemma hub_events_single [simp]: "hub_events h [ev] = hub_event h ev"
  by (simp split: sum.splits)

lemma piped_emits:
  assumes "piped_inv cfg L c" "piped_step cfg workers L c evs c'" "hub_events h evs = Inr h'"
  shows "piped_inv cfg L c' \<and>
    (h' = h \<and> piped_view c' = piped_view c \<or>
     (\<exists>ev. emits cfg L (piped_view c) ev (piped_view c') \<and> hub_event h ev = Inr h'))"
  using piped_matched [OF assms(1,2)] assms(3) by (auto simp: single_def simp del: hub_event.simps split: sum.splits)

lemma source_trace_hub:
  "source_trace cfg L evs ph \<Longrightarrow> bc_at cfg L (Idle 0) (hb_bc h) \<Longrightarrow>
     \<exists>h'. hub_events h evs = Inr h' \<and> bc_at cfg L ph (hb_bc h')"
proof (induction rule: source_trace.induct)
  case (trace_snoc evs ph ev ph')
  then obtain h' where "hub_events h evs = Inr h'" "bc_at cfg L ph (hb_bc h')" by blast
  with emits_hub [OF trace_snoc(2), of h'] show ?case
    by (auto simp: hub_events_snoc simp del: hub_event.simps)
qed simp

text \<open>Draining: the pipeline's own steps lead to where \<open>close\<close> returns, from wherever.\<close>

lemma pipe_drains:
  assumes "sc_enc cfg = Some e" "1 \<le> workers"
  shows "pl_inv e p \<Longrightarrow> \<exists>evs p'. labelled_runs (piped_step cfg workers L) (ph, p) evs (ph, p') \<and> close_returns p'"
proof (induction "pl_measure p" arbitrary: p rule: less_induct)
  case less
  show ?case
  proof (cases "close_returns p")
    case True
    with runs_nil [of "piped_step cfg workers L" "(ph, p)"] show ?thesis by blast
  next
    case False
    with pl_stuck [OF less.prems assms(2)] obtain q where q: "pl_step e workers p q" by blast
    from less.hyps [OF pl_step_measure [OF q] pl_step_inv [OF q less.prems]] obtain evs p' where
      rest: "labelled_runs (piped_step cfg workers L) (ph, q) evs (ph, p')" "close_returns p'" by blast
    from labelled_runs_cons [of "piped_step cfg workers L", OF ps_pipe [OF assms(1) q] rest(1)] rest(2) show ?thesis
      by blast
  qed
qed

lemma piped_silent:
  assumes "sc_enc cfg = Some e" "pl_step e workers p p'" "published p' = published p"
    and "labelled_runs (piped_step cfg workers L) (ph, p') evs c"
  shows "labelled_runs (piped_step cfg workers L) (ph, p) evs c"
  using labelled_runs_cons [of "piped_step cfg workers L", OF ps_pipe [OF assms(1,2)] assms(4)] assms(3) by simp

lemma piped_finishes:
  assumes "piped_inv cfg L (ph, p)" "1 \<le> workers"
  shows "\<exists>evs c. labelled_runs (piped_step cfg workers L) (ph, p) evs c \<and> fst c = Done"
proof (cases "ph = Done")
  case True
  with runs_nil [of "piped_step cfg workers L" "(ph, p)"] show ?thesis by fastforce
next
  case False
  have "\<exists>evs p'. labelled_runs (piped_step cfg workers L) (ph, p) evs (ph, p') \<and> close_returns p'"
  proof (cases "sc_enc cfg")
    case None
    with assms(1) have "close_returns p"
      by (simp add: piped_inv_def pipe_ok_def close_returns_def newChunkPipeline_def)
    with runs_nil [of "piped_step cfg workers L" "(ph, p)"] show ?thesis by blast
  next
    case (Some e)
    with assms(1) have "pl_inv e p" by (simp add: piped_inv_def pipe_ok_def)
    from pipe_drains [OF Some assms(2) this] show ?thesis .
  qed
  then obtain evs p' where "labelled_runs (piped_step cfg workers L) (ph, p) evs (ph, p')" "close_returns p'" by blast
  from runs_snoc [OF this(1) ps_finish [OF False this(2)]] show ?thesis by fastforce
qed

section \<open>What the fallback counter counts\<close>

text \<open>
  A chunk is degraded if it was framed otherwise than a worker would have. The counter lies
  between the degraded chunks and those framed raw: at zero every chunk is what an encoder made
  of it, and a count above zero is chunks that were shipped uncompressed.
\<close>

definition degraded :: "encoder \<Rightarrow> job \<Rightarrow> bool" where
  "degraded e j \<longleftrightarrow> j_out j \<noteq> None \<and> j_out j \<noteq> Some (worker_frame e j)"

definition framed_raw :: "job \<Rightarrow> bool" where
  "framed_raw j \<longleftrightarrow> j_out j = Some (raw_frame j)"

definition count_jobs :: "(job \<Rightarrow> bool) \<Rightarrow> pipeline \<Rightarrow> nat" where
  "count_jobs P p = length (filter P (jobs p))"

definition fallbacks_ok :: "encoder \<Rightarrow> pipeline \<Rightarrow> bool" where
  "fallbacks_ok e p \<longleftrightarrow> count_jobs (degraded e) p \<le> pipeline.fallbacks p \<and> pipeline.fallbacks p \<le> count_jobs framed_raw p"

lemma count_jobs_set_out:
  assumes "i < length (jobs p)" "\<not> P (jobs p ! i)"
  shows "count_jobs P (set_out i m p) = count_jobs P p + (if P ((jobs p ! i)\<lparr>j_out := Some m\<rparr>) then 1 else 0)"
proof -
  have "filter P (jobs p) = filter P (take i (jobs p)) @ filter P (drop (Suc i) (jobs p))"
    using id_take_nth_drop [OF assms(1)] assms(2) by (metis filter.simps(2) filter_append)
  then show ?thesis
    using assms(1) by (simp add: count_jobs_def set_out_def upd_conv_take_nth_drop)
qed

lemma count_jobs_more [simp]:
  "count_jobs P (p\<lparr>submitting := a\<rparr>) = count_jobs P p" "count_jobs P (p\<lparr>work := xs\<rparr>) = count_jobs P p"
  "count_jobs P (p\<lparr>encoding := xs\<rparr>) = count_jobs P p" "count_jobs P (p\<lparr>ordered := xs\<rparr>) = count_jobs P p"
  "count_jobs P (p\<lparr>held := a\<rparr>) = count_jobs P p" "count_jobs P (p\<lparr>inflight := n\<rparr>) = count_jobs P p"
  "count_jobs P (p\<lparr>pipeline.fallbacks := n\<rparr>) = count_jobs P p" "count_jobs P (p\<lparr>published := ms\<rparr>) = count_jobs P p"
  by (simp_all add: count_jobs_def)

lemma set_out_fallbacks [simp]: "pipeline.fallbacks (set_out i m p) = pipeline.fallbacks p"
  by (simp add: set_out_def)

lemma raw_frame_out [simp]: "raw_frame (j\<lparr>j_out := x\<rparr>) = raw_frame j"
  by (simp add: raw_frame_def j_payload_def)

lemma worker_frame_out [simp]: "worker_frame e (j\<lparr>j_out := x\<rparr>) = worker_frame e j"
  unfolding worker_frame_def raw_frame_out by (simp add: j_payload_def)

lemma pl_submit_fallbacks: "pl_submit p j p' \<Longrightarrow> fallbacks_ok e p \<Longrightarrow> fallbacks_ok e p'"
  by (auto elim!: pl_submitE simp: fallbacks_ok_def count_jobs_def degraded_def framed_raw_def)

lemma pl_step_fallbacks:
  assumes "pl_step e workers p p'" "pl_inv e p" "fallbacks_ok e p"
  shows "fallbacks_ok e p'"
  using assms(1)
proof (cases rule: pl_step.cases)
  case (to_raw i)
  then have i: "i < length (jobs p)" "j_out (jobs p ! i) = None"
    using assms(2) by (auto simp: pl_inv_def unframed_def)
  then have free: "\<not> degraded e (jobs p ! i)" "\<not> framed_raw (jobs p ! i)"
    by (simp_all add: degraded_def framed_raw_def)
  show ?thesis
    using count_jobs_set_out [of i p "degraded e", OF i(1) free(1)] count_jobs_set_out [of i p framed_raw, OF i(1) free(2)]
      assms(3) to_raw by (auto simp: fallbacks_ok_def framed_raw_def)
next
  case (encode "is" i js)
  then have "i \<in> set (unframed p)" by (simp add: unframed_def)
  with assms(2) have i: "i < length (jobs p)" "j_out (jobs p ! i) = None"
    by (auto simp: pl_inv_def)
  then have free: "\<not> degraded e (jobs p ! i)" "\<not> framed_raw (jobs p ! i)"
    by (simp_all add: degraded_def framed_raw_def)
  show ?thesis
    using count_jobs_set_out [of i p "degraded e", OF i(1) free(1)] count_jobs_set_out [of i p framed_raw, OF i(1) free(2)]
      assms(3) encode by (auto simp: fallbacks_ok_def degraded_def)
qed (use assms(3) in \<open>simp_all add: fallbacks_ok_def\<close>)

definition piped_fallbacks :: "'r source_cfg \<Rightarrow> piped \<Rightarrow> bool" where
  "piped_fallbacks cfg c \<longleftrightarrow> (case sc_enc cfg of None \<Rightarrow> pipeline.fallbacks (snd c) = 0 | Some e \<Rightarrow> fallbacks_ok e (snd c))"

lemma piped_step_fallbacks:
  assumes "piped_step cfg workers L c evs c'" "piped_inv cfg L c" "piped_fallbacks cfg c"
  shows "piped_fallbacks cfg c'"
  using assms
proof (induction rule: piped_step.induct)
  case (ps_submit sq parts raw gap p p')
  then show ?case
    using pl_submit_fallbacks [OF ps_submit(4)] by (auto simp: piped_fallbacks_def)
next
  case (ps_pipe e p p' ph)
  then have "pl_inv e p" by (auto simp: piped_inv_def pipe_ok_def)
  with ps_pipe show ?case
    using pl_step_fallbacks [OF ps_pipe(2)] by (simp add: piped_fallbacks_def)
qed (auto simp: piped_fallbacks_def split: option.splits)

lemma piped_start_fallbacks [simp]: "piped_fallbacks cfg piped_start"
  by (simp add: piped_fallbacks_def piped_start_def fallbacks_ok_def count_jobs_def newChunkPipeline_def split: option.split)

section \<open>Properties\<close>

text \<open>A run for the witness: a ledger of two bytes whose one chunk a worker compresses.\<close>

definition zipped_src :: "nat source_cfg" where
  "zipped_src = \<lparr>sc_chunk = 4096, sc_max = 10, sc_read = (\<lambda>r k. (r, [], Some RdEOF)), sc_enc = Some half,
     sc_busy = (\<lambda>_. False), sc_sum = (\<lambda>_. 9), sc_now = (\<lambda>_. 3)\<rparr>"

lemma zipped_run:
  "\<exists>p. labelled_runs (piped_step zipped_src 1 (\<lambda>_. [1, 2])) piped_start
     [EvBegin 7 (AppendBegin [] 7 3), EvChunk (AppendChunk [] 7 0 CodecZstd [1])] (InFlow 7 [[1, 2]], p) \<and> inflight p = 0"
proof -
  let ?step = "piped_step zipped_src 1 (\<lambda>_. [1, 2])"
  let ?j = "\<lparr>j_seq = 7, j_idx = 0, j_msg = replicate 11 0 @ [1, 2], j_out = None\<rparr>"
  let ?m = "AppendChunk [] 7 0 CodecZstd [1]"
  let ?p1 = "newChunkPipeline\<lparr>jobs := [?j], submitting := Some 0, ordered := [0], inflight := 1\<rparr>"
  let ?p2 = "?p1\<lparr>submitting := None, work := [0]\<rparr>"
  let ?p3 = "?p2\<lparr>work := [], encoding := [0]\<rparr>"
  let ?p4 = "?p3\<lparr>encoding := [], jobs := [?j\<lparr>j_out := Some ?m\<rparr>]\<rparr>"
  let ?p5 = "?p4\<lparr>held := Some 0, ordered := []\<rparr>"
  let ?p6 = "?p5\<lparr>held := None, published := [?m], inflight := 0\<rparr>"
  have frame: "worker_frame half ?j = ?m"
    by (simp add: worker_frame_def compressChunk_eq half_def j_payload_def)
  have opened: "?step piped_start [EvBegin 7 (AppendBegin [] 7 3)] (InFlow 7 [], newChunkPipeline)"
    unfolding piped_start_def by (rule ps_begin) simp
  have "pl_submit newChunkPipeline ?j ?p1"
    using enqueue [of newChunkPipeline ?j] by (simp add: newChunkPipeline_def pendingChunks_def)
  then have submit: "?step (InFlow 7 [], newChunkPipeline) [] (InFlow 7 ([] @ [[1, 2]]), ?p1)"
    by (intro ps_submit [where gap = "replicate 11 0"]) (simp_all add: next_part_def zipped_src_def)
  have "pl_step half 1 ?p1 ?p2" "pl_step half 1 ?p2 ?p3" "pl_step half 1 ?p3 ?p4" "pl_step half 1 ?p4 ?p5" "pl_step half 1 ?p5 ?p6"
    using to_work [of ?p1 0 half 1] take_work [of ?p2 0 "[]" 1 half] encode [of ?p3 "[]" 0 "[]" half 1]
      pull [of ?p4 0 "[]" half 1] publish [of ?p5 0 ?m half 1]
    by (simp_all add: newChunkPipeline_def encodeSlots_def set_out_def frame)
  note pl = this
  have enc: "sc_enc zipped_src = Some half" by (simp add: zipped_src_def)
  have "labelled_runs ?step (InFlow 7 [[1, 2]], ?p5) [EvChunk ?m] (InFlow 7 [[1, 2]], ?p6)"
    using runs_snoc [OF runs_nil, of ?step, OF ps_pipe [OF enc pl(5)]] by (simp add: newChunkPipeline_def)
  then have "labelled_runs ?step (InFlow 7 [[1, 2]], ?p1) [EvChunk ?m] (InFlow 7 [[1, 2]], ?p6)"
    by (intro piped_silent [OF enc pl(1)] piped_silent [OF enc pl(2)] piped_silent [OF enc pl(3)] piped_silent [OF enc pl(4)])
      simp_all
  then have "labelled_runs ?step (InFlow 7 [], newChunkPipeline) [EvChunk ?m] (InFlow 7 [[1, 2]], ?p6)"
    using labelled_runs_cons [of ?step, OF submit] by simp
  from labelled_runs_cons [of ?step, OF opened this] show ?thesis
    by auto
qed

text \<open>
  C9: the compressing pipeline changes nothing that a subscriber can tell. Whatever the
  interleaving of the source loop, the workers and the publisher, and wherever the loop
  returns, what is published is a trace of the grammar of ledgers: each chunk between the
  BEGIN and the END of its own ledger, in order, all of them before END, and nothing after the
  end of the stream; so the broadcaster never panics, and from every state the loop can return.
\<close>

theorem pipelined_source_refines:
  assumes "labelled_runs (piped_step cfg workers L) piped_start evs (ph, p)" "1 \<le> workers"
    and "bc_at cfg L (Idle 0) (hb_bc h)"
  shows "source_trace cfg L evs (piped_view (ph, p)) \<and> (\<exists>h'. hub_events h evs = Inr h') \<and>
    (\<exists>evs' c. labelled_runs (piped_step cfg workers L) (ph, p) evs' c \<and> fst c = Done)"
  using piped_trace [OF assms(1)] source_trace_hub [OF _ assms(3)] piped_finishes [OF _ assms(2)] by blast

theorem pipelined_source_refines_witness:
  "source_trace zipped_src (\<lambda>_. [1, 2])
     [EvBegin 7 (AppendBegin [] 7 3), EvChunk (AppendChunk [] 7 0 CodecZstd [1])] (InFlow 7 [[1, 2]])"
proof -
  obtain p where run: "labelled_runs (piped_step zipped_src 1 (\<lambda>_. [1, 2])) piped_start
     [EvBegin 7 (AppendBegin [] 7 3), EvChunk (AppendChunk [] 7 0 CodecZstd [1])] (InFlow 7 [[1, 2]], p)" "inflight p = 0"
    using zipped_run by blast
  have "bc_at zipped_src (\<lambda>_. [1, 2]) (Idle 0) (hb_bc \<lparr>hb_bc = newBroadcaster, hb_store = empty_ring 2, hb_disk = empty_disk\<rparr>)"
    by simp
  from pipelined_source_refines [OF run(1) _ this] run(2) show ?thesis by simp
qed

end
