(* ===== verification/Fleet.thy ===== *)
theory Fleet
  imports Session_Live Pipelined
begin

text \<open>
  The server with all its connections: \<^verbatim>\<open>handleStream\<close> of \<^verbatim>\<open>internal/server/server.go\<close> from the
  request to the close, any number of them at once, under one source with its pipeline (theory
  \<open>Pipelined\<close>), with the counters \<^verbatim>\<open>/healthz\<close> reports. A connection is refused, or upgraded and counted, served by the steps of
  theory \<open>Serve\<close>, and uncounted when \<^verbatim>\<open>serve\<close> returns, however it does.

  The lemmas project a run of the whole server to the run of each single connection, so that
  what theory \<open>Session\<close> shows of one subscriber holds of every one of them at once.
\<close>

section \<open>Connections\<close>

datatype conn_phase = Handshake | Serving | Left

record connection =
  cn_phase :: conn_phase
  cn_sub :: subscriber

record fleet =
  fe_hub :: hub
  fe_source :: piped
  fe_conns :: "connection list"
  fe_connected :: int
  fe_abandons :: nat

definition fleet_start :: "hub \<Rightarrow> fleet" where
  "fleet_start h = \<lparr>fe_hub = h, fe_source = piped_start, fe_conns = [], fe_connected = 0, fe_abandons = 0\<rparr>"

text \<open>
  \<open>fl_arrive\<close> is a request that parses (one that does not is answered and leaves nothing),
  \<open>fl_refuse\<close> a handshake that fails, \<open>fl_connect\<close> one that succeeds, \<open>fl_break\<close> a write that fails
  or times out, and \<open>fl_leave\<close> the deferred uncounting once \<^verbatim>\<open>serve\<close> has returned.
\<close>

inductive fleet_step :: "'r source_cfg \<Rightarrow> nat \<Rightarrow> serve_cfg \<Rightarrow> (u32 \<Rightarrow> bytes) \<Rightarrow> fleet \<Rightarrow> fleet \<Rightarrow> bool"
  for cfg :: "'r source_cfg" and workers scfg L where
  fl_source: "piped_step cfg workers L (fe_source f) evs c \<Longrightarrow> hub_events (fe_hub f) evs = Inr h \<Longrightarrow>
    fleet_step cfg workers scfg L f (f\<lparr>fe_hub := h, fe_source := c\<rparr>)"
| fl_arrive: "handleStream q = Inr s \<Longrightarrow>
    fleet_step cfg workers scfg L f (f\<lparr>fe_conns := fe_conns f @ [\<lparr>cn_phase = Handshake, cn_sub = s\<rparr>]\<rparr>)"
| fl_refuse: "fe_conns f = cs @ c # ds \<Longrightarrow> cn_phase c = Handshake \<Longrightarrow>
    fleet_step cfg workers scfg L f (f\<lparr>fe_conns := cs @ c\<lparr>cn_phase := Left\<rparr> # ds\<rparr>)"
| fl_connect: "fe_conns f = cs @ c # ds \<Longrightarrow> cn_phase c = Handshake \<Longrightarrow>
    fleet_step cfg workers scfg L f (f\<lparr>fe_conns := cs @ c\<lparr>cn_phase := Serving\<rparr> # ds, fe_connected := fe_connected f + 1\<rparr>)"
| fl_serve: "fe_conns f = cs @ c # ds \<Longrightarrow> cn_phase c = Serving \<Longrightarrow> serve_step scfg (fe_hub f) (cn_sub c) = (h, s) \<Longrightarrow>
    fleet_step cfg workers scfg L f
      (f\<lparr>fe_hub := h, fe_conns := cs @ c\<lparr>cn_sub := s\<rparr> # ds,
         fe_abandons := fe_abandons f + (sb_abandons s - sb_abandons (cn_sub c))\<rparr>)"
| fl_break: "fe_conns f = cs @ c # ds \<Longrightarrow> cn_phase c = Serving \<Longrightarrow>
    fleet_step cfg workers scfg L f (f\<lparr>fe_conns := cs @ c\<lparr>cn_sub := (cn_sub c)\<lparr>sb_pc := PcBroken\<rparr>\<rparr> # ds\<rparr>)"
| fl_leave: "fe_conns f = cs @ c # ds \<Longrightarrow> cn_phase c = Serving \<Longrightarrow> finished (sb_pc (cn_sub c)) \<Longrightarrow>
    fleet_step cfg workers scfg L f (f\<lparr>fe_conns := cs @ c\<lparr>cn_phase := Left\<rparr> # ds, fe_connected := fe_connected f - 1\<rparr>)"

definition fleet_steps :: "'r source_cfg \<Rightarrow> nat \<Rightarrow> serve_cfg \<Rightarrow> (u32 \<Rightarrow> bytes) \<Rightarrow> fleet \<Rightarrow> fleet \<Rightarrow> bool" where
  "fleet_steps cfg workers scfg L = (fleet_step cfg workers scfg L)\<^sup>*\<^sup>*"

section \<open>The counters\<close>

definition serving :: "connection list \<Rightarrow> nat" where
  "serving cs = length (filter (\<lambda>c. cn_phase c = Serving) cs)"

definition counters_ok :: "fleet \<Rightarrow> bool" where
  "counters_ok f \<longleftrightarrow> fe_connected f = int (serving (fe_conns f)) \<and>
     fe_abandons f = sum_list (map (\<lambda>c. sb_abandons (cn_sub c)) (fe_conns f))"

lemma enter_flow_abandons [simp]: "sb_abandons (enter_flow fs snap s) = sb_abandons s"
  by (simp add: enter_flow_def)

lemma follow_flow_abandons [simp]: "sb_abandons (follow_flow fs snap ch fin s) = sb_abandons s"
  by (simp add: follow_flow_def Let_def next_ledger_def send_chunks_def split: option.splits)

lemma leave_flow_abandons: "sb_abandons s \<le> sb_abandons (leave_flow fs ch fin s)"
  by (auto simp: leave_flow_def Let_def next_ledger_def split: option.splits)

lemma serve_watch_abandons: "sb_abandons s \<le> sb_abandons (serve_watch h s)"
  by (auto simp: serve_watch_def Let_def split: prod.splits option.splits
      intro: order_trans [OF _ leave_flow_abandons])

lemma serve_step_abandons: "serve_step scfg h s = (h', s') \<Longrightarrow> sb_abandons s \<le> sb_abandons s'"
  using serve_watch_abandons [of s h]
  by (auto simp: serve_step_def serve_read_def serve_bounds_def serve_too_far_def serve_settle_def
      split: pc.splits prod.splits sum.splits store_error.splits option.splits if_splits)

lemma handleStream_new: "handleStream q = Inr s \<Longrightarrow> s = new_subscriber (sb_req s)"
  by (auto simp: handleStream_def new_subscriber_def split: sum.splits)

lemma fleet_step_counters: "fleet_step cfg workers scfg L f f' \<Longrightarrow> counters_ok f \<Longrightarrow> counters_ok f'"
proof (induction rule: fleet_step.induct)
  case (fl_arrive q s f)
  then have "sb_abandons s = 0"
    using handleStream_new [OF fl_arrive(1)] by (metis (no_types) new_subscriber_def subscriber.select_convs(7))
  with fl_arrive show ?case by (simp add: counters_ok_def serving_def)
next
  case (fl_serve f cs c ds h s)
  with serve_step_abandons [OF fl_serve(3)] show ?case by (simp add: counters_ok_def serving_def)
qed (auto simp: counters_ok_def serving_def)

lemma fleet_counters: "fleet_steps cfg workers scfg L (fleet_start h) f \<Longrightarrow> counters_ok f"
  unfolding fleet_steps_def
  by (induction rule: rtranclp_induct)
    (simp add: counters_ok_def serving_def fleet_start_def, rule fleet_step_counters)

section \<open>The projection to one connection\<close>

text \<open>Every connection is in a state its own subscriber's run can be in, from the hub it found.\<close>

definition conn_ok :: "'r source_cfg \<Rightarrow> serve_cfg \<Rightarrow> (u32 \<Rightarrow> bytes) \<Rightarrow> hub \<Rightarrow> phase \<Rightarrow> subscriber \<Rightarrow> bool" where
  "conn_ok cfg scfg L h ph s \<longleftrightarrow> (\<exists>h0 ph0. hub_ok cfg L ph0 h0 \<and>
     sys_steps cfg scfg L (h0, ph0, new_subscriber (sb_req s)) (h, ph, s))"

definition fleet_ok :: "'r source_cfg \<Rightarrow> serve_cfg \<Rightarrow> (u32 \<Rightarrow> bytes) \<Rightarrow> fleet \<Rightarrow> bool" where
  "fleet_ok cfg scfg L f \<longleftrightarrow> piped_inv cfg L (fe_source f) \<and> hub_ok cfg L (piped_view (fe_source f)) (fe_hub f) \<and>
     (\<forall>c \<in> set (fe_conns f). conn_ok cfg scfg L (fe_hub f) (piped_view (fe_source f)) (cn_sub c))"

lemma conn_ok_step:
  "conn_ok cfg scfg L h ph s \<Longrightarrow> sys_step cfg scfg L (h, ph, s) (h', ph', s') \<Longrightarrow> sb_req s' = sb_req s \<Longrightarrow>
     conn_ok cfg scfg L h' ph' s'"
  unfolding conn_ok_def sys_steps_def by (metis rtranclp.rtrancl_into_rtrancl)

lemma conn_ok_new: "hub_ok cfg L ph h \<Longrightarrow> conn_ok cfg scfg L h ph (new_subscriber req)"
  by (auto simp: conn_ok_def sys_steps_def new_subscriber_def)

lemma fleet_step_ok: "fleet_step cfg workers scfg L f f' \<Longrightarrow> fleet_ok cfg scfg L f \<Longrightarrow> fleet_ok cfg scfg L f'"
proof (induction rule: fleet_step.induct)
  case (fl_source f evs c h)
  then have ok: "piped_inv cfg L (fe_source f)" "hub_ok cfg L (piped_view (fe_source f)) (fe_hub f)"
    by (simp_all add: fleet_ok_def)
  from piped_emits [OF ok(1) fl_source(1,2)] show ?case
  proof (elim conjE disjE exE)
    assume "piped_inv cfg L c" "h = fe_hub f" "piped_view c = piped_view (fe_source f)"
    with fl_source(3) show ?thesis by (simp add: fleet_ok_def)
  next
    fix ev
    assume ev: "piped_inv cfg L c" "emits cfg L (piped_view (fe_source f)) ev (piped_view c)" "hub_event (fe_hub f) ev = Inr h"
    with fl_source(3) hub_ok_emits [OF ok(2) ev(2,3)] conn_ok_step [OF _ sys_source [OF ev(2,3)]] show ?thesis
      by (auto simp: fleet_ok_def simp del: hub_event.simps)
  qed
next
  case (fl_arrive q s f)
  then have "conn_ok cfg scfg L (fe_hub f) (piped_view (fe_source f)) s"
    using conn_ok_new handleStream_new [OF fl_arrive(1)] unfolding fleet_ok_def by metis
  with fl_arrive show ?case by (auto simp: fleet_ok_def)
next
  case (fl_serve f cs c ds h s)
  have hub: "hub_ok cfg L (piped_view (fe_source f)) h"
    using fl_serve(4) hub_ok_served [OF _ fl_serve(3), of cfg L "piped_view (fe_source f)"] by (simp add: fleet_ok_def)
  have own: "conn_ok cfg scfg L h (piped_view (fe_source f)) s"
    using fl_serve(1,4) conn_ok_step [OF _ sys_serve [OF fl_serve(3)], of cfg L "piped_view (fe_source f)"] serve_step_req [OF fl_serve(3)]
    by (simp add: fleet_ok_def)
  have "conn_ok cfg scfg L h (piped_view (fe_source f)) (cn_sub c')" if "c' \<in> set cs \<union> set ds" for c'
    using that fl_serve(1,4) conn_ok_step [OF _ sys_other [OF fl_serve(3)], of cfg L "piped_view (fe_source f)"] by (auto simp: fleet_ok_def)
  with hub own fl_serve(4) show ?case by (simp add: fleet_ok_def ball_Un)
next
  case (fl_break f cs c ds)
  then show ?case
    using conn_ok_step [OF _ sys_break, of cfg scfg L "fe_hub f" "piped_view (fe_source f)" "cn_sub c"] by (auto simp: fleet_ok_def)
qed (auto simp: fleet_ok_def)

lemma fleet_connections:
  assumes "fleet_steps cfg workers scfg L (fleet_start h0) f" "hub_ok cfg L (Idle 0) h0" "c \<in> set (fe_conns f)"
  obtains h1 ph1 where "hub_ok cfg L ph1 h1"
    "sys_steps cfg scfg L (h1, ph1, new_subscriber (sb_req (cn_sub c))) (fe_hub f, piped_view (fe_source f), cn_sub c)"
proof -
  have "fleet_ok cfg scfg L f"
    using assms(1) unfolding fleet_steps_def
    by (induction rule: rtranclp_induct) (simp add: fleet_ok_def fleet_start_def assms(2), rule fleet_step_ok)
  with assms(3) that show ?thesis by (auto simp: fleet_ok_def conn_ok_def)
qed

section \<open>The health report\<close>

text \<open>What \<^verbatim>\<open>/healthz\<close> answers: the fallbacks are the pipeline's.\<close>

definition fleet_health :: "fleet \<Rightarrow> health" where
  "fleet_health f =
     handleHealth (fe_hub f) (nat (fe_connected f)) (fe_abandons f) (pipeline.fallbacks (snd (fe_source f)))"

lemma fleet_step_fallbacks:
  "fleet_step cfg workers scfg L f f' \<Longrightarrow> piped_inv cfg L (fe_source f) \<and> piped_fallbacks cfg (fe_source f) \<Longrightarrow>
     piped_inv cfg L (fe_source f') \<and> piped_fallbacks cfg (fe_source f')"
  by (induction rule: fleet_step.induct) (auto dest: piped_matched piped_step_fallbacks)

lemma fleet_fallbacks:
  assumes "fleet_steps cfg workers scfg L (fleet_start h0) f"
  shows "piped_fallbacks cfg (fe_source f)"
proof -
  have "piped_inv cfg L (fe_source f) \<and> piped_fallbacks cfg (fe_source f)"
    using assms unfolding fleet_steps_def
    by (induction rule: rtranclp_induct) (simp add: fleet_start_def, rule fleet_step_fallbacks)
  then show ?thesis ..
qed

end
