(* ===== verification/Accounting.thy ===== *)
theory Accounting
  imports Fleet
begin

text \<open>
  The two ends' counts of the same fallbacks. The server counts a live delivery it abandons
  (\<^verbatim>\<open>liveAbandons\<close> in \<^verbatim>\<open>internal/server/server.go\<close>), the client a partial ledger it throws away
  (\<^verbatim>\<open>DiscardedPartials\<close> in \<^verbatim>\<open>remoteledger/stream.go\<close>), and nothing on the wire connects the
  two. Both are counts of BEGIN messages that no END answers: the lemmas show it for each end
  from its own steps, over every interleaving, and so relate the two counts.
\<close>

section \<open>Counting messages\<close>

definition is_kind :: "byte \<Rightarrow> bytes \<Rightarrow> bool" where
  "is_kind k m \<longleftrightarrow> m ! 1 = k"

definition tally :: "byte \<Rightarrow> bytes list \<Rightarrow> nat" where
  "tally k msgs = length (filter (is_kind k) msgs)"

lemma tally_simps [simp]:
  "tally k [] = 0" "tally k (m # ms) = (if is_kind k m then 1 else 0) + tally k ms"
  "tally k (ms @ ns) = tally k ms + tally k ns"
  by (simp_all add: tally_def)

lemma is_kind_messages [simp]:
  "is_kind k (AppendBegin [] sq t) \<longleftrightarrow> k = TypeBegin"
  "is_kind k (AppendChunk [] sq idx codec p) \<longleftrightarrow> k = TypeChunk"
  "is_kind k (AppendEnd [] sq n len t x) \<longleftrightarrow> k = TypeEnd"
  by (auto simp: is_kind_def AppendBegin_def AppendChunk_def AppendChunkHeader_def AppendEnd_def)

lemma kinds_differ [simp]:
  "TypeBegin \<noteq> TypeChunk" "TypeEnd \<noteq> TypeChunk" "TypeBegin \<noteq> TypeEnd" "TypeEnd \<noteq> TypeBegin"
  by (simp_all add: TypeBegin_def TypeChunk_def TypeEnd_def)

lemma tally_chunks: "(\<And>m. m \<in> set ms \<Longrightarrow> \<not> is_kind k m) \<Longrightarrow> tally k ms = 0"
  by (simp add: tally_def filter_empty_conv)

lemma carries_kind: "carries dec sq idx p m \<Longrightarrow> is_kind k m \<longleftrightarrow> k = TypeChunk"
  by (auto simp: carries_def)

lemma frames_kind: "frames enc sq idx p m \<Longrightarrow> is_kind k m \<longleftrightarrow> k = TypeChunk"
  by (auto simp: frames_def)

lemma flow_kinds:
  assumes "flow_carries dec sum64 L lim f"
  shows "is_kind k (fl_begin f) \<longleftrightarrow> k = TypeBegin" "fl_end f = Some e \<Longrightarrow> is_kind k e \<longleftrightarrow> k = TypeEnd"
    "m \<in> set (fl_chunks f) \<Longrightarrow> is_kind k m \<longleftrightarrow> k = TypeChunk"
  using assms by (auto simp: flow_carries_def in_set_conv_nth dest: carries_kind)

lemma tally_flow_chunks:
  "flow_carries dec sum64 L lim f \<Longrightarrow> k \<noteq> TypeChunk \<Longrightarrow> tally k (drop n (fl_chunks f)) = 0"
  by (rule tally_chunks) (auto simp: flow_kinds(3) dest: in_set_dropD)

lemma tally_ring_flow:
  "0 < c \<Longrightarrow> k \<noteq> TypeChunk \<Longrightarrow>
     tally k (writeRingFlow enc c sum64 sq raw) = (if k = TypeBegin \<or> k = TypeEnd then 1 else 0)"
proof -
  assume c: "0 < c" and k: "k \<noteq> TypeChunk"
  have "tally k (fst (ring_chunks enc c sq raw 0 0)) = 0"
    using k frames_kind [OF encodeChunk_frames]
    by (intro tally_chunks) (auto simp: ring_chunks_pieces [OF c] Let_def)
  then show ?thesis
    by (auto simp: writeRingFlow_def split: prod.splits)
qed

lemma tally_stampless:
  assumes "flow_carries dec sum64 L lim (fs ! i)" "k \<noteq> TypeChunk" "writeStamplessFlow fs (snap_of fs i) = Some msgs"
  shows "tally k msgs = (if k = TypeBegin \<or> k = TypeEnd then 1 else 0)"
  using assms(3) tally_flow_chunks [OF assms(1,2), of 0]
  by (auto simp: writeStamplessFlow_def split: sum.splits)

section \<open>The server's count\<close>

text \<open>Every BEGIN written was answered by END, abandoned, or is that of the flow being followed.\<close>

definition sub_tally :: "subscriber \<Rightarrow> bool" where
  "sub_tally s \<longleftrightarrow>
     tally TypeBegin (sb_out s) = tally TypeEnd (sb_out s) + sb_abandons s + (if sb_begun s then 1 else 0)"

lemma sub_tally_frame [simp]:
  "sub_tally (s\<lparr>sb_pc := x\<rparr>) = sub_tally s" "sub_tally (s\<lparr>sb_next := n\<rparr>) = sub_tally s"
  by (simp_all add: sub_tally_def)

lemma sub_tally_new: "sub_tally (new_subscriber req)"
  by (simp add: sub_tally_def new_subscriber_def)

text \<open>A sequence names one flow: numbers rise by one from flow to flow and never wrap past 0.\<close>

lemma dense_flows_rise:
  assumes "dense_flows fs"
  shows "i + d < length fs \<Longrightarrow> fl_seq (fs ! (i + d)) \<noteq> 0 \<Longrightarrow> unat (fl_seq (fs ! (i + d))) = unat (fl_seq (fs ! i)) + d"
proof (induction d)
  case (Suc d)
  then have step: "fl_seq (fs ! (i + d)) \<noteq> 0" "fl_seq (fs ! (i + Suc d)) = fl_seq (fs ! (i + d)) + 1"
    using assms by (simp_all add: dense_flows_def)
  with Suc.prems have "fl_seq (fs ! (i + d)) \<noteq> max_u32" by auto
  with step Suc show ?case by (simp add: unat_u32_Suc)
qed simp

lemma dense_flows_unique:
  assumes "dense_flows fs" "i < length fs" "fl_seq (fs ! i) = fl_seq (fs ! (length fs - 1))" "fl_seq (fs ! i) \<noteq> 0"
  shows "i = length fs - 1"
proof -
  have "i + (length fs - 1 - i) = length fs - 1" "length fs - 1 < length fs"
    using assms(2) by auto
  with dense_flows_rise [OF assms(1), of i "length fs - 1 - i"] assms(2-4) show ?thesis
    by simp
qed

text \<open>Each piece of \<^verbatim>\<open>serve\<close>.\<close>

lemma next_ledger_tally:
  "sub_tally s \<Longrightarrow> sb_begun s \<Longrightarrow> is_kind TypeEnd e \<Longrightarrow> \<not> is_kind TypeBegin e \<Longrightarrow> sub_tally (next_ledger [e] s)"
  by (simp add: sub_tally_def next_ledger_def)

lemma enter_flow_tally:
  assumes "sub_tally s" "is_kind TypeBegin (fl_begin (fs ! i))" "\<not> is_kind TypeEnd (fl_begin (fs ! i))"
    and "sb_begun s \<Longrightarrow> sb_flow s = Some i"
  shows "sub_tally (enter_flow fs (snap_of fs i) s) \<and> sb_begun (enter_flow fs (snap_of fs i) s)"
  using assms by (auto simp: sub_tally_def enter_flow_def fresh_flow_def)

lemma follow_flow_tally:
  assumes f: "flow_carries dec sum64 L lim (fs ! i)" and s: "sub_tally s" "sb_begun s \<Longrightarrow> sb_flow s = Some i"
  shows "sub_tally (follow_flow fs (snap_of fs i) ch fin s)"
proof -
  let ?s1 = "enter_flow fs (snap_of fs i) s"
  have "sub_tally ?s1 \<and> sb_begun ?s1"
    using enter_flow_tally [of s fs i] s flow_kinds(1) [OF f] by simp
  then have "sub_tally (send_chunks (snap_of fs i) ?s1)" "sb_begun (send_chunks (snap_of fs i) ?s1)"
    using tally_flow_chunks [OF f] by (simp_all add: sub_tally_def send_chunks_def)
  with flow_kinds(2) [OF f] show ?thesis
    by (auto simp: follow_flow_def Let_def next_ledger_tally split: option.splits)
qed

lemma leave_flow_tally:
  assumes "\<And>i. sb_begun s \<Longrightarrow> sb_flow s = Some i \<Longrightarrow> flow_carries dec sum64 L lim (fs ! i)" "sub_tally s"
  shows "sub_tally (leave_flow fs ch fin s)"
proof (cases "sb_begun s \<and> sb_flow s \<noteq> None")
  case False
  with assms(2) show ?thesis by (auto simp: leave_flow_def)
next
  case True
  then obtain i where i: "sb_begun s" "sb_flow s = Some i" by auto
  note f = flow_kinds(2) [OF assms(1) [OF i]]
  show ?thesis
  proof (cases "if sb_sent s = length (fl_chunks (fs ! i)) then fl_end (fs ! i) else None")
    case None
    with assms(2) i show ?thesis by (simp add: leave_flow_def sub_tally_def)
  next
    case (Some e)
    then have "fl_end (fs ! i) = Some e" by (auto split: if_splits)
    with f Some assms(2) i show ?thesis by (simp add: leave_flow_def next_ledger_tally)
  qed
qed

text \<open>A subscriber that has begun a ledger is in a flow of its number.\<close>

lemma anchored_begun:
  assumes "anchored dec sum64 L lim fs s" "sb_begun s"
  obtains i where "sb_flow s = Some i" "i < length fs" "fl_seq (fs ! i) = word_of_nat (sb_next s)" "sb_next s \<noteq> 0"
proof -
  have "sb_next s \<noteq> 0"
    using assms by (auto simp: anchored_def split: if_splits)
  with assms anchored_at [OF assms(1)] that show thesis
    by (metis sub_at_def)
qed

lemma serve_watch_tally:
  assumes hub: "hub_ok cfg L ph h" and srv: "server_ok cfg scfg dec lim"
    and sub: "sub_ok dec (sc_sum cfg) L lim h s" and t: "sub_tally s"
  shows "sub_tally (serve_watch h s)"
proof -
  let ?fs = "flows (hb_bc h)"
  obtain snap ch fin where w: "bc_watch (hb_bc h) = (snap, ch, fin)"
    by (metis prod_cases3)
  define sq where "sq = sn_seq ?fs snap"
  define s0 where "s0 = anchor_now sq s"
  have dense: "bc_inv (hb_bc h)" "dense_flows ?fs"
    using hub by (simp_all add: hub_ok_def bc_at_def)
  have s0: "sub_tally s0" "sb_begun s0 = sb_begun s" "sb_flow s0 = sb_flow s"
    using t by (simp_all add: s0_def anchor_now_def)
  have begun: "\<exists>i. sb_flow s0 = Some i \<and> i < length ?fs \<and> fl_seq (?fs ! i) = word_of_nat (sb_next s0)"
    if b: "sb_begun s0"
  proof -
    have "anchored dec (sc_sum cfg) L lim ?fs s" "sb_begun s"
      using sub b s0(2) by (simp_all add: sub_ok_def)
    then obtain i where "sb_flow s = Some i" "i < length ?fs" "fl_seq (?fs ! i) = word_of_nat (sb_next s)" "sb_next s \<noteq> 0"
      by (rule anchored_begun)
    moreover from this(4) have "s0 = s" by (simp add: s0_def anchor_now_def)
    ultimately show ?thesis by simp
  qed
  note split = serve_watch_split [OF w, of s, folded sq_def, unfolded Let_def, folded sq_def, folded s0_def]
  have leave: "sub_tally (leave_flow ?fs ch fin s0)"
    using begun hub_ok_flows [OF hub srv] by (intro leave_flow_tally [OF _ s0(1)]) force
  have here: "sub_tally (serve_watch h s)" if at: "sb_next s0 \<noteq> 0" "sb_next s0 = unat sq" "\<not> past_end s0"
  proof -
    from at have "sq \<noteq> 0" by auto
    with w dense(1) obtain i where snap: "snap = snap_of ?fs i" and i: "i = length ?fs - 1" "?fs \<noteq> []"
      by (cases rule: watch_cases [OF dense(1)]) (auto simp: sq_def sn_seq_def)
    have f: "flow_carries dec (sc_sum cfg) L lim (?fs ! i)" "fl_seq (?fs ! i) = sq"
      using hub_ok_flows [OF hub srv, of i] i snap sq_def by auto
    have same: "sb_flow s0 = Some i" if "sb_begun s0"
      using begun [OF that] dense_flows_unique [OF dense(2)] at(2) f(2) i(1) \<open>sq \<noteq> 0\<close> by auto
    show ?thesis
      using split at f(1) follow_flow_tally [OF f(1) s0(1) same] tally_stampless [OF f(1)] s0(1)
      by (auto simp: snap sub_tally_def split: option.splits)
  qed
  show ?thesis
  proof (cases "sb_next s0 \<noteq> 0 \<and> sb_next s0 = unat sq \<and> \<not> past_end s0")
    case True
    with here show ?thesis by blast
  next
    case False
    with split leave s0(1) show ?thesis by auto
  qed
qed

lemma serve_read_tally:
  assumes srv: "server_ok cfg scfg dec lim" and t: "sub_tally s" "serve_read scfg h st s = (h', s')"
  shows "sub_tally s'"
proof -
  have c: "0 < sr_chunk scfg" using srv by (simp add: server_ok_def)
  show ?thesis
    using t tally_ring_flow [OF c]
    by (auto simp: serve_read_def sub_tally_def split: prod.splits sum.splits store_error.splits)
qed

lemma serve_step_tally:
  assumes "hub_ok cfg L ph h" "server_ok cfg scfg dec lim" "sub_ok dec (sc_sum cfg) L lim h s"
    and t: "sub_tally s" and step: "serve_step scfg h s = (h', s')"
  shows "sub_tally s'"
proof (cases "sb_pc s")
  case PcWatch
  with serve_watch_tally [OF assms(1-4)] step show ?thesis by (auto simp: serve_step_def)
next
  case (PcRead st ch fin)
  with serve_read_tally [OF assms(2,4)] step show ?thesis by (auto simp: serve_step_def)
qed (use t step in \<open>auto simp: serve_step_def serve_bounds_def serve_settle_def serve_too_far_def
    split: prod.splits option.splits if_splits\<close>)

lemma sys_steps_tally:
  assumes "sys_steps cfg scfg L (h0, ph0, new_subscriber req) sys" "hub_ok cfg L ph0 h0" "server_ok cfg scfg dec lim"
  shows "sys_ok cfg L dec lim sys \<and> sub_tally (snd (snd sys))"
  using assms(1) unfolding sys_steps_def
proof (induction rule: rtranclp_induct)
  case base
  with assms(2) show ?case by (simp add: sub_tally_new)
next
  case (step y z)
  then have ok: "sys_ok cfg L dec lim z"
    using sys_step_ok [OF _ assms(3)] by blast
  from step(2) have "sub_tally (snd (snd z))"
  proof cases
    case (sys_serve h s h' s' ph)
    with step(3) show ?thesis
      using serve_step_tally [OF _ assms(3) _ _ sys_serve(3), of L ph] by simp
  qed (use step(3) in simp_all)
  with ok show ?case by simp
qed

section \<open>The client's count\<close>

text \<open>The partials of a client: those it reported with a ledger, and those of the ledger in hand.\<close>

definition partials :: "client \<Rightarrow> nat" where
  "partials c = sum_list (map li_discarded (cl_infos c)) + cl_discarded c"

lemma partials_fail [simp]: "partials (client_fail e c) = partials c"
  by (simp add: partials_def client_fail_def)

lemma deliver_partials [simp]:
  "partials (deliver cfg rng sq c) = partials c" "cl_discarded (deliver cfg rng sq c) = cl_discarded c"
  by (simp_all add: partials_def deliver_def Let_def)

lemma partials_begin:
  "partials (client_begin c m) = (if cl_active c \<and> m_seq m = cl_seq c then partials c + 1 else partials c)"
  by (auto simp: client_begin_def Let_def partials_def client_fail_def split: option.splits)

lemma discarded_begin: "\<not> cl_active c \<Longrightarrow> cl_discarded (client_begin c m) = cl_discarded c"
  by (auto simp: client_begin_def Let_def client_fail_def split: option.splits)

lemma partials_chunk: "partials (client_chunk cfg c m) = partials c"
  by (auto simp: client_chunk_def Let_def partials_def client_fail_def split: option.splits)

lemma partials_end: "cc_observe cfg \<Longrightarrow> partials (client_end cfg rng c m) = partials c"
  by (auto simp: client_end_def Let_def) (auto simp: partials_def)

lemma discarded_end: "cl_active c \<Longrightarrow> \<not> cl_active (client_end cfg rng c m) \<Longrightarrow> cl_discarded (client_end cfg rng c m) = 0"
  by (auto simp: client_end_def client_fail_def Let_def split: if_splits)

lemma partials_closed [simp]: "partials (client_closed rng c e) = partials c"
proof -
  have "partials (c\<lparr>cl_status := x\<rparr>) = partials c" for x
    by (simp add: partials_def)
  then show ?thesis
    by (simp add: client_closed_def split: prod.splits bool.splits option.splits)
qed

lemma partials_feed: "cc_observe cfg \<Longrightarrow> partials c \<le> partials (client_feed cfg rng c i)"
  by (simp add: client_feed_def client_message_def partials_begin partials_chunk partials_end split: sum.splits)

lemma partials_run: "cc_observe cfg \<Longrightarrow> prefix is js \<Longrightarrow> partials (client_run cfg rng is) \<le> partials (client_run cfg rng js)"
proof (induction js rule: rev_induct)
  case (snoc j js)
  then show ?case
    using partials_feed [of cfg "client_run cfg rng js" rng j]
    by (cases "is = js @ [j]") (auto simp: client_run_snoc prefix_snoc intro: order_trans)
qed simp

text \<open>On a stream of the protocol the partials are the unanswered BEGINs but the one in hand.\<close>

lemma feed_chunk_partials:
  assumes "cl_status c = Running" "carries dec sq idx p m" "readLimit (cc_max_chunk cfg) \<ge> 0 \<Longrightarrow> int (length m) \<le> readLimit (cc_max_chunk cfg)"
  shows "partials (client_feed cfg rng c (Binary m)) = partials c"
  using assms
  by (auto simp: client_feed_message carries_def client_message_def Decode_AppendChunk partials_chunk)

lemma feed_end:
  assumes "cl_status c = Running"
  shows "\<exists>m. client_feed cfg rng c (Binary (AppendEnd [] sq n len t x)) = client_end cfg rng c m"
  using readLimit_end [of "cc_max_chunk cfg"] assms
  by (subst client_feed_message) (auto simp: client_message_def)

fun in_hand :: "cursor \<Rightarrow> nat" where
  "in_hand (Between n) = 0"
| "in_hand (Within n parts) = 1"

lemma served_partials:
  "served (cc_dec cfg) (cc_sum cfg) L lim start msgs pos \<Longrightarrow> accepts_stream cfg rng L lim start \<Longrightarrow>
   in_range rng start pos \<Longrightarrow> cc_observe cfg \<Longrightarrow>
     tally TypeBegin msgs = tally TypeEnd msgs + partials (client_run cfg rng (map Binary msgs)) + in_hand pos \<and>
     (in_hand pos = 0 \<longrightarrow> cl_discarded (client_run cfg rng (map Binary msgs)) = 0)"
proof (induction rule: served.induct)
  case sv_start
  then show ?case
    by (simp add: client_run_def new_client_def partials_def)
next
  case (sv_begin msgs n t)
  then have rng: "in_range rng start (Between n)" by auto
  have at: "client_at rng L start (client_run cfg rng (map Binary msgs)) (Between n)"
    by (rule served_client [OF sv_begin(1,4) rng])
  with sv_begin(5) have "cl_status (client_run cfg rng (map Binary msgs)) = Running" by auto
  with at sv_begin(3) [OF sv_begin(4) rng sv_begin(6)] show ?case
    by (simp add: client_run_snoc client_feed_begin partials_begin)
next
  case (sv_again msgs n parts t)
  then have rng: "in_range rng start (Within n parts)" by auto
  have at: "client_at rng L start (client_run cfg rng (map Binary msgs)) (Within n parts)"
    by (rule served_client [OF sv_again(1,3) rng])
  with sv_again(2) [OF sv_again(3) rng sv_again(5)] show ?case
    by (simp add: client_run_snoc client_feed_begin partials_begin)
next
  case (sv_chunk msgs n parts p m)
  then have rng: "in_range rng start (Within n parts)" by auto
  have "client_at rng L start (client_run cfg rng (map Binary msgs)) (Within n parts)"
    by (rule served_client [OF sv_chunk(1,6) rng])
  then have "partials (client_feed cfg rng (client_run cfg rng (map Binary msgs)) (Binary m))
      = partials (client_run cfg rng (map Binary msgs))"
    using sv_chunk(3,6) by (intro feed_chunk_partials [OF _ sv_chunk(2)]) (auto simp: accepts_stream_def)
  with sv_chunk(5) [OF sv_chunk(6) rng sv_chunk(8)] show ?case
    by (simp add: client_run_snoc carries_kind [OF sv_chunk(2)])
next
  case (sv_end msgs n parts t)
  let ?c = "client_run cfg rng (map Binary msgs)"
  let ?e = "AppendEnd [] (word_of_nat n) (word_of_nat (length parts)) (word_of_nat (length (L (word_of_nat n)))) t
      (cc_sum cfg (L (word_of_nat n)))"
  from sv_end(5) served_ledger [OF sv_end(1)] have rng: "in_range rng start (Within n parts)" by auto
  have at: "client_at rng L start ?c (Within n parts)"
    by (rule served_client [OF sv_end(1,4) rng])
  then obtain m where m: "client_feed cfg rng ?c (Binary ?e) = client_end cfg rng ?c m"
    using feed_end [of ?c] by fastforce
  have "client_at rng L start (client_run cfg rng (map Binary (msgs @ [?e]))) (Between (n + 1))"
    by (rule served_client [OF served.sv_end [OF sv_end(1,2)] sv_end(4,5)])
  with at m sv_end(3) [OF sv_end(4) rng sv_end(6)] show ?case
    using discarded_end [of ?c cfg rng m] by (simp add: client_run_snoc partials_end [OF sv_end(6)])
qed

section \<open>The two counts\<close>

text \<open>
  What the client threw away and what the server abandoned differ by at most one: the delivery
  abandoned last, as long as the client still holds its partial.
\<close>

lemma session_partials:
  assumes run: "sys_steps cfg scfg L (h0, ph0, new_subscriber req) (h, ph, s)"
    and ok: "hub_ok cfg L ph0 h0" "server_ok cfg scfg dec lim"
    and client: "cc_dec ccfg = dec" "cc_sum ccfg = sc_sum cfg" "cc_observe ccfg"
      "\<And>start. 0 < start \<Longrightarrow> rq_start req = 0 \<or> unat (rq_start req) = start \<Longrightarrow>
         accepts_stream ccfg (req_range req) L lim start"
    and c: "c = client_run ccfg (req_range req) (map Binary (sb_out s))"
  shows "partials c + (if cl_active c \<and> \<not> sb_begun s then 1 else 0) = sb_abandons s \<and>
    (\<not> cl_active c \<longrightarrow> cl_discarded c = 0)"
proof -
  have req: "sb_req s = req"
    using sys_steps_req [OF run] by (simp add: new_subscriber_def)
  have sub: "anchored dec (sc_sum cfg) L lim (flows (hb_bc h)) s" "sub_tally s"
    using sys_steps_tally [OF run ok] by (simp_all add: sub_ok_def)
  show ?thesis
  proof (cases "sb_next s = 0")
    case True
    with sub have "sb_out s = []" "sb_abandons s = 0"
      by (auto simp: anchored_def sub_tally_def)
    then show ?thesis
      by (simp add: c client_run_def new_client_def partials_def)
  next
    case False
    with sub(1) obtain start where start: "0 < start" "rq_start req = 0 \<or> unat (rq_start req) = start"
      and at: "sub_at dec (sc_sum cfg) L lim (flows (hb_bc h)) start s"
      unfolding req [symmetric] by (rule anchored_at)
    then obtain pos where pos: "served dec (sc_sum cfg) L lim start (sb_out s) pos" "in_range (req_range req) start pos"
      and begun: "sb_begun s \<longrightarrow> in_hand pos = 1"
      by (auto simp: sub_at_def req)
    note served = pos(1) [folded client(1,2)] and acc = client(4) [OF start]
    have "cl_active c \<longleftrightarrow> in_hand pos = 1"
      using served_client [OF served acc pos(2)] by (cases pos) (auto simp: c)
    with served_partials [OF served acc pos(2) client(3)] begun sub(2) show ?thesis
      by (cases pos) (auto simp: c sub_tally_def)
  qed
qed

end
