(* ===== verification/Examples.thy ===== *)
theory Examples
  imports Accounting
begin

text \<open>
  One small session for the witnesses: a source that publishes ledger 7, the single byte 0, a
  subscriber that asked for exactly that ledger and joined while it was open; and the same
  subscriber as the one connection of a server.
\<close>

section \<open>The parties\<close>

definition demo_src :: "nat source_cfg" where
  "demo_src = \<lparr>sc_chunk = 4096, sc_max = 10, sc_read = (\<lambda>r k. (r, [], Some RdEOF)), sc_enc = None,
     sc_busy = (\<lambda>_. False), sc_sum = (\<lambda>_. 9), sc_now = (\<lambda>_. 3)\<rparr>"

definition demo_serve :: serve_cfg where
  "demo_serve = \<lparr>sr_chunk = 4096, sr_enc = None, sr_sum = (\<lambda>_. 9)\<rparr>"

definition demo_ledgers :: "u32 \<Rightarrow> bytes" where "demo_ledgers q = [0]"

definition demo_request :: stream_request where
  "demo_request = \<lparr>rq_start = 7, rq_end = 7, rq_bounded = True\<rparr>"

text \<open>The hub with these flows after \<open>n\<close> publications, and the session's messages.\<close>

definition demo_hub :: "flow list \<Rightarrow> nat \<Rightarrow> hub" where
  "demo_hub fs n = \<lparr>hb_bc = \<lparr>flows = fs, cur = (if fs = [] then None else Some 0), notify = n,
     notify_closed = False, ended = False, src_err = None\<rparr>, hb_store = empty_ring 2, hb_disk = empty_disk\<rparr>"

definition demo_end :: bytes where "demo_end = AppendEnd [] 7 1 1 3 9"

definition demo_flow :: flow where
  "demo_flow = \<lparr>fl_seq = 7, fl_begin = AppendBegin [] 7 3, fl_chunks = [AppendChunk [] 7 0 CodecRaw [0]], fl_end = None\<rparr>"

definition demo_sub :: subscriber where
  "demo_sub = \<lparr>sb_req = demo_request, sb_next = 7, sb_flow = Some 0, sb_begun = True, sb_sent = 1,
     sb_out = [AppendBegin [] 7 3, AppendChunk [] 7 0 CodecRaw [0]], sb_abandons = 0, sb_pc = PcWatch\<rparr>"

definition demo_done :: subscriber where
  "demo_done = demo_sub\<lparr>sb_next := 8, sb_flow := None, sb_begun := False, sb_out := sb_out demo_sub @ [demo_end]\<rparr>"

section \<open>The session, step by step\<close>

lemma demo_hub_ok: "hub_ok demo_src demo_ledgers (Idle 0) (demo_hub [] 0)"
proof -
  have "demo_hub [] 0 = \<lparr>hb_bc = newBroadcaster, hb_store = empty_ring 2, hb_disk = empty_disk\<rparr>"
    by (simp add: demo_hub_def newBroadcaster_def)
  then show ?thesis
    by (simp add: hub_ok_def files_agree_def)
qed

lemma demo_server_ok: "server_ok demo_src demo_serve (\<lambda>_. None) 4096"
  by (simp add: server_ok_def demo_src_def demo_serve_def codec_ok_def)

text \<open>One event of the source.\<close>

definition demo_emit :: "hub \<Rightarrow> phase \<Rightarrow> hub \<Rightarrow> phase \<Rightarrow> bool" where
  "demo_emit h ph h' ph' \<longleftrightarrow> (\<exists>ev. emits demo_src demo_ledgers ph ev ph' \<and> hub_event h ev = Inr h')"

lemma demo_emitI: "emits demo_src demo_ledgers ph ev ph' \<Longrightarrow> hub_event h ev = Inr h' \<Longrightarrow> demo_emit h ph h' ph'"
  by (auto simp: demo_emit_def)

lemma demo_source: "demo_emit h ph h' ph' \<Longrightarrow> sys_step demo_src demo_serve demo_ledgers (h, ph, s) (h', ph', s)"
  by (auto simp: demo_emit_def intro: sys_source)

lemma demo_begin: "demo_emit (demo_hub [] 0) (Idle 0) (demo_hub [demo_flow\<lparr>fl_chunks := []\<rparr>] 1) (InFlow 7 [])"
  by (rule demo_emitI [OF g_begin [of 0 7 _ _ 3]])
    (simp_all add: with_bc_def demo_hub_def bc_begin_def cur_flow_def wakeLocked_def demo_flow_def)

lemma demo_chunk:
  "demo_emit (demo_hub [demo_flow\<lparr>fl_chunks := []\<rparr>] 1) (InFlow 7 []) (demo_hub [demo_flow] 2) (InFlow 7 [[0]])"
  by (rule demo_emitI [where ev = "EvChunk (AppendChunk [] 7 0 CodecRaw [0])"], rule g_chunk [where parts = "[]", simplified])
    (simp_all add: with_bc_def demo_hub_def bc_chunk_def cur_flow_def set_cur_def wakeLocked_def demo_flow_def
      demo_ledgers_def demo_src_def frames_def)

lemma demo_watch: "serve_step demo_serve (demo_hub [demo_flow] 2) (new_subscriber demo_request) = (demo_hub [demo_flow] 2, demo_sub)"
  by (simp add: serve_step_def serve_watch_def new_subscriber_def demo_request_def demo_hub_def bc_watch_def cur_flow_def
      sn_seq_def past_end_def sn_complete_def follow_flow_def Let_def enter_flow_def fresh_flow_def send_chunks_def
      demo_flow_def demo_sub_def demo_end_def)

lemma demo_finish:
  "demo_emit (demo_hub [demo_flow] 2) (InFlow 7 [[0]]) (demo_hub [demo_flow\<lparr>fl_end := Some demo_end\<rparr>] 3) (Ended 7 [[0]])"
proof (rule demo_emitI)
  show "emits demo_src demo_ledgers (InFlow 7 [[0]]) (EvEnd demo_end) (Ended 7 [[0]])"
    using g_end [of "[[0]]" demo_ledgers 7 demo_src 3]
    by (simp add: demo_ledgers_def demo_src_def demo_end_def)
  show "hub_event (demo_hub [demo_flow] 2) (EvEnd demo_end) = Inr (demo_hub [demo_flow\<lparr>fl_end := Some demo_end\<rparr>] 3)"
    by (simp add: with_bc_def demo_hub_def bc_end_def cur_flow_def set_cur_def wakeLocked_def demo_flow_def)
qed

lemma demo_watch_end: "serve_step demo_serve (demo_hub [demo_flow\<lparr>fl_end := Some demo_end\<rparr>] 3) demo_sub
    = (demo_hub [demo_flow\<lparr>fl_end := Some demo_end\<rparr>] 3, demo_done)"
  by (simp add: serve_step_def serve_watch_def demo_sub_def demo_request_def demo_hub_def bc_watch_def cur_flow_def
      sn_seq_def past_end_def sn_complete_def follow_flow_def Let_def enter_flow_def fresh_flow_def send_chunks_def
      demo_flow_def demo_done_def next_ledger_def)

lemma demo_run: "sys_steps demo_src demo_serve demo_ledgers (demo_hub [] 0, Idle 0, new_subscriber demo_request)
    (demo_hub [demo_flow\<lparr>fl_end := Some demo_end\<rparr>] 3, Ended 7 [[0]], demo_done)"
proof -
  note step = converse_rtranclp_into_rtranclp [where r = "sys_step demo_src demo_serve demo_ledgers"]
  show ?thesis
    unfolding sys_steps_def
    by (rule step [OF demo_source [OF demo_begin]], rule step [OF demo_source [OF demo_chunk]],
        rule step [OF sys_serve [OF demo_watch]], rule step [OF demo_source [OF demo_finish]],
        rule step [OF sys_serve [OF demo_watch_end]], rule rtranclp.rtrancl_refl)
qed

lemma demo_accepts:
  "rq_start demo_request = 0 \<or> unat (rq_start demo_request) = start \<Longrightarrow>
     accepts_stream one_client (req_range demo_request) demo_ledgers 4096 start"
  by (auto simp: accepts_stream_def one_client_def demo_request_def req_range_def demo_ledgers_def readLimit_def
      max_int64_def MaxChunkSize_def)

text \<open>The subscriber then closes; and one that finds an empty hub goes to sleep, or closes when it has ended.\<close>

definition demo_closed :: subscriber where
  "demo_closed = demo_done\<lparr>sb_pc := PcClosed StatusNormalClosure []\<rparr>"

definition demo_asleep :: subscriber where
  "demo_asleep = (new_subscriber demo_request)\<lparr>sb_pc := PcSleep 0\<rparr>"

definition demo_over :: hub where
  "demo_over = demo_hub [] 0\<lparr>hb_bc := bc_finish newBroadcaster None\<rparr>"

definition demo_incomplete :: subscriber where
  "demo_incomplete = (new_subscriber demo_request)\<lparr>sb_pc := PcClosed StatusGoingAway ''source ended before range complete''\<rparr>"

lemma demo_close_step: "sys_step demo_src demo_serve demo_ledgers
    (demo_hub [demo_flow\<lparr>fl_end := Some demo_end\<rparr>] 3, Ended 7 [[0]], demo_done)
    (demo_hub [demo_flow\<lparr>fl_end := Some demo_end\<rparr>] 3, Ended 7 [[0]], demo_closed)"
  by (rule sys_serve)
    (simp add: serve_step_def serve_watch_def demo_done_def demo_closed_def demo_sub_def demo_request_def demo_hub_def
      bc_watch_def cur_flow_def sn_seq_def past_end_def demo_flow_def)

lemma demo_closed_run: "sys_steps demo_src demo_serve demo_ledgers (demo_hub [] 0, Idle 0, new_subscriber demo_request)
    (demo_hub [demo_flow\<lparr>fl_end := Some demo_end\<rparr>] 3, Ended 7 [[0]], demo_closed)"
  using demo_run demo_close_step unfolding sys_steps_def by (rule rtranclp.rtrancl_into_rtrancl)

lemmas serve_on_empty = serve_step_def serve_watch_def serve_bounds_def serve_settle_def Bounds_def bc_watch_def
  cur_flow_def sn_seq_def past_end_def leave_flow_def new_subscriber_def demo_request_def

lemma demo_sleeps: "sys_steps demo_src demo_serve demo_ledgers (demo_hub [] 0, Idle 0, new_subscriber demo_request)
    (demo_hub [] 0, Idle 0, demo_asleep)"
proof -
  let ?sub = "new_subscriber demo_request"
  note step = converse_rtranclp_into_rtranclp [where r = "sys_step demo_src demo_serve demo_ledgers"]
  show ?thesis
    unfolding sys_steps_def
    by (rule step [of _ "(demo_hub [] 0, Idle 0, ?sub\<lparr>sb_pc := PcBounds 0 False\<rparr>)"],
        (rule sys_serve, simp add: serve_on_empty demo_hub_def),
        rule step [of _ "(demo_hub [] 0, Idle 0, ?sub\<lparr>sb_pc := PcSettle 0 False\<rparr>)"],
        (rule sys_serve, simp add: serve_on_empty demo_hub_def empty_ring_def),
        rule r_into_rtranclp, rule sys_serve, simp add: serve_on_empty demo_asleep_def)
qed

lemma demo_finish_step: "sys_step demo_src demo_serve demo_ledgers (demo_hub [] 0, Idle 0, s) (demo_over, Done, s)"
  by (rule sys_source [OF g_finish [of _ _ _ None]])
    (simp_all add: demo_over_def demo_hub_def newBroadcaster_def)

lemma demo_over_run: "sys_steps demo_src demo_serve demo_ledgers (demo_hub [] 0, Idle 0, s) (demo_over, Done, s)"
  unfolding sys_steps_def by (rule r_into_rtranclp, rule demo_finish_step)

lemma demo_incomplete_run:
  "sys_steps demo_src demo_serve demo_ledgers (demo_hub [] 0, Idle 0, new_subscriber demo_request)
    (demo_over, Done, demo_incomplete)"
proof -
  let ?sub = "new_subscriber demo_request"
  note step = converse_rtranclp_into_rtranclp [where r = "sys_step demo_src demo_serve demo_ledgers"]
  note over = demo_over_def demo_hub_def bc_finish_def newBroadcaster_def
  show ?thesis
    unfolding sys_steps_def
    by (rule step [OF demo_finish_step],
        rule step [of _ "(demo_over, Done, ?sub\<lparr>sb_pc := PcBounds 0 True\<rparr>)"],
        (rule sys_serve, simp add: serve_on_empty over),
        rule step [of _ "(demo_over, Done, ?sub\<lparr>sb_pc := PcSettle 0 True\<rparr>)"],
        (rule sys_serve, simp add: serve_on_empty over empty_ring_def),
        rule r_into_rtranclp, rule sys_serve,
        simp add: serve_on_empty over demo_incomplete_def bc_failure_def endedClose_def)
qed

section \<open>The same session as a server with one connection\<close>

definition demo_fleet :: "hub \<Rightarrow> phase \<Rightarrow> subscriber \<Rightarrow> fleet" where
  "demo_fleet h ph s = \<lparr>fe_hub = h, fe_source = (ph, newChunkPipeline), fe_conns = [\<lparr>cn_phase = Serving, cn_sub = s\<rparr>], fe_connected = 1,
     fe_abandons = sb_abandons s\<rparr>"

definition demo_query :: query where
  "demo_query = (\<lambda>_. Some [''7''])"

lemma demo_fleet_source:
  assumes "demo_emit h ph h' ph'"
  shows "fleet_step demo_src 4 demo_serve demo_ledgers (demo_fleet h ph s) (demo_fleet h' ph' s)"
proof -
  obtain ev where ev: "emits demo_src demo_ledgers ph ev ph'" "hub_event h ev = Inr h'"
    using assms by (auto simp: demo_emit_def)
  have "piped_step demo_src 4 demo_ledgers (fe_source (demo_fleet h ph s)) [ev] (ph', newChunkPipeline)"
    using piped_inline [OF _ ev(1)] by (simp add: demo_fleet_def demo_src_def)
  moreover have "hub_events (fe_hub (demo_fleet h ph s)) [ev] = Inr h'"
    using ev(2) by (simp add: demo_fleet_def del: hub_event.simps)
  ultimately show ?thesis
    using fl_source [of demo_src 4 demo_ledgers "demo_fleet h ph s"] by (simp add: demo_fleet_def)
qed

lemma demo_fleet_serve:
  assumes "serve_step demo_serve h s = (h', s')"
  shows "fleet_step demo_src 4 demo_serve demo_ledgers (demo_fleet h ph s) (demo_fleet h' ph s')"
  using fl_serve [of "demo_fleet h ph s" "[]" "\<lparr>cn_phase = Serving, cn_sub = s\<rparr>" "[]" demo_serve h' s'] assms
    serve_step_abandons [OF assms]
  by (simp add: demo_fleet_def)

lemma demo_fleet_join:
  "fleet_steps demo_src 4 demo_serve demo_ledgers (fleet_start (demo_hub [] 0))
     (demo_fleet (demo_hub [] 0) (Idle 0) (new_subscriber demo_request))"
proof -
  let ?f = "fleet_start (demo_hub [] 0)"
  let ?c = "\<lparr>cn_phase = Handshake, cn_sub = new_subscriber demo_request\<rparr>"
  have "handleStream demo_query = Inr (new_subscriber demo_request)"
    by (simp add: handleStream_def parseStreamRequest_def get_param_def demo_query_def demo_request_def parse_uint_def
        digit_val_def is_digit_def)
  from fl_arrive [OF this, of demo_src 4 demo_serve demo_ledgers ?f]
  have "fleet_step demo_src 4 demo_serve demo_ledgers ?f (?f\<lparr>fe_conns := [?c]\<rparr>)"
    by (simp add: fleet_start_def)
  moreover have "fleet_step demo_src 4 demo_serve demo_ledgers (?f\<lparr>fe_conns := [?c]\<rparr>)
      (demo_fleet (demo_hub [] 0) (Idle 0) (new_subscriber demo_request))"
    using fl_connect [of "?f\<lparr>fe_conns := [?c]\<rparr>" "[]" ?c "[]" demo_src 4 demo_serve demo_ledgers]
    by (simp add: fleet_start_def piped_start_def demo_fleet_def new_subscriber_def)
  ultimately show ?thesis
    unfolding fleet_steps_def by (meson rtranclp.rtrancl_into_rtrancl rtranclp.rtrancl_refl)
qed

lemma demo_fleet_run:
  "fleet_steps demo_src 4 demo_serve demo_ledgers (fleet_start (demo_hub [] 0))
     (demo_fleet (demo_hub [demo_flow\<lparr>fl_end := Some demo_end\<rparr>] 3) (Ended 7 [[0]]) demo_done)"
proof -
  note step = converse_rtranclp_into_rtranclp [where r = "fleet_step demo_src 4 demo_serve demo_ledgers"]
  show ?thesis
    unfolding fleet_steps_def
    by (rule rtranclp_trans [OF demo_fleet_join [unfolded fleet_steps_def]], rule step [OF demo_fleet_source [OF demo_begin]],
        rule step [OF demo_fleet_source [OF demo_chunk]], rule step [OF demo_fleet_serve [OF demo_watch]],
        rule step [OF demo_fleet_source [OF demo_finish]], rule step [OF demo_fleet_serve [OF demo_watch_end]],
        rule rtranclp.rtrancl_refl)
qed

text \<open>The same connection when its handler first looks only after the ledger was complete.\<close>

definition demo_late :: subscriber where
  "demo_late = (new_subscriber demo_request)\<lparr>sb_next := 8,
     sb_out := [AppendBegin [] 7 0, AppendChunk [] 7 0 CodecRaw [0], AppendEnd [] 7 1 1 0 9]\<rparr>"

lemma demo_late_watch:
  "serve_step demo_serve (demo_hub [demo_flow\<lparr>fl_end := Some demo_end\<rparr>] 3) (new_subscriber demo_request)
    = (demo_hub [demo_flow\<lparr>fl_end := Some demo_end\<rparr>] 3, demo_late)"
  by (simp add: serve_step_def serve_watch_def new_subscriber_def demo_request_def demo_hub_def bc_watch_def cur_flow_def
      sn_seq_def past_end_def sn_complete_def demo_flow_def demo_late_def writeStamplessFlow_def demo_end_def)

lemma demo_late_run:
  "fleet_steps demo_src 4 demo_serve demo_ledgers (demo_fleet (demo_hub [] 0) (Idle 0) (new_subscriber demo_request))
     (demo_fleet (demo_hub [demo_flow\<lparr>fl_end := Some demo_end\<rparr>] 3) (Ended 7 [[0]]) demo_late)"
proof -
  note step = converse_rtranclp_into_rtranclp [where r = "fleet_step demo_src 4 demo_serve demo_ledgers"]
  show ?thesis
    unfolding fleet_steps_def
    by (rule step [OF demo_fleet_source [OF demo_begin]], rule step [OF demo_fleet_source [OF demo_chunk]],
        rule step [OF demo_fleet_source [OF demo_finish]], rule step [OF demo_fleet_serve [OF demo_late_watch]],
        rule rtranclp.rtrancl_refl)
qed

text \<open>The same connection when the source moves on to ledger 8 while its subscriber sits on BEGIN 7.\<close>

definition demo_opened :: subscriber where
  "demo_opened = demo_sub\<lparr>sb_sent := 0, sb_out := [AppendBegin [] 7 3]\<rparr>"

definition demo_dropped :: subscriber where
  "demo_dropped = demo_opened\<lparr>sb_flow := None, sb_begun := False, sb_abandons := 1, sb_pc := PcBounds 4 False\<rparr>"

lemma demo_watch_opened:
  "serve_step demo_serve (demo_hub [demo_flow\<lparr>fl_chunks := []\<rparr>] 1) (new_subscriber demo_request)
    = (demo_hub [demo_flow\<lparr>fl_chunks := []\<rparr>] 1, demo_opened)"
  by (simp add: serve_step_def serve_watch_def new_subscriber_def demo_request_def demo_hub_def bc_watch_def cur_flow_def
      sn_seq_def past_end_def sn_complete_def follow_flow_def Let_def enter_flow_def fresh_flow_def send_chunks_def
      demo_flow_def demo_sub_def demo_opened_def)

lemma demo_moves_on:
  obtains h1 h2 where "demo_emit (demo_hub [demo_flow\<lparr>fl_end := Some demo_end\<rparr>] 3) (Ended 7 [[0]]) h1 (Idle 7)"
    "demo_emit h1 (Idle 7) h2 (InFlow 8 [])" "serve_step demo_serve h2 demo_opened = (h2, demo_dropped)"
proof -
  let ?h = "demo_hub [demo_flow\<lparr>fl_end := Some demo_end\<rparr>] 3"
  obtain s d where put: "hub_event ?h (EvPut 7 [[0]]) = Inr (?h\<lparr>hb_store := s, hb_disk := d\<rparr>)"
    using hub_put by blast
  let ?h1 = "?h\<lparr>hb_store := s, hb_disk := d\<rparr>"
  let ?h2 = "?h1\<lparr>hb_bc := (hb_bc ?h)\<lparr>flows := flows (hb_bc ?h) @
      [\<lparr>fl_seq = 8, fl_begin = AppendBegin [] 8 3, fl_chunks = [], fl_end = None\<rparr>], cur := Some 1, notify := 4\<rparr>\<rparr>"
  have "demo_emit ?h (Ended 7 [[0]]) ?h1 (Idle 7)"
    by (rule demo_emitI [OF g_put put]) simp
  moreover have "demo_emit ?h1 (Idle 7) ?h2 (InFlow 8 [])"
    by (rule demo_emitI [OF g_begin [of 7 8 _ _ 3]])
      (simp_all add: with_bc_def demo_hub_def bc_begin_def cur_flow_def wakeLocked_def demo_flow_def)
  moreover have "serve_step demo_serve ?h2 demo_opened = (?h2, demo_dropped)"
    by (simp add: serve_step_def serve_watch_def demo_opened_def demo_sub_def demo_request_def demo_hub_def bc_watch_def
        cur_flow_def sn_seq_def past_end_def demo_flow_def leave_flow_def demo_dropped_def)
  ultimately show thesis by (rule that)
qed

lemma demo_dropped_run:
  "\<exists>h ph. fleet_steps demo_src 4 demo_serve demo_ledgers (fleet_start (demo_hub [] 0)) (demo_fleet h ph demo_dropped)"
proof -
  note step = converse_rtranclp_into_rtranclp [where r = "fleet_step demo_src 4 demo_serve demo_ledgers"]
  obtain h1 h2 where on: "demo_emit (demo_hub [demo_flow\<lparr>fl_end := Some demo_end\<rparr>] 3) (Ended 7 [[0]]) h1 (Idle 7)"
    "demo_emit h1 (Idle 7) h2 (InFlow 8 [])" "serve_step demo_serve h2 demo_opened = (h2, demo_dropped)"
    by (rule demo_moves_on)
  show ?thesis
    unfolding fleet_steps_def
    by (rule exI [of _ h2], rule exI [of _ "InFlow 8 []"], rule rtranclp_trans [OF demo_fleet_join [unfolded fleet_steps_def]],
        rule step [OF demo_fleet_source [OF demo_begin]], rule step [OF demo_fleet_serve [OF demo_watch_opened]],
        rule step [OF demo_fleet_source [OF demo_chunk]], rule step [OF demo_fleet_source [OF demo_finish]],
        rule step [OF demo_fleet_source [OF on(1)]], rule step [OF demo_fleet_source [OF on(2)]],
        rule step [OF demo_fleet_serve [OF on(3)]], rule rtranclp.rtrancl_refl)
qed

lemma demo_late_client:
  "cl_yields (client_run one_client seven (map Binary (sb_out demo_late))) = [Ledger [0]]"
  "cl_infos (client_run one_client seven (map Binary (sb_out demo_late))) =
     [\<lparr>li_sequence = 7, li_emit_start = 0, li_emit_end = 0, li_received = 4, li_size = 1, li_chunks = 1, li_discarded = 0\<rparr>]"
proof -
  let ?c0 = "new_client seven"
  let ?c1 = "?c0\<lparr>cl_active := True, cl_seq := 7, cl_emit_start := 0\<rparr>"
  let ?c2 = "?c1\<lparr>cl_buf := [0], cl_chunks := 1, cl_hashed := [0]\<rparr>"
  have "client_feed one_client seven ?c0 (Binary (AppendBegin [] 7 0)) = ?c1"
    by (subst client_feed_fits)
      (simp_all add: client_message_def client_begin_def track_accept_def new_client_def seven_def)
  moreover have "client_feed one_client seven ?c1 (Binary (AppendChunk [] 7 0 CodecRaw [0])) = ?c2"
    by (subst client_feed_fits)
      (simp_all add: client_message_def Decode_AppendChunk client_chunk_def appendChunkPayload_def new_client_def one_client_def)
  moreover have "client_feed one_client seven ?c2 (Binary (AppendEnd [] 7 1 1 0 9)) = client_end one_client seven ?c2
      (zero_message\<lparr>m_type := TypeEnd, m_seq := 7, m_chunk_count := 1, m_total_len := 1, m_emit_end := 0, m_checksum := 9\<rparr>)"
    by (subst client_feed_fits) (simp_all add: client_message_def new_client_def)
  ultimately have "client_run one_client seven (map Binary (sb_out demo_late)) = client_end one_client seven ?c2
      (zero_message\<lparr>m_type := TypeEnd, m_seq := 7, m_chunk_count := 1, m_total_len := 1, m_emit_end := 0, m_checksum := 9\<rparr>)"
    by (simp add: client_run_def demo_late_def)
  then show "cl_yields (client_run one_client seven (map Binary (sb_out demo_late))) = [Ledger [0]]"
    "cl_infos (client_run one_client seven (map Binary (sb_out demo_late))) =
       [\<lparr>li_sequence = 7, li_emit_start = 0, li_emit_end = 0, li_received = 4, li_size = 1, li_chunks = 1, li_discarded = 0\<rparr>]"
    by (simp_all add: client_end_def new_client_def deliver_def Let_def one_client_def seven_def)
qed

end
