(* ===== verification/Flags.thy ===== *)
theory Flags
  imports Prelude
begin

text \<open>
  The command lines of both programs: Go's \<^verbatim>\<open>flag\<close> package as \<^verbatim>\<open>parseFlags\<close> uses it, with the
  numbers of \<^verbatim>\<open>strconv\<close> in base 0 and the durations of \<^verbatim>\<open>time\<close>. A flag is a pointer into the
  options, here a pair of a getter and a setter; a set of flags is a list of names and pointers.

  Ranges are those of a 64-bit machine. A malformed number and one out of range are one failure
  here. The fraction of a duration (\<^verbatim>\<open>1.5s\<close>) is float arithmetic in \<^verbatim>\<open>time\<close>: \<open>frac f unit scale\<close>
  is the number of nanoseconds it makes of \<open>f / scale\<close> units, an argument of the parser.

  The lemmas: the canonical text of a value reads back as the value, for every kind of flag
  (locale \<open>value_text\<close>), so that a command line that names every flag sets every option.
\<close>

section \<open>Integers\<close>

text \<open>\<^verbatim>\<open>lower(c)\<close> of \<^verbatim>\<open>strconv\<close> sets the bit that distinguishes cases of letters.\<close>

definition lower_code :: "char \<Rightarrow> nat" where
  "lower_code c = or (of_char c) 32"

definition base_digit :: "nat \<Rightarrow> char \<Rightarrow> nat option" where
  "base_digit base c =
     (let d = (if is_digit c then digit_val c
               else if 97 \<le> lower_code c \<and> lower_code c \<le> 122 then lower_code c - 87 else base)
      in if d < base then Some d else None)"

fun base_digits :: "nat \<Rightarrow> nat \<Rightarrow> string \<Rightarrow> nat option" where
  "base_digits base acc [] = Some acc"
| "base_digits base acc (c # cs) =
     (if c = CHR ''_'' then base_digits base acc cs
      else case base_digit base c of None \<Rightarrow> None | Some d \<Rightarrow> base_digits base (acc * base + d) cs)"

text \<open>The base a number's prefix chooses, and the digits after it.\<close>

definition number_base :: "string \<Rightarrow> nat \<times> string" where
  "number_base s =
     (if hd s \<noteq> CHR ''0'' then (10, s)
      else if 3 \<le> length s \<and> lower_code (s ! 1) = 98 then (2, drop 2 s)
      else if 3 \<le> length s \<and> lower_code (s ! 1) = 111 then (8, drop 2 s)
      else if 3 \<le> length s \<and> lower_code (s ! 1) = 120 then (16, drop 2 s)
      else (8, drop 1 s))"

text \<open>
  \<^verbatim>\<open>underscoreOK\<close>: an underscore stands between digits, or between a base prefix and a digit.
  What was last seen is nothing, a digit, an underscore or something else.
\<close>

datatype seen = SeenNothing | SeenDigit | SeenUnderscore | SeenOther

fun underscore_loop :: "bool \<Rightarrow> seen \<Rightarrow> string \<Rightarrow> bool" where
  "underscore_loop hex saw [] \<longleftrightarrow> saw \<noteq> SeenUnderscore"
| "underscore_loop hex saw (c # cs) \<longleftrightarrow>
     (if is_digit c \<or> hex \<and> 97 \<le> lower_code c \<and> lower_code c \<le> 102 then underscore_loop hex SeenDigit cs
      else if c = CHR ''_'' then saw = SeenDigit \<and> underscore_loop hex SeenUnderscore cs
      else saw \<noteq> SeenUnderscore \<and> underscore_loop hex SeenOther cs)"

definition underscoreOK :: "string \<Rightarrow> bool" where
  "underscoreOK s =
     (let s = (if s \<noteq> [] \<and> (hd s = CHR ''-'' \<or> hd s = CHR ''+'') then tl s else s) in
      if 2 \<le> length s \<and> hd s = CHR ''0'' \<and> lower_code (s ! 1) \<in> {98, 111, 120}
        then underscore_loop (lower_code (s ! 1) = 120) SeenDigit (drop 2 s)
      else underscore_loop False SeenNothing s)"

definition ParseUint0 :: "string \<Rightarrow> nat option" where
  "ParseUint0 s =
     (if s = [] then None
      else case number_base s of (base, ds) \<Rightarrow>
        (case base_digits base 0 ds of
           None \<Rightarrow> None
         | Some n \<Rightarrow> if n \<ge> 2 ^ 64 \<or> CHR ''_'' \<in> set ds \<and> \<not> underscoreOK s then None else Some n))"

definition unsigned_part :: "string \<Rightarrow> bool \<times> string" where
  "unsigned_part s =
     (if s \<noteq> [] \<and> hd s = CHR ''-'' then (True, tl s)
      else if s \<noteq> [] \<and> hd s = CHR ''+'' then (False, tl s)
      else (False, s))"

definition ParseInt0 :: "string \<Rightarrow> int option" where
  "ParseInt0 s =
     (case unsigned_part s of (neg, u) \<Rightarrow>
        (case ParseUint0 u of
           None \<Rightarrow> None
         | Some n \<Rightarrow> if neg then (if n > 2 ^ 63 then None else Some (- int n))
             else if n \<ge> 2 ^ 63 then None else Some (int n)))"

section \<open>Booleans and durations\<close>

definition ParseBool :: "string \<Rightarrow> bool option" where
  "ParseBool s =
     (if s \<in> {''1'', ''t'', ''T'', ''TRUE'', ''true'', ''True''} then Some True
      else if s \<in> {''0'', ''f'', ''F'', ''FALSE'', ''false'', ''False''} then Some False
      else None)"

text \<open>The fraction stops growing before it overflows; the digits left are skipped.\<close>

fun leading_fraction :: "nat \<Rightarrow> nat \<Rightarrow> string \<Rightarrow> nat \<times> nat \<times> string" where
  "leading_fraction x scale [] = (x, scale, [])"
| "leading_fraction x scale (c # cs) =
     (if \<not> is_digit c then (x, scale, c # cs)
      else if x > (2 ^ 63 - 1) div 10 \<or> x * 10 + digit_val c > 2 ^ 63 then (x, scale, dropWhile is_digit cs)
      else leading_fraction (x * 10 + digit_val c) (scale * 10) cs)"

text \<open>Strings are bytes: the two micro signs are two bytes each.\<close>

definition duration_unit :: "string \<Rightarrow> nat option" where
  "duration_unit = map_of [(''ns'', 1), (''us'', 10 ^ 3), ([CHR 0xC2, CHR 0xB5, CHR ''s''], 10 ^ 3),
     ([CHR 0xCE, CHR 0xBC, CHR ''s''], 10 ^ 3), (''ms'', 10 ^ 6), (''s'', 10 ^ 9), (''m'', 60 * 10 ^ 9), (''h'', 3600 * 10 ^ 9)]"

definition unit_char :: "char \<Rightarrow> bool" where
  "unit_char c \<longleftrightarrow> c \<noteq> CHR ''.'' \<and> \<not> is_digit c"

definition duration_number :: "string \<Rightarrow> (nat \<times> nat \<times> nat \<times> string) option" where
  "duration_number s =
     (let rest = dropWhile is_digit s in
      case parse_digits 0 (takeWhile is_digit s) of
        None \<Rightarrow> None
      | Some v \<Rightarrow>
          if v > 2 ^ 63 then None
          else if rest \<noteq> [] \<and> hd rest = CHR ''.'' then
            (case leading_fraction 0 1 (tl rest) of (f, scale, after) \<Rightarrow>
               if rest = s \<and> after = tl rest then None else Some (v, f, scale, after))
          else if rest = s then None else Some (v, 0, 1, rest))"

definition duration_term :: "(nat \<Rightarrow> nat \<Rightarrow> nat \<Rightarrow> nat) \<Rightarrow> string \<Rightarrow> (nat \<times> string) option" where
  "duration_term frac s =
     (case duration_number s of
        None \<Rightarrow> None
      | Some (v, f, scale, rest) \<Rightarrow>
          (case duration_unit (takeWhile unit_char rest) of
             None \<Rightarrow> None
           | Some u \<Rightarrow>
               if v > 2 ^ 63 div u then None
               else let v = (if f > 0 then (v * u + frac f u scale) mod 2 ^ 64 else v * u) in
                 if f > 0 \<and> v > 2 ^ 63 then None else Some (v, dropWhile unit_char rest)))"

lemma leading_fraction_length: "leading_fraction x scale s = (f, sc, rest) \<Longrightarrow> length rest \<le> length s"
  by (induction x scale s rule: leading_fraction.induct)
    (auto simp: le_Suc_eq length_dropWhile_le split: if_splits intro: le_trans [OF length_dropWhile_le])

lemma duration_number_length: "duration_number s = Some (v, f, scale, rest) \<Longrightarrow> length rest \<le> length s"
  using length_dropWhile_le [of is_digit s]
  by (fastforce simp: duration_number_def Let_def dest: leading_fraction_length split: if_splits option.splits prod.splits)

lemma duration_unit_nonempty: "duration_unit [] = None"
  by (simp add: duration_unit_def)

lemma duration_term_shorter:
  assumes "duration_term frac s = Some (v, rest)"
  shows "length rest < length s"
proof -
  obtain w f scale after where number: "duration_number s = Some (w, f, scale, after)"
    and "duration_unit (takeWhile unit_char after) \<noteq> None" and rest: "rest = dropWhile unit_char after"
    using assms by (auto simp: duration_term_def Let_def split: option.splits if_splits)
  then have "takeWhile unit_char after \<noteq> []"
    using duration_unit_nonempty by auto
  then have "length (dropWhile unit_char after) < length after"
    by (cases after) (auto simp: less_Suc_eq_le length_dropWhile_le split: if_splits)
  with duration_number_length [OF number] rest show ?thesis by simp
qed

function duration_loop :: "(nat \<Rightarrow> nat \<Rightarrow> nat \<Rightarrow> nat) \<Rightarrow> nat \<Rightarrow> string \<Rightarrow> nat option" where
  "duration_loop frac d s =
     (if s = [] then Some d
      else case duration_term frac s of
        None \<Rightarrow> None
      | Some (v, rest) \<Rightarrow> let d = (d + v) mod 2 ^ 64 in if d > 2 ^ 63 then None else duration_loop frac d rest)"
  by pat_completeness auto

termination
  by (relation "measure (\<lambda>(frac, d, s). length s)") (auto dest: duration_term_shorter)

declare duration_loop.simps [simp del]

definition ParseDuration :: "(nat \<Rightarrow> nat \<Rightarrow> nat \<Rightarrow> nat) \<Rightarrow> string \<Rightarrow> int option" where
  "ParseDuration frac s =
     (case unsigned_part s of (neg, u) \<Rightarrow>
        if u = ''0'' then Some 0
        else if u = [] then None
        else (case duration_loop frac 0 u of
           None \<Rightarrow> None
         | Some d \<Rightarrow> if neg then Some (- int d) else if d > 2 ^ 63 - 1 then None else Some (int d)))"

section \<open>A set of flags\<close>

text \<open>The pointer of each \<^verbatim>\<open>fs.XVar(&o.x, name, ...)\<close>.\<close>

datatype 'o flag_var =
    StringVar "'o \<Rightarrow> string" "string \<Rightarrow> 'o \<Rightarrow> 'o"
  | IntVar "'o \<Rightarrow> int" "int \<Rightarrow> 'o \<Rightarrow> 'o"
  | UintVar "'o \<Rightarrow> u64" "u64 \<Rightarrow> 'o \<Rightarrow> 'o"
  | BoolVar "'o \<Rightarrow> bool" "bool \<Rightarrow> 'o \<Rightarrow> 'o"
  | DurationVar "'o \<Rightarrow> int" "int \<Rightarrow> 'o \<Rightarrow> 'o"

type_synonym 'o flag_set = "(string \<times> 'o flag_var) list"

definition set_var :: "(nat \<Rightarrow> nat \<Rightarrow> nat \<Rightarrow> nat) \<Rightarrow> 'o flag_var \<Rightarrow> string \<Rightarrow> 'o \<Rightarrow> 'o option" where
  "set_var frac var s opt =
     (case var of
        StringVar _ put \<Rightarrow> Some (put s opt)
      | IntVar _ put \<Rightarrow> map_option (\<lambda>v. put v opt) (ParseInt0 s)
      | UintVar _ put \<Rightarrow> map_option (\<lambda>n. put (word_of_nat n) opt) (ParseUint0 s)
      | BoolVar _ put \<Rightarrow> map_option (\<lambda>b. put b opt) (ParseBool s)
      | DurationVar _ put \<Rightarrow> map_option (\<lambda>d. put d opt) (ParseDuration frac s))"

fun is_bool_var :: "'o flag_var \<Rightarrow> bool" where
  "is_bool_var (BoolVar _ _) = True"
| "is_bool_var _ = False"

datatype flag_failure =
    HelpRequested
  | FlagSyntax string
  | FlagUndefined string
  | FlagNeedsArgument string
  | FlagBadValue string string

text \<open>A flag's name and, if there is an \<^verbatim>\<open>=\<close> after its first character, the value behind it.\<close>

definition split_flag :: "string \<Rightarrow> string \<times> string option" where
  "split_flag s =
     (case dropWhile (\<lambda>c. c \<noteq> CHR ''='') (tl s) of
        [] \<Rightarrow> (s, None)
      | _ # val \<Rightarrow> (hd s # takeWhile (\<lambda>c. c \<noteq> CHR ''='') (tl s), Some val))"

definition assign :: "(nat \<Rightarrow> nat \<Rightarrow> nat \<Rightarrow> nat) \<Rightarrow> string \<Rightarrow> 'o flag_var \<Rightarrow> string \<Rightarrow> 'o \<Rightarrow> string list
    \<Rightarrow> flag_failure + bool \<times> 'o \<times> string list" where
  "assign frac name var val opt rest =
     (case set_var frac var val opt of
        None \<Rightarrow> Inl (FlagBadValue val name)
      | Some opt \<Rightarrow> Inr (True, opt, rest))"

text \<open>\<^verbatim>\<open>FlagSet.parseOne\<close>: whether a flag was read, the options, and the arguments left.\<close>

definition parseOne :: "(nat \<Rightarrow> nat \<Rightarrow> nat \<Rightarrow> nat) \<Rightarrow> 'o flag_set \<Rightarrow> 'o \<Rightarrow> string list
    \<Rightarrow> flag_failure + bool \<times> 'o \<times> string list" where
  "parseOne frac flags opt args =
     (case args of
        [] \<Rightarrow> Inr (False, opt, [])
      | s # rest \<Rightarrow>
          if length s < 2 \<or> hd s \<noteq> CHR ''-'' then Inr (False, opt, args)
          else if s = ''--'' then Inr (False, opt, rest)
          else let name = (if s ! 1 = CHR ''-'' then drop 2 s else drop 1 s) in
            if hd name = CHR ''-'' \<or> hd name = CHR ''='' then Inl (FlagSyntax s)
            else (case split_flag name of (name, given) \<Rightarrow>
              (case map_of flags name of
                 None \<Rightarrow> Inl (if name \<in> {''help'', ''h''} then HelpRequested else FlagUndefined name)
               | Some var \<Rightarrow>
                   (case given of
                      Some val \<Rightarrow> assign frac name var val opt rest
                    | None \<Rightarrow>
                        if is_bool_var var then assign frac name var ''true'' opt rest
                        else (case rest of
                            [] \<Rightarrow> Inl (FlagNeedsArgument name)
                          | val # rest \<Rightarrow> assign frac name var val opt rest)))))"

lemma parseOne_consumes: "parseOne frac flags opt args = Inr (True, opt', rest) \<Longrightarrow> length rest < length args"
  by (auto simp: parseOne_def assign_def Let_def split: list.splits if_splits option.splits prod.splits)

text \<open>\<^verbatim>\<open>FlagSet.Parse\<close>: the options set, and the arguments that are not flags.\<close>

function ParseArgs :: "(nat \<Rightarrow> nat \<Rightarrow> nat \<Rightarrow> nat) \<Rightarrow> 'o flag_set \<Rightarrow> 'o \<Rightarrow> string list
    \<Rightarrow> flag_failure + 'o \<times> string list" where
  "ParseArgs frac flags opt args =
     (case parseOne frac flags opt args of
        Inl e \<Rightarrow> Inl e
      | Inr (seen, opt, rest) \<Rightarrow> if seen then ParseArgs frac flags opt rest else Inr (opt, rest))"
  by pat_completeness auto

termination
  by (relation "measure (\<lambda>(frac, flags, opt, args). length args)") (auto dest: parseOne_consumes)

declare ParseArgs.simps [simp del]

section \<open>Canonical texts\<close>

text \<open>
  What a kind of value relies on: a text of its own that reads back. Interpreted for each kind
  of flag.
\<close>

locale value_text =
  fixes render :: "'v \<Rightarrow> string" and read :: "string \<Rightarrow> 'v option" and fits :: "'v \<Rightarrow> bool"
  assumes read_render: "fits v \<Longrightarrow> read (render v) = Some v"
begin

lemma render_inject: "fits v \<Longrightarrow> fits w \<Longrightarrow> render v = render w \<Longrightarrow> v = w"
  by (metis option.inject read_render)

lemma setting: "fits v \<Longrightarrow> map_option (\<lambda>v. put v opt) (read (render v)) = Some (put v opt)"
  by (simp add: read_render)

end

lemma digit_char_zero: "digit_char 0 = CHR ''0''"
  by (simp add: digit_char_def char_of_eq_iff)

lemma format_uint_hd: "0 < n \<Longrightarrow> hd (format_uint n) \<noteq> CHR ''0''"
proof (induction n rule: format_uint.induct)
  case (1 n)
  show ?case
  proof (cases "n < 10")
    case True
    then have "digit_val (hd (format_uint n)) = n" by (simp add: format_uint.simps [of n])
    with 1(2) show ?thesis by (auto simp: digit_val_def)
  next
    case False
    with 1(1) show ?thesis by (simp add: format_uint.simps [of n])
  qed
qed

lemma digit_not: "is_digit c \<Longrightarrow> c \<noteq> CHR ''_''" "is_digit c \<Longrightarrow> c \<noteq> CHR ''-''" "is_digit c \<Longrightarrow> c \<noteq> CHR ''+''"
  by (auto simp: is_digit_def)

lemma base_digits_decimal: "\<forall>c \<in> set s. is_digit c \<Longrightarrow> base_digits 10 acc s = parse_digits acc s"
proof (induction s arbitrary: acc)
  case (Cons c s)
  then have "digit_val c < 10" by (auto simp: is_digit_def digit_val_def)
  with Cons digit_not(1) [of c] show ?case by (simp add: base_digit_def)
qed simp

lemma ParseUint0_format: "n < 2 ^ 64 \<Longrightarrow> ParseUint0 (format_uint n) = Some n"
proof (cases "n = 0")
  case True
  then show ?thesis
    by (simp add: ParseUint0_def number_base_def format_uint.simps [of 0] digit_char_zero)
next
  case False
  assume "n < 2 ^ 64"
  moreover have "number_base (format_uint n) = (10, format_uint n)"
    using format_uint_hd [of n] False by (simp add: number_base_def)
  moreover have "CHR ''_'' \<notin> set (format_uint n)"
    using format_uint_digits [of n] digit_not(1) by blast
  ultimately show ?thesis
    by (simp add: ParseUint0_def base_digits_decimal [OF format_uint_digits] parse_digits_format)
qed

lemma unsigned_format: "unsigned_part (format_uint n @ s) = (False, format_uint n @ s)"
proof -
  have "is_digit (hd (format_uint n @ s))"
    using format_uint_digits [of n] by (simp add: hd_append)
  from digit_not(2,3) [OF this] show ?thesis by (simp add: unsigned_part_def)
qed

lemma unsigned_format_int:
  "unsigned_part (format_int i @ s) = (i < 0, format_uint (nat \<bar>i\<bar>) @ s)"
  by (simp add: format_int_def unsigned_format) (simp add: unsigned_part_def)

lemma ParseInt0_format: "- (2 ^ 63) \<le> i \<Longrightarrow> i < 2 ^ 63 \<Longrightarrow> ParseInt0 (format_int i) = Some i"
  using unsigned_format_int [of i "[]"] ParseUint0_format [of "nat \<bar>i\<bar>"]
  by (auto simp: ParseInt0_def nat_less_iff)

lemma duration_nanoseconds:
  assumes "n \<le> 2 ^ 63"
  shows "duration_loop frac 0 (format_uint n @ ''ns'') = Some n"
proof -
  have "takeWhile is_digit (format_uint n @ ''ns'') = format_uint n" "dropWhile is_digit (format_uint n @ ''ns'') = ''ns''"
    using format_uint_digits [of n] by (simp_all add: takeWhile_append2 dropWhile_append2 is_digit_def)
  then have "duration_number (format_uint n @ ''ns'') = Some (n, 0, 1, ''ns'')"
    using assms by (simp add: duration_number_def parse_digits_format)
  moreover have "takeWhile unit_char ''ns'' = ''ns''" "dropWhile unit_char ''ns'' = []"
    by (simp_all add: unit_char_def is_digit_def)
  ultimately have "duration_term frac (format_uint n @ ''ns'') = Some (n, [])"
    using assms by (simp add: duration_term_def duration_unit_def)
  moreover have "duration_loop frac n [] = Some n"
    by (simp add: duration_loop.simps)
  ultimately show ?thesis
    using assms by (simp add: duration_loop.simps [of frac 0])
qed

definition duration_text :: "int \<Rightarrow> string" where
  "duration_text d = format_int d @ ''ns''"

lemma ParseDuration_text: "- (2 ^ 63) \<le> d \<Longrightarrow> d < 2 ^ 63 \<Longrightarrow> ParseDuration frac (duration_text d) = Some d"
  using duration_nanoseconds [of "nat \<bar>d\<bar>" frac] unsigned_format_int [of d "''ns''"]
  by (auto simp: ParseDuration_def duration_text_def nat_le_iff append_eq_Cons_conv)

definition fits_int :: "int \<Rightarrow> bool" where
  "fits_int i \<longleftrightarrow> - (2 ^ 63) \<le> i \<and> i < 2 ^ 63"

definition bool_text :: "bool \<Rightarrow> string" where
  "bool_text b = (if b then ''true'' else ''false'')"

interpretation string_flag: value_text "\<lambda>s. s" Some "\<lambda>_. True"
  by unfold_locales simp

interpretation int_flag: value_text format_int ParseInt0 fits_int
  by unfold_locales (simp add: fits_int_def ParseInt0_format)

interpretation uint_flag: value_text "\<lambda>w :: u64. format_uint (unat w)" "\<lambda>s. map_option word_of_nat (ParseUint0 s)" "\<lambda>_. True"
  by unfold_locales (simp add: ParseUint0_format [OF order_less_le_trans [OF unsigned_less]])

interpretation bool_flag: value_text bool_text ParseBool "\<lambda>_. True"
  by unfold_locales (simp add: bool_text_def ParseBool_def)

interpretation duration_flag: value_text duration_text "ParseDuration frac" fits_int for frac
  by unfold_locales (simp add: fits_int_def ParseDuration_text)

section \<open>Naming every flag\<close>

definition var_text :: "'o flag_var \<Rightarrow> 'o \<Rightarrow> string" where
  "var_text var opt =
     (case var of
        StringVar get _ \<Rightarrow> get opt
      | IntVar get _ \<Rightarrow> format_int (get opt)
      | UintVar get _ \<Rightarrow> format_uint (unat (get opt))
      | BoolVar get _ \<Rightarrow> bool_text (get opt)
      | DurationVar get _ \<Rightarrow> duration_text (get opt))"

definition var_fits :: "'o flag_var \<Rightarrow> 'o \<Rightarrow> bool" where
  "var_fits var opt =
     (case var of IntVar get _ \<Rightarrow> fits_int (get opt) | DurationVar get _ \<Rightarrow> fits_int (get opt) | _ \<Rightarrow> True)"

text \<open>The pointer's target taken from other options.\<close>

definition copy_var :: "'o \<Rightarrow> 'o flag_var \<Rightarrow> 'o \<Rightarrow> 'o" where
  "copy_var from_opt var opt =
     (case var of
        StringVar get put \<Rightarrow> put (get from_opt) opt
      | IntVar get put \<Rightarrow> put (get from_opt) opt
      | UintVar get put \<Rightarrow> put (get from_opt) opt
      | BoolVar get put \<Rightarrow> put (get from_opt) opt
      | DurationVar get put \<Rightarrow> put (get from_opt) opt)"

definition flag_argument :: "'o \<Rightarrow> string \<times> 'o flag_var \<Rightarrow> string" where
  "flag_argument opt = (\<lambda>(name, var). ''--'' @ name @ ''='' @ var_text var opt)"

definition plain_name :: "string \<Rightarrow> bool" where
  "plain_name name \<longleftrightarrow> name \<noteq> [] \<and> CHR ''='' \<notin> set name \<and> hd name \<noteq> CHR ''-''"

lemma set_var_text:
  assumes "var_fits var from_opt"
  shows "set_var frac var (var_text var from_opt) opt = Some (copy_var from_opt var opt)"
proof (cases var)
  case (UintVar get put)
  with uint_flag.setting [where v = "get from_opt" and put = put and opt = opt] show ?thesis
    by (simp add: set_var_def var_text_def copy_var_def option.map_comp comp_def)
qed (use assms in \<open>simp_all add: set_var_def var_text_def copy_var_def var_fits_def int_flag.setting bool_flag.setting
      duration_flag.setting\<close>)

lemma split_flag_plain: "plain_name name \<Longrightarrow> split_flag (name @ ''='' @ val) = (name, Some val)"
proof (cases name)
  case (Cons c cs)
  assume "plain_name name"
  with Cons have "\<forall>x \<in> set cs. x \<noteq> CHR ''=''" by (auto simp: plain_name_def)
  with Cons show ?thesis
    by (simp add: split_flag_def dropWhile_append2 takeWhile_append2)
qed (simp add: plain_name_def)

lemma parseOne_named:
  assumes "map_of flags name = Some var" "plain_name name" "var_fits var from_opt"
  shows "parseOne frac flags opt (flag_argument from_opt (name, var) # rest) = Inr (True, copy_var from_opt var opt, rest)"
proof -
  from assms(2) obtain c cs where name: "name = c # cs" "c \<noteq> CHR ''-''" "c \<noteq> CHR ''=''"
    by (cases name) (auto simp: plain_name_def)
  with split_flag_plain [OF assms(2), of "var_text var from_opt"] assms(1) set_var_text [OF assms(3), of frac opt] show ?thesis
    by (simp add: parseOne_def flag_argument_def assign_def Let_def)
qed

lemma ParseArgs_all_named:
  assumes "\<forall>(name, var) \<in> set entries. map_of flags name = Some var \<and> plain_name name \<and> var_fits var from_opt"
  shows "ParseArgs frac flags opt (map (flag_argument from_opt) entries @ rest) =
    ParseArgs frac flags (fold (\<lambda>(_, var). copy_var from_opt var) entries opt) rest"
  using assms
proof (induction entries arbitrary: opt)
  case (Cons entry entries)
  obtain name var where entry: "entry = (name, var)" by (cases entry)
  with Cons.prems have "map_of flags name = Some var" "plain_name name" "var_fits var from_opt" by auto
  from parseOne_named [OF this] Cons show ?case
    by (simp add: ParseArgs.simps [of frac flags opt "_ # _"] entry)
qed simp

lemma ParseArgs_nil [simp]: "ParseArgs frac flags opt [] = Inr (opt, [])"
  by (simp add: ParseArgs.simps parseOne_def)

text \<open>The other ways an argument list can end.\<close>

lemma ParseArgs_positional: "length s < 2 \<or> hd s \<noteq> CHR ''-'' \<Longrightarrow> ParseArgs frac flags opt (s # rest) = Inr (opt, s # rest)"
  by (simp add: ParseArgs.simps parseOne_def)

lemma ParseArgs_dashes: "ParseArgs frac flags opt (''--'' # rest) = Inr (opt, rest)"
  by (simp add: ParseArgs.simps parseOne_def)

end
