(* ===== verification/Captive.thy ===== *)
theory Captive
  imports Prelude
begin

text \<open>
  \<^verbatim>\<open>internal/server/captive.go\<close>: how a captive core is configured. The toml library, the
  executable search, the file system and the SDK's stream are arguments; the scan for the
  network passphrase is the program's own and is modelled on the bytes of the file. Go's
  \<^verbatim>\<open>strings.TrimSpace\<close> is written for ASCII white space.

  The lemmas: the scan returns the passphrase of a configuration of the form it documents.
\<close>

section \<open>Strings\<close>

definition is_space :: "char \<Rightarrow> bool" where
  "is_space c \<longleftrightarrow> c \<in> {CHR 0x09, CHR 0x0A, CHR 0x0B, CHR 0x0C, CHR 0x0D, CHR 0x20}"

definition trim_space :: "string \<Rightarrow> string" where
  "trim_space s = rev (dropWhile is_space (rev (dropWhile is_space s)))"

text \<open>\<^verbatim>\<open>strings.Lines\<close>: every line with its newline.\<close>

function lines_of :: "string \<Rightarrow> string list" where
  "lines_of s =
     (if s = [] then []
      else case dropWhile (\<lambda>c. c \<noteq> CHR 0x0A) s of
             [] \<Rightarrow> [s]
           | nl # rest \<Rightarrow> (takeWhile (\<lambda>c. c \<noteq> CHR 0x0A) s @ [nl]) # lines_of rest)"
  by pat_completeness auto

termination lines_of
proof (relation "measure length")
  fix s :: string and nl rest
  assume "dropWhile (\<lambda>c. c \<noteq> CHR 0x0A) s = nl # rest"
  with length_dropWhile_le [of "\<lambda>c. c \<noteq> CHR 0x0A" s] show "(rest, s) \<in> measure length"
    by simp
qed simp

declare lines_of.simps [simp del]

text \<open>\<^verbatim>\<open>strings.Cut(line, "=")\<close>.\<close>

definition cut_at :: "char \<Rightarrow> string \<Rightarrow> string \<times> string \<times> bool" where
  "cut_at sep s =
     (if sep \<in> set s then (takeWhile (\<lambda>c. c \<noteq> sep) s, tl (dropWhile (\<lambda>c. c \<noteq> sep) s), True)
      else (s, [], False))"

section \<open>The passphrase of a configuration\<close>

definition unquoteTomlString :: "string \<Rightarrow> string option" where
  "unquoteTomlString s =
     (if length s < 2 then None
      else
        let quote = hd s in
        if quote \<noteq> CHR 0x22 \<and> quote \<noteq> CHR 0x27 then None
        else if quote \<notin> set (tl s) then None
        else Some (takeWhile (\<lambda>c. c \<noteq> quote) (tl s)))"

datatype peek_error = NotQuoted | NotDefined

definition passphrase_key :: string where "passphrase_key = ''NETWORK_PASSPHRASE''"

fun peek_lines :: "string list \<Rightarrow> peek_error + string" where
  "peek_lines [] = Inl NotDefined"
| "peek_lines (l # ls) =
     (let line = trim_space l in
      if line = [] \<or> hd line = CHR ''#'' then peek_lines ls
      else if hd line = CHR ''['' then Inl NotDefined
      else case cut_at (CHR ''='') line of (name, val, found) \<Rightarrow>
        if \<not> found \<or> trim_space name \<noteq> passphrase_key then peek_lines ls
        else (case unquoteTomlString (trim_space val) of
                None \<Rightarrow> Inl NotQuoted
              | Some p \<Rightarrow> Inr p))"

definition peekNetworkPassphrase :: "string \<Rightarrow> peek_error + string" where
  "peekNetworkPassphrase text_data = peek_lines (lines_of text_data)"

section \<open>Building the source\<close>

record captive_config =
  ca_binary :: string
  ca_config :: string
  ca_storage :: string
  ca_urls :: "string list"
  ca_passphrase :: string
  ca_agent :: string

text \<open>
  The answers of the outside: the configuration file's bytes, \<^verbatim>\<open>exec.LookPath\<close>, \<^verbatim>\<open>os.MkdirAll\<close>,
  \<^verbatim>\<open>filepath.Abs\<close>, and whether the SDK accepts the file under a passphrase, archives and binary.
\<close>

record captive_env =
  ce_file :: "string \<Rightarrow> string option"
  ce_core_path :: "string option"
  ce_mkdir :: "string \<Rightarrow> bool"
  ce_abs :: "string \<Rightarrow> string option"
  ce_toml :: "string \<Rightarrow> string \<Rightarrow> string list \<Rightarrow> string \<Rightarrow> bool"

datatype captive_error =
    ConfigPathRequired
  | StoragePathRequired
  | ArchiveRequired
  | ConfigUnreadable
  | Passphrase peek_error
  | CoreNotFound
  | StorageFailed
  | ConfigInvalid

record captive_core =
  co_binary :: string
  co_storage :: string
  co_passphrase :: string
  co_urls :: "string list"
  co_agent :: string

definition DefaultCaptiveUserAgent :: string where
  "DefaultCaptiveUserAgent = ''remote-core-poc''"

definition captive_passphrase :: "captive_config \<Rightarrow> string \<Rightarrow> peek_error + string" where
  "captive_passphrase cfg text_data =
     (if ca_passphrase cfg = [] then peekNetworkPassphrase text_data else Inr (ca_passphrase cfg))"

definition NewCaptiveSource :: "captive_env \<Rightarrow> captive_config \<Rightarrow> captive_error + captive_core" where
  "NewCaptiveSource env cfg =
     (if ca_config cfg = [] then Inl ConfigPathRequired
      else if ca_storage cfg = [] then Inl StoragePathRequired
      else if ca_urls cfg = [] then Inl ArchiveRequired
      else case ce_file env (ca_config cfg) of
        None \<Rightarrow> Inl ConfigUnreadable
      | Some text_data \<Rightarrow>
          (case captive_passphrase cfg text_data of
             Inl e \<Rightarrow> Inl (Passphrase e)
           | Inr passphrase \<Rightarrow>
               (case (if ca_binary cfg = [] then ce_core_path env else Some (ca_binary cfg)) of
                  None \<Rightarrow> Inl CoreNotFound
                | Some binary \<Rightarrow>
                    if \<not> ce_mkdir env (ca_storage cfg) then Inl StorageFailed
                    else (case ce_abs env (ca_storage cfg) of
                            None \<Rightarrow> Inl StorageFailed
                          | Some storage \<Rightarrow>
                              let agent = (if ca_agent cfg = [] then DefaultCaptiveUserAgent else ca_agent cfg) in
                              if \<not> ce_toml env text_data passphrase (ca_urls cfg) binary then Inl ConfigInvalid
                              else Inr \<lparr>co_binary = binary, co_storage = storage, co_passphrase = passphrase,
                                        co_urls = ca_urls cfg, co_agent = agent\<rparr>))))"

section \<open>What the scan finds\<close>

lemma lines_of_line:
  "CHR 0x0A \<notin> set l \<Longrightarrow> lines_of (l @ CHR 0x0A # rest) = (l @ [CHR 0x0A]) # lines_of rest"
  by (subst lines_of.simps) (simp add: dropWhile_append takeWhile_append takeWhile_eq_all_conv)

lemma lines_of_concat:
  "\<forall>l \<in> set ls. CHR 0x0A \<notin> set l \<Longrightarrow>
     lines_of (concat (map (\<lambda>l. l @ [CHR 0x0A]) ls) @ rest) = map (\<lambda>l. l @ [CHR 0x0A]) ls @ lines_of rest"
  by (induction ls) (simp_all add: lines_of_line)

lemma trim_space_id: "s \<noteq> [] \<Longrightarrow> \<not> is_space (hd s) \<Longrightarrow> \<not> is_space (last s) \<Longrightarrow> trim_space s = s"
  by (simp add: trim_space_def dropWhile_eq_self_iff [THEN iffD2] hd_rev)

lemma trim_space_right: "is_space c \<Longrightarrow> trim_space (s @ [c]) = trim_space s"
proof (cases "\<forall>x \<in> set s. is_space x")
  case True
  moreover assume "is_space c"
  ultimately show ?thesis
    by (simp add: trim_space_def dropWhile_append2 dropWhile_eq_Nil_conv [THEN iffD2] dropWhile_append)
next
  case False
  moreover assume "is_space c"
  ultimately show ?thesis
    by (auto simp: trim_space_def dropWhile_append)
qed

lemma trim_space_left: "is_space c \<Longrightarrow> trim_space (c # s) = trim_space s"
  by (simp add: trim_space_def)

text \<open>A line the scan passes over: blank, a comment, or not an assignment of the key.\<close>

definition passed_over :: "string \<Rightarrow> bool" where
  "passed_over l \<longleftrightarrow> (let line = trim_space l in
     line = [] \<or> hd line = CHR ''#'' \<or>
     (hd line \<noteq> CHR ''['' \<and>
      (case cut_at (CHR ''='') line of (name, val, found) \<Rightarrow> \<not> found \<or> trim_space name \<noteq> passphrase_key)))"

lemma peek_passed_over: "\<forall>l \<in> set ls. passed_over l \<Longrightarrow> peek_lines (ls @ rest) = peek_lines rest"
  by (induction ls) (auto simp: passed_over_def Let_def split: prod.splits)

section \<open>Properties\<close>

definition passphrase_line :: "string \<Rightarrow> string" where
  "passphrase_line p = passphrase_key @ '' = '' @ [CHR 0x22] @ p @ [CHR 0x22]"

lemma takeWhile_to: "x \<notin> set xs \<Longrightarrow> takeWhile (\<lambda>c. c \<noteq> x) (xs @ x # ys) = xs"
  by (induction xs) auto

lemma cut_at_first: "sep \<notin> set a \<Longrightarrow> cut_at sep (a @ sep # b) = (a, b, True)"
  by (auto simp: cut_at_def takeWhile_to dropWhile_append)

lemma peek_passphrase_line:
  assumes "CHR 0x22 \<notin> set p"
  shows "peek_lines ((passphrase_line p @ [CHR 0x0A]) # ls) = Inr p"
proof -
  let ?q = "[CHR 0x22] @ p @ [CHR 0x22]"
  have "is_space (CHR 0x0A)" "is_space (CHR '' '')"
    by (simp_all add: is_space_def)
  note space = trim_space_right [OF this(1)] trim_space_right [OF this(2)] trim_space_left [OF this(2)]
  have ends: "\<not> is_space (hd passphrase_key)" "\<not> is_space (last passphrase_key)" "passphrase_key \<noteq> []"
      "\<not> is_space (CHR 0x22)" "CHR ''='' \<notin> set (passphrase_key @ '' '')"
    by (simp_all add: passphrase_key_def is_space_def)
  have "trim_space (passphrase_line p) = passphrase_line p"
    using ends by (intro trim_space_id) (simp_all add: passphrase_line_def)
  then have line: "trim_space (passphrase_line p @ [CHR 0x0A]) = passphrase_line p"
    by (simp add: space)
  have "passphrase_line p = (passphrase_key @ '' '') @ CHR ''='' # '' '' @ ?q"
    by (simp add: passphrase_line_def)
  then have cut: "cut_at (CHR ''='') (passphrase_line p) = (passphrase_key @ '' '', '' '' @ ?q, True)"
    by (simp only: cut_at_first [OF ends(5)])
  have key: "trim_space (passphrase_key @ '' '') = passphrase_key"
    using ends by (simp add: space trim_space_id)
  have "trim_space ?q = ?q"
    using ends by (intro trim_space_id) simp_all
  then have val: "trim_space ('' '' @ ?q) = ?q"
    by (simp add: space)
  have "unquoteTomlString ?q = Some p"
    using takeWhile_to [OF assms, of "[]"] by (simp add: unquoteTomlString_def Let_def)
  with line cut key val show ?thesis
    by (simp add: Let_def passphrase_line_def passphrase_key_def)
qed

text \<open>
  The passphrase of a configuration is found. In a file whose top-level part has
  \<open>NETWORK_PASSPHRASE = "p"\<close> on a line of its own after any lines that are blank, comments or
  other keys, the scan returns \<open>p\<close>, whatever follows; and where a table comes first it finds
  none.
\<close>

theorem peek_finds_passphrase:
  assumes "\<forall>l \<in> set ls. CHR 0x0A \<notin> set l \<and> passed_over (l @ [CHR 0x0A])" "CHR 0x22 \<notin> set p" "CHR 0x0A \<notin> set p"
    and "CHR 0x0A \<notin> set tab" "trim_space (tab @ [CHR 0x0A]) = tab" "tab \<noteq> []" "hd tab = CHR ''[''"
  shows "peekNetworkPassphrase (concat (map (\<lambda>l. l @ [CHR 0x0A]) ls) @ passphrase_line p @ CHR 0x0A # rest) = Inr p \<and>
    peekNetworkPassphrase (concat (map (\<lambda>l. l @ [CHR 0x0A]) ls) @ tab @ CHR 0x0A # rest) = Inl NotDefined"
proof -
  have lines: "lines_of (concat (map (\<lambda>l. l @ [CHR 0x0A]) ls) @ l @ CHR 0x0A # rest)
      = map (\<lambda>l. l @ [CHR 0x0A]) ls @ (l @ [CHR 0x0A]) # lines_of rest" if "CHR 0x0A \<notin> set l" for l
    using assms(1) that by (simp add: lines_of_concat lines_of_line)
  have over: "\<forall>l \<in> set (map (\<lambda>l. l @ [CHR 0x0A]) ls). passed_over l"
    using assms(1) by auto
  have "CHR 0x0A \<notin> set (passphrase_line p)"
    using assms(3) by (auto simp: passphrase_line_def passphrase_key_def)
  from lines [OF this] lines [OF assms(4)] show ?thesis
    using assms(5-7)
    by (simp only: peekNetworkPassphrase_def peek_passed_over [OF over] peek_passphrase_line [OF assms(2)])
      (simp add: Let_def)
qed

theorem peek_finds_passphrase_witness:
  "peekNetworkPassphrase (''# core'' @ CHR 0x0A # passphrase_line ''net'' @ CHR 0x0A # ''[X]'') = Inr ''net''"
proof -
  have "trim_space (''[X]'' @ [CHR 0x0A]) = ''[X]''" "passed_over (''# core'' @ [CHR 0x0A])"
    by (simp_all add: trim_space_def is_space_def passed_over_def)
  with peek_finds_passphrase [of "[''# core'']" "''net''" "''[X]''" "''[X]''"] show ?thesis
    by simp
qed

end
