(* ===== verification/Ranges.thy ===== *)
theory Ranges
  imports Prelude
begin

text \<open>
  Ledger ranges as the sources walk them: \<^verbatim>\<open>CountedRange\<close> of \<^verbatim>\<open>internal/server/synthetic.go\<close>,
  and how many ledgers a loop over a range has. Sequences are 32-bit and wrap.
\<close>

definition CountedRange :: "u32 \<Rightarrow> u32 \<Rightarrow> ledger_range" where
  "CountedRange start count =
     (if count = 0 then \<lparr>rg_from = start, rg_to = 0, rg_bounded = False\<rparr>
      else \<lparr>rg_from = start, rg_to = start + count - 1, rg_bounded = True\<rparr>)"

text \<open>How many ledgers a consumer of \<open>n\<close> pulls gets out of a range, from sequence \<open>sq\<close> on.\<close>

definition range_pulls :: "ledger_range \<Rightarrow> u32 \<Rightarrow> nat \<Rightarrow> nat" where
  "range_pulls rng sq n = (if rg_bounded rng then min n (unat (rg_to rng - sq) + 1) else n)"

lemma range_pulls_step:
  "range_pulls rng sq (Suc n) = (if rg_bounded rng \<and> sq = rg_to rng then 1 else Suc (range_pulls rng (sq + 1) n))"
proof (cases "rg_bounded rng \<and> sq \<noteq> rg_to rng")
  case True
  then have "rg_to rng - sq \<noteq> 0" by auto
  then have "unat (rg_to rng - sq) = Suc (unat (rg_to rng - (sq + 1)))"
    using unat_minus_one [of "rg_to rng - sq"] unat_gt_0 [of "rg_to rng - sq"] by (simp add: diff_diff_eq)
  with True show ?thesis by (simp add: range_pulls_def)
qed (auto simp: range_pulls_def)

text \<open>A counted range has as many ledgers as it says, even if its sequences wrapped.\<close>

lemma range_pulls_counted:
  "range_pulls (CountedRange start count) start n = (if count = 0 then n else min n (unat count))"
  using unat_gt_0 [of count] by (auto simp: range_pulls_def CountedRange_def unat_minus_one)

lemma CountedRange_fields [simp]:
  "rg_from (CountedRange start count) = start" "rg_bounded (CountedRange start count) \<longleftrightarrow> count \<noteq> 0"
  by (simp_all add: CountedRange_def)

lemma counted_range_order:
  assumes "count \<noteq> 0" "unat start + unat count \<le> 2 ^ 32"
  shows "unat (rg_to (CountedRange start count)) = unat start + unat count - 1"
    and "start \<le> rg_to (CountedRange start count)"
proof -
  have c: "unat (count - 1) = unat count - 1" "0 < unat count"
    using assms(1) by (simp_all add: unat_minus_one unat_gt_0)
  have "unat (start + (count - 1)) = unat start + (unat count - 1)"
    using assms(2) c by (subst unat_add_lem [THEN iffD1]) auto
  then show "unat (rg_to (CountedRange start count)) = unat start + unat count - 1"
    using assms(1) c(2) by (simp add: CountedRange_def add_diff_eq)
  with c(2) show "start \<le> rg_to (CountedRange start count)"
    by (simp add: word_le_nat_alt)
qed

end
