(* ===== verification/File_Source.thy ===== *)
theory File_Source
  imports Emit Store_Ring Wire Ranges
begin

text \<open>
  \<^verbatim>\<open>internal/server/filesource.go\<close>: the replay of a dump directory. The records of the dump
  are emitted in the order of their sequences, renumbered from the start of the requested
  range, and cycled when the range outruns the dump. All reads go through one reused buffer,
  kept here as its backing array, so what a record yields is shown not to depend on what the
  buffer held. The loop may be endless: it is run for as many pulls as its consumer makes.

  The lemmas: what the pulls yield over a dump that is there, and that the directory of a
  retention ring is such a dump.
\<close>

section \<open>Opening a dump\<close>

datatype file_error = ScanFailed store_error | NoLedgerFiles string

definition NewFileStream :: "string \<Rightarrow> disk \<Rightarrow> (file_error + path list) \<times> disk" where
  "NewFileStream dr d =
     (case ScanLedgerDir dr d of
        (Inl e, d') \<Rightarrow> (Inl (ScanFailed e), d')
      | (Inr seqs, d') \<Rightarrow>
          if seqs = [] then (Inl (NoLedgerFiles dr), d')
          else (Inr (map (\<lambda>q. (dr, LedgerFileName q)) seqs), d'))"

definition Ledgers :: "path list \<Rightarrow> nat" where
  "Ledgers fs = length fs"

section \<open>Reading a record\<close>

text \<open>
  \<^verbatim>\<open>os.Open\<close>, \<^verbatim>\<open>File.Stat\<close> and \<^verbatim>\<open>io.ReadFull\<close> on the opened file. A directory, which Go opens
  and then fails to read, fails at the open here.
\<close>

definition os_open :: "path \<Rightarrow> disk \<Rightarrow> os_error option \<times> disk" where
  "os_open p d =
     (case next_fault d of
        Fine \<Rightarrow> (case map_of (files d) p of
                   None \<Rightarrow> (Some NotExist, tick d)
                 | Some SubDir \<Rightarrow> (Some OsFailure, tick d)
                 | Some (RegFile _) \<Rightarrow> (None, tick d))
      | Fails _ \<Rightarrow> (Some OsFailure, tick d))"

definition os_stat_size :: "path \<Rightarrow> disk \<Rightarrow> (os_error + nat) \<times> disk" where
  "os_stat_size p d =
     (case next_fault d of
        Fine \<Rightarrow> (case file_bytes p d of None \<Rightarrow> (Inl OsFailure, tick d) | Some b \<Rightarrow> (Inr (length b), tick d))
      | Fails _ \<Rightarrow> (Inl OsFailure, tick d))"

text \<open>\<^verbatim>\<open>io.ReadFull(fh, buf)\<close> for a buffer of \<open>n\<close> bytes: the bytes it places in the buffer.\<close>

definition os_read_full :: "path \<Rightarrow> nat \<Rightarrow> disk \<Rightarrow> (os_error + bytes) \<times> disk" where
  "os_read_full p n d =
     (case next_fault d of
        Fine \<Rightarrow> (case file_bytes p d of
                   None \<Rightarrow> (Inl OsFailure, tick d)
                 | Some b \<Rightarrow> if length b < n then (Inl OsFailure, tick d) else (Inr (take n b), tick d))
      | Fails _ \<Rightarrow> (Inl OsFailure, tick d))"

datatype read_into_error = RecordOs os_error | RecordOverCap path nat

text \<open>
  \<open>backing\<close> is the array behind the reused buffer, \<open>cap(buf)\<close> its length; the result is the
  array afterwards with the length of the returned slice of it.
\<close>

definition readInto :: "bytes \<Rightarrow> path \<Rightarrow> disk \<Rightarrow> (read_into_error + bytes \<times> nat) \<times> disk" where
  "readInto backing p d =
     (case os_open p d of
        (Some e, d) \<Rightarrow> (Inl (RecordOs e), d)
      | (None, d) \<Rightarrow>
          (case os_stat_size p d of
             (Inl e, d) \<Rightarrow> (Inl (RecordOs e), d)
           | (Inr n, d) \<Rightarrow>
               if int n > DefaultMaxPayloadSize then (Inl (RecordOverCap p n), d)
               else
                 let backing = (if length backing < n then replicate n 0 else backing) in
                 (case os_read_full p n d of
                    (Inl e, d) \<Rightarrow> (Inl (RecordOs e), d)
                  | (Inr b, d) \<Rightarrow> (Inr (b @ drop (length b) backing, n), d))))"

section \<open>The stream\<close>

text \<open>
  \<open>RawLedgers\<close> for a consumer that pulls \<open>n\<close> times: \<open>canc i\<close> is what \<^verbatim>\<open>ctx.Err()\<close> says at
  iteration \<open>i\<close>, \<open>record\<close> the index of the next record.
\<close>

fun file_ledgers :: "nat \<Rightarrow> path list \<Rightarrow> (nat \<Rightarrow> bool) \<Rightarrow> ledger_range \<Rightarrow> nat \<Rightarrow> u32 \<Rightarrow> nat \<Rightarrow> bytes \<Rightarrow> disk
    \<Rightarrow> raw_item list \<times> disk" where
  "file_ledgers 0 fs canc rng i sq rec backing d = ([], d)"
| "file_ledgers (Suc n) fs canc rng i sq rec backing d =
     (if canc i then ([RawError SrcCancelled], d)
      else
        case readInto backing (fs ! rec) d of
          (Inl _, d) \<Rightarrow> ([RawError SrcFailed], d)
        | (Inr (backing, len), d) \<Rightarrow>
            let raw = take len backing in
            if rg_bounded rng \<and> sq = rg_to rng then ([Raw raw], d)
            else
              let rec = (if rec + 1 = length fs then 0 else rec + 1) in
              (case file_ledgers n fs canc rng (i + 1) (sq + 1) rec backing d of
                 (items, d) \<Rightarrow> (Raw raw # items, d)))"

definition FileStream_RawLedgers :: "nat \<Rightarrow> path list \<Rightarrow> (nat \<Rightarrow> bool) \<Rightarrow> ledger_range \<Rightarrow> disk \<Rightarrow> raw_item list \<times> disk" where
  "FileStream_RawLedgers n fs canc rng d = file_ledgers n fs canc rng 0 (rg_from rng) 0 [] d"

section \<open>What is replayed\<close>

text \<open>A dump whose every record can be read.\<close>

definition dump_ok :: "path list \<Rightarrow> (path \<Rightarrow> bytes) \<Rightarrow> disk \<Rightarrow> bool" where
  "dump_ok fs b d \<longleftrightarrow> faults d = [] \<and> fs \<noteq> [] \<and>
     (\<forall>p \<in> set fs. file_bytes p d = Some (b p) \<and> int (length (b p)) \<le> DefaultMaxPayloadSize)"

lemma tick_calm [simp]: "faults d = [] \<Longrightarrow> tick d = d"
  by (simp add: tick_def)

lemma readInto_calm:
  assumes "faults d = []" "file_bytes p d = Some b" "int (length b) \<le> DefaultMaxPayloadSize"
  shows "\<exists>backing'. readInto backing p d = (Inr (backing', length b), d) \<and> take (length b) backing' = b"
  using assms
  by (auto simp: readInto_def os_open_def os_stat_size_def os_read_full_def file_bytes_def Let_def
      split: option.splits node.splits)

lemma file_ledgers_calm:
  assumes dump: "dump_ok fs b d" and pos: "rec < length fs"
  shows "file_ledgers n fs (\<lambda>_. False) rng i sq rec backing d =
    (map (\<lambda>k. Raw (b (fs ! ((rec + k) mod length fs)))) [0..<range_pulls rng sq n], d)"
  using pos
proof (induction n arbitrary: i sq rec backing)
  case 0
  then show ?case by (simp add: range_pulls_def)
next
  case (Suc n)
  from Suc.prems dump obtain backing' where
    rd: "readInto backing (fs ! rec) d = (Inr (backing', length (b (fs ! rec))), d)"
      "take (length (b (fs ! rec))) backing' = b (fs ! rec)"
    using readInto_calm [of d "fs ! rec" "b (fs ! rec)" backing] by (auto simp: dump_ok_def)
  let ?rec = "if rec + 1 = length fs then 0 else rec + 1"
  have wrap: "(?rec + k) mod length fs = (rec + Suc k) mod length fs" for k
  proof (cases "rec + 1 = length fs")
    case True
    then have "rec + Suc k = length fs + k" by simp
    with True show ?thesis by (simp only: mod_add_self1) simp
  qed simp
  have "?rec < length fs" using Suc.prems by auto
  note IH = Suc.IH [OF this, of "i + 1" "sq + 1" backing', unfolded wrap]
  show ?case
  proof (cases "rg_bounded rng \<and> sq = rg_to rng")
    case True
    with rd Suc.prems show ?thesis by (simp add: range_pulls_step)
  next
    case False
    then have "file_ledgers (Suc n) fs (\<lambda>_. False) rng i sq rec backing d =
        (Raw (b (fs ! rec)) # map (\<lambda>k. Raw (b (fs ! ((rec + Suc k) mod length fs)))) [0..<range_pulls rng (sq + 1) n], d)"
      using rd IH by (auto simp: Let_def)
    moreover have "range_pulls rng sq (Suc n) = Suc (range_pulls rng (sq + 1) n)"
      using False by (auto simp: range_pulls_step)
    ultimately show ?thesis
      using Suc.prems by (simp add: upt_conv_Cons comp_def del: upt_Suc flip: map_Suc_upt)
  qed
qed

text \<open>The directory of a ring is a dump of its contents.\<close>

lemma sorted_seq_range: "sorted (seq_range a b)"
proof -
  have small: "x < Suc (unat b) \<Longrightarrow> unat (word_of_nat x :: u32) = x" for x
    using unat_lt_u32 [of b] by (intro unat_of_nat_u32) linarith
  have "sorted_wrt (\<lambda>x y. (word_of_nat x :: u32) \<le> word_of_nat y) [unat a..<Suc (unat b)]"
    by (rule sorted_wrt_mono_rel [OF _ sorted_wrt_upt]) (auto simp: word_le_nat_alt small simp del: upt_Suc)
  then show ?thesis
    by (simp add: seq_range_def sorted_wrt_map del: upt_Suc)
qed

lemma distinct_seq_range: "distinct (seq_range a b)"
proof -
  have small: "x < Suc (unat b) \<Longrightarrow> unat (word_of_nat x :: u32) = x" for x
    using unat_lt_u32 [of b] by (intro unat_of_nat_u32) linarith
  have "inj_on (word_of_nat :: nat \<Rightarrow> u32) {unat a..<Suc (unat b)}"
    by (rule inj_on_inverseI [of _ unat]) (use small in auto)
  then show ?thesis by (simp add: seq_range_def distinct_map del: upt_Suc)
qed

lemma ring_is_dump:
  assumes ok: "ring_ok s d" "faults d = []" and full: "filled s"
  shows "NewFileStream (dir s) d = (Inr (map (\<lambda>q. (dir s, LedgerFileName q)) (map fst (contents s d))), d)"
proof -
  have span: "clean_dir (dir s) d" "ledgers_on (dir s) d = {oldest s..latest s}" "oldest s \<le> latest s"
    using ok(1) full by (auto simp: ring_ok_def ring_span_def)
  have scanned: "sort (scanned (dir s) d) = seq_range (oldest s) (latest s)"
    by (rule sorted_distinct_set_unique)
      (use span set_scanned distinct_scanned sorted_seq_range distinct_seq_range in auto)
  have "first_gap (seq_range (oldest s) (latest s)) = None"
    using first_gap_interval [of "seq_range (oldest s) (latest s)"] span(3) sorted_seq_range distinct_seq_range by auto
  moreover have "seq_range (oldest s) (latest s) \<noteq> []"
    using span(3) set_seq_range [of "oldest s" "latest s"] by force
  ultimately show ?thesis
    using ok(2) full by (simp add: NewFileStream_def ScanLedgerDir_fine scanned contents_def comp_def)
qed

lemma dump_of_ring:
  assumes ok: "ring_ok s d" "faults d = []" and full: "filled s"
    and cap: "\<forall>(q, b) \<in> set (contents s d). int (length b) \<le> DefaultMaxPayloadSize"
  shows "dump_ok (map (\<lambda>q. (dir s, LedgerFileName q)) (map fst (contents s d))) (\<lambda>p. the (file_bytes p d)) d"
proof -
  have "\<exists>b. file_bytes (dir s, LedgerFileName q) d = Some b" if "q \<in> {oldest s..latest s}" for q
  proof -
    have "q \<in> ledgers_on (dir s) d" "flat_dir (dir s) d"
      using ok(1) full that by (auto simp: ring_ok_def ring_span_def)
    then show ?thesis
      by (auto simp: ledgers_on_def flat_dir_def file_bytes_entry split: option.splits node.splits)
  qed
  then have found: "file_bytes (dir s, LedgerFileName q) d = Some (ring_bytes s d q)" if "q \<in> {oldest s..latest s}" for q
    using that by (fastforce simp: ring_bytes_def ledger_path_def)
  have small: "int (length (ring_bytes s d q)) \<le> DefaultMaxPayloadSize" if "q \<in> {oldest s..latest s}" for q
    using cap full that by (auto simp: contents_def)
  have qs: "map fst (contents s d) = seq_range (oldest s) (latest s)"
    using full by (simp add: contents_def comp_def)
  have "oldest s \<in> set (seq_range (oldest s) (latest s))"
    using ok(1) full by (auto simp: ring_ok_def ring_span_def)
  then have "seq_range (oldest s) (latest s) \<noteq> []" by fastforce
  with ok(2) found small show ?thesis
    unfolding dump_ok_def qs by simp
qed

section \<open>Properties\<close>

text \<open>The dump and the disk of the witnesses: ledgers 7 and 8.\<close>

definition two_files :: disk where
  "two_files = \<lparr>files = [((''d'', LedgerFileName 7), RegFile [1, 2]), ((''d'', LedgerFileName 8), RegFile [3])], faults = []\<rparr>"

definition from_hundred :: ledger_range where
  "from_hundred = \<lparr>rg_from = 100, rg_to = 102, rg_bounded = True\<rparr>"

lemma two_files_dump: "dump_ok [(''d'', LedgerFileName 7), (''d'', LedgerFileName 8)] (\<lambda>p. the (file_bytes p two_files)) two_files"
  using LedgerFileName_inject [of 8 7]
  by (auto simp: dump_ok_def two_files_def file_bytes_def DefaultMaxPayloadSize_def)

text \<open>
  C37: a dump is replayed as it is, renumbered and cycled. Every pull of a bounded range yields
  the next record, wrapping to the first after the last, exactly as many as the range has
  (all the pulls of an unbounded one), whatever earlier, longer records left in the reused
  buffer; the dump on disk is untouched.
\<close>

theorem file_replay_cycles:
  assumes "dump_ok fs b d"
  shows "FileStream_RawLedgers n fs (\<lambda>_. False) rng d =
    (map (\<lambda>k. Raw (b (fs ! (k mod length fs))))
       [0..<if rg_bounded rng then min n (unat (rg_to rng - rg_from rng) + 1) else n], d)"
  using file_ledgers_calm [OF assms, of 0 n rng 0 "rg_from rng" "[]"] assms
  by (simp add: FileStream_RawLedgers_def range_pulls_def dump_ok_def)

theorem file_replay_cycles_witness:
  "fst (FileStream_RawLedgers 5 [(''d'', LedgerFileName 7), (''d'', LedgerFileName 8)] (\<lambda>_. False) from_hundred two_files) =
     [Raw [1, 2], Raw [3], Raw [1, 2]]"
  using file_replay_cycles [OF two_files_dump, of 5 from_hundred] LedgerFileName_inject [of 8 7]
  by (simp add: from_hundred_def two_files_def file_bytes_def upt_rec numeral_3_eq_3)

text \<open>
  C38: a previous run's ring is a dump. Opening the directory of a retention ring as a dump finds
  exactly its ledgers in order, and replaying it yields their bytes, round and round.
\<close>

theorem ring_replays_as_dump:
  assumes "ring_ok s d" "faults d = []" "contents s d \<noteq> []"
    and "\<forall>(q, b) \<in> set (contents s d). int (length b) \<le> DefaultMaxPayloadSize"
  shows "\<exists>fs. NewFileStream (dir s) d = (Inr fs, d) \<and> Ledgers fs = length (contents s d) \<and>
    fst (FileStream_RawLedgers n fs (\<lambda>_. False) \<lparr>rg_from = start, rg_to = 0, rg_bounded = False\<rparr> d) =
      map (\<lambda>k. Raw (snd (contents s d ! (k mod length (contents s d))))) [0..<n]"
proof -
  have full: "filled s"
    using assms(3) by (auto simp: contents_def split: if_splits)
  let ?fs = "map (\<lambda>q. (dir s, LedgerFileName q)) (map fst (contents s d))"
  have "the (file_bytes (?fs ! k) d) = snd (contents s d ! k)" if "k < length (contents s d)" for k
  proof -
    have "snd (contents s d ! k) = ring_bytes s d (fst (contents s d ! k))"
      using that full by (simp add: contents_def)
    moreover have "file_bytes (?fs ! k) d \<noteq> None"
      using dump_of_ring [OF assms(1,2) full assms(4)] that by (auto simp: dump_ok_def)
    ultimately show ?thesis
      using that by (auto simp: ring_bytes_def ledger_path_def split: option.splits)
  qed
  moreover have "k mod length (contents s d) < length (contents s d)" for k
    using assms(3) by simp
  ultimately have "\<forall>k. the (file_bytes (?fs ! (k mod length ?fs)) d) = snd (contents s d ! (k mod length (contents s d)))"
    by simp
  with ring_is_dump [OF assms(1,2) full]
    file_ledgers_calm [OF dump_of_ring [OF assms(1,2) full assms(4)], of 0 n
      "\<lparr>rg_from = start, rg_to = 0, rg_bounded = False\<rparr>" 0 start "[]"] assms(3)
  show ?thesis
    by (intro exI [of _ ?fs]) (simp add: FileStream_RawLedgers_def range_pulls_def Ledgers_def)
qed

theorem ring_replays_as_dump_witness:
  "\<exists>s d fs. contents s d = [(7, [1, 2])] \<and> NewFileStream (dir s) d = (Inr fs, d) \<and>
     fst (FileStream_RawLedgers 2 fs (\<lambda>_. False) \<lparr>rg_from = 1, rg_to = 0, rg_bounded = False\<rparr> d) = [Raw [1, 2], Raw [1, 2]]"
proof -
  obtain s d where ring: "ring_ok s d" "faults d = []" "contents s d = [(7, [1, 2])]"
    using put_refines [of "empty_ring 2" empty_disk 7 "[[1], [2]]"] by (auto simp: spec_put_def)
  then have "contents s d \<noteq> []" "\<forall>(q, b) \<in> set (contents s d). int (length b) \<le> DefaultMaxPayloadSize"
    by (simp_all add: DefaultMaxPayloadSize_def)
  from ring_replays_as_dump [OF ring(1,2) this, of 2 1] ring(3) show ?thesis
    by (auto simp: upt_rec numeral_2_eq_2)
qed

end
