(* ===== verification/Synthetic.thy ===== *)
theory Synthetic
  imports Emit Wire Ranges
begin

text \<open>
  \<^verbatim>\<open>internal/server/synthetic.go\<close>: the fabricated ledgers. The generator is Go's
  \<^verbatim>\<open>math/rand/v2\<close> PCG (128 bits of state, DXSM output), written out on machine words, so a
  payload evaluates to the bytes the program produces. \<^verbatim>\<open>buf\<close> is the reused buffer; filling
  it is a function of its old content, and the lemmas show that nothing of the old content
  survives: a payload is determined by the sequence, the size and the shape alone.
\<close>

section \<open>The generator\<close>

type_synonym pcg = "128 word"

definition NewPCG :: "u64 \<Rightarrow> u64 \<Rightarrow> pcg" where
  "NewPCG seed1 seed2 = push_bit 64 (ucast seed1) OR ucast seed2"

definition pcg_next :: "pcg \<Rightarrow> pcg" where
  "pcg_next st = st * (2549297995355413924 * 2 ^ 64 + 4865540595714422341)
     + (6364136223846793005 * 2 ^ 64 + 1442695040888963407)"

definition rand_Uint64 :: "pcg \<Rightarrow> pcg \<times> u64" where
  "rand_Uint64 st =
     (let st = pcg_next st;
          hi = ucast (drop_bit 64 st) :: u64;
          lo = ucast st :: u64;
          hi = hi XOR drop_bit 32 hi;
          hi = hi * 0xda942042e4dd58b5;
          hi = hi XOR drop_bit 48 hi;
          hi = hi * (lo OR 1)
      in (st, hi))"

definition put_le64 :: "u64 \<Rightarrow> bytes" where
  "put_le64 w = rev (put_be64 w)"

section \<open>Filling a payload\<close>

definition syntheticSeed :: u64 where "syntheticSeed = 0x5CE11A8"
definition recordSize :: nat where "recordSize = 256"
definition recordEntropy :: nat where "recordEntropy = 32"

text \<open>\<^verbatim>\<open>copy(buf[off:], src)\<close>.\<close>

definition copy_at :: "nat \<Rightarrow> bytes \<Rightarrow> bytes \<Rightarrow> bytes" where
  "copy_at off src buf = take off buf @ take (length buf - off) src @ drop (off + length src) buf"

function noise_loop :: "nat \<Rightarrow> bytes \<Rightarrow> pcg \<Rightarrow> bytes" where
  "noise_loop i buf r =
     (if i < length buf then
        case rand_Uint64 r of (r, w) \<Rightarrow> noise_loop (i + 8) (copy_at i (put_le64 w) buf) r
      else buf)"
  by pat_completeness auto

fun template_loop :: "nat \<Rightarrow> pcg \<Rightarrow> bytes \<times> pcg" where
  "template_loop 0 r = ([], r)"
| "template_loop (Suc n) r =
     (case rand_Uint64 r of (r, w) \<Rightarrow> case template_loop n r of (bs, r) \<Rightarrow> (put_le64 w @ bs, r))"

function entropy_loop :: "nat \<Rightarrow> int \<Rightarrow> int \<Rightarrow> bytes \<Rightarrow> pcg \<Rightarrow> bytes \<times> pcg" where
  "entropy_loop off i n buf r =
     (if 0 \<le> i \<and> i + 8 \<le> n then
        case rand_Uint64 r of (r, w) \<Rightarrow> entropy_loop off (i + 8) n (copy_at (off + nat i) (put_le64 w) buf) r
      else (buf, r))"
  by pat_completeness auto

termination entropy_loop
  by (relation "measure (\<lambda>(off, i, n, buf, r). nat (n - i))") auto

lemma length_copy_at [simp]: "off \<le> length buf \<Longrightarrow> length (copy_at off src buf) = length buf"
  by (simp add: copy_at_def)

termination noise_loop
  by (relation "measure (\<lambda>(i, buf, r). length buf - i)") auto

declare noise_loop.simps [simp del] entropy_loop.simps [simp del]

lemma length_put_le64 [simp]: "length (put_le64 w) = 8"
  by (simp add: put_le64_def put_be64_def)

lemma entropy_loop_length:
  "entropy_loop off i n buf r = (buf', r') \<Longrightarrow> int off + n \<le> int (length buf) \<Longrightarrow> length buf' = length buf"
proof (induction off i n buf r rule: entropy_loop.induct)
  case (1 off i n buf r)
  then show ?case
    by (cases "rand_Uint64 r") (auto simp: entropy_loop.simps [of off i n buf r] split: if_splits)
qed

text \<open>\<open>off\<close> steps by a record; \<open>n\<close> is what of the template fits.\<close>

function record_loop :: "bytes \<Rightarrow> nat \<Rightarrow> bytes \<Rightarrow> pcg \<Rightarrow> bytes" where
  "record_loop template off buf r =
     (if off < length buf then
        let n = min (length template) (length buf - off);
            buf = copy_at off template buf
        in case entropy_loop off (int n - int recordEntropy) (int n) buf r of
             (buf, r) \<Rightarrow> record_loop template (off + recordSize) buf r
      else buf)"
  by pat_completeness auto

termination record_loop
  by (relation "measure (\<lambda>(template, off, buf, r). length buf - off)")
    (auto simp: recordSize_def split: prod.splits dest!: entropy_loop_length)

declare record_loop.simps [simp del]

definition FillSyntheticPayload :: "bytes \<Rightarrow> u32 \<Rightarrow> bool \<Rightarrow> bytes" where
  "FillSyntheticPayload buf sq compressible =
     (let buf = (if length buf \<ge> 4 then copy_at 0 (put_be32 sq) buf else buf);
          r = NewPCG (ucast sq) syntheticSeed
      in if compressible then
           (case template_loop (recordSize div 8) r of (template, r) \<Rightarrow> record_loop template 4 buf r)
         else noise_loop 4 buf r)"

definition SyntheticPayload :: "u32 \<Rightarrow> nat \<Rightarrow> bytes" where
  "SyntheticPayload sq sz = FillSyntheticPayload (replicate sz 0) sq False"

section \<open>The stream\<close>

definition DefaultSyntheticSize :: int where "DefaultSyntheticSize = 200 * 2 ^ 10"

definition NewSyntheticStream :: "int \<Rightarrow> int" where
  "NewSyntheticStream sz = (if sz \<le> 0 then DefaultSyntheticSize else sz)"

fun synthetic_ledgers :: "nat \<Rightarrow> bool \<Rightarrow> (nat \<Rightarrow> bool) \<Rightarrow> ledger_range \<Rightarrow> nat \<Rightarrow> u32 \<Rightarrow> bytes \<Rightarrow> raw_item list" where
  "synthetic_ledgers 0 compressible canc rng i sq buf = []"
| "synthetic_ledgers (Suc n) compressible canc rng i sq buf =
     (if canc i then [RawError SrcCancelled]
      else
        let buf = FillSyntheticPayload buf sq compressible in
        if rg_bounded rng \<and> sq = rg_to rng then [Raw buf]
        else Raw buf # synthetic_ledgers n compressible canc rng (i + 1) (sq + 1) buf)"

definition SyntheticStream_RawLedgers :: "nat \<Rightarrow> int \<Rightarrow> bool \<Rightarrow> (nat \<Rightarrow> bool) \<Rightarrow> ledger_range \<Rightarrow> raw_item list" where
  "SyntheticStream_RawLedgers n sz compressible canc rng =
     synthetic_ledgers n compressible canc rng 0 (rg_from rng) (replicate (nat sz) 0)"

section \<open>Nothing of the old buffer survives\<close>

definition agree :: "nat \<Rightarrow> bytes \<Rightarrow> bytes \<Rightarrow> bool" where
  "agree m b c \<longleftrightarrow> length b = length c \<and> (\<forall>i < length b. i < m \<longrightarrow> b ! i = c ! i)"

lemma agree_all: "agree m b c \<Longrightarrow> length b \<le> m \<Longrightarrow> b = c"
  by (auto simp: agree_def list_eq_iff_nth_eq)

lemma copy_at_nth:
  "off \<le> length buf \<Longrightarrow> i < length buf \<Longrightarrow>
     copy_at off src buf ! i = (if off \<le> i \<and> i < off + length src then src ! (i - off) else buf ! i)"
  by (auto simp: copy_at_def nth_append min_def)

lemma agree_copy:
  "agree m b c \<Longrightarrow> off \<le> m \<Longrightarrow> off \<le> length b \<Longrightarrow> k \<le> m \<or> k \<le> off + length src \<Longrightarrow>
     agree k (copy_at off src b) (copy_at off src c)"
  by (auto simp: agree_def copy_at_nth)

lemma agree_length: "agree m b c \<Longrightarrow> length b = length c"
  by (simp add: agree_def)

lemma noise_loop_agree: "agree i b c \<Longrightarrow> noise_loop i b r = noise_loop i c r"
proof (induction i b r arbitrary: c rule: noise_loop.induct)
  case (1 i b r)
  show ?case
  proof (cases "i < length b")
    case True
    obtain r1 w where rand: "rand_Uint64 r = (r1, w)" by fastforce
    have "agree (i + 8) (copy_at i (put_le64 w) b) (copy_at i (put_le64 w) c)"
      using agree_copy [OF "1.prems"] True by simp
    from "1.IH" [OF True rand [symmetric] this] True rand show ?thesis
      using agree_length [OF "1.prems"] by (simp add: noise_loop.simps [of i])
  next
    case False
    with agree_all [OF "1.prems"] show ?thesis by simp
  qed
qed

lemma entropy_loop_agree:
  "agree m b c \<Longrightarrow> int off + n \<le> int m \<Longrightarrow> m \<le> length b \<Longrightarrow>
   entropy_loop off i n b r = (b', r1) \<Longrightarrow> entropy_loop off i n c r = (c', r2) \<Longrightarrow> agree m b' c' \<and> r1 = r2"
proof (induction off i n b r arbitrary: c rule: entropy_loop.induct)
  case (1 off i n b r)
  show ?case
  proof (cases "0 \<le> i \<and> i + 8 \<le> n")
    case True
    obtain r0 w where rand: "rand_Uint64 r = (r0, w)" by fastforce
    have "off + nat i \<le> m" using True "1.prems"(2) by linarith
    then have "agree m (copy_at (off + nat i) (put_le64 w) b) (copy_at (off + nat i) (put_le64 w) c)"
      using agree_copy [OF "1.prems"(1)] "1.prems"(3) by simp
    from "1.IH" [OF True rand [symmetric] this] True rand "1.prems" \<open>off + nat i \<le> m\<close> show ?thesis
      by (simp add: entropy_loop.simps [of off i])
  next
    case False
    with "1.prems" show ?thesis by (auto simp: entropy_loop.simps [of off i])
  qed
qed

lemma record_loop_agree:
  "length template = recordSize \<Longrightarrow> agree off b c \<Longrightarrow> record_loop template off b r = record_loop template off c r"
proof (induction template off b r arbitrary: c rule: record_loop.induct)
  case (1 template off b r)
  show ?case
  proof (cases "off < length b")
    case True
    let ?n = "min (length template) (length b - off)"
    obtain b2 r2 where b2: "entropy_loop off (int ?n - int recordEntropy) (int ?n) (copy_at off template b) r = (b2, r2)"
      by fastforce
    obtain c2 r3 where c2: "entropy_loop off (int ?n - int recordEntropy) (int ?n) (copy_at off template c) r = (c2, r3)"
      by fastforce
    have "agree (off + ?n) (copy_at off template b) (copy_at off template c)"
      using agree_copy [OF "1.prems"(2), of off "off + ?n" template] True by simp
    from entropy_loop_agree [OF this _ _ b2 c2] True have step: "agree (off + ?n) b2 c2" "r2 = r3"
      by auto
    have len: "length b2 = length b" "length c = length b"
      using entropy_loop_length [OF b2] True agree_length [OF "1.prems"(2)] by auto
    with step(1) "1.prems"(1) have "agree (off + recordSize) b2 c2"
      by (auto simp: agree_def min_def split: if_splits)
    from "1.IH" [OF True refl refl b2 [symmetric] "1.prems"(1) this] True b2 c2 step(2) len show ?thesis
      by (simp add: record_loop.simps [of template off] Let_def)
  next
    case False
    with agree_all [OF "1.prems"(2)] show ?thesis by simp
  qed
qed

lemma length_template: "template_loop n r = (bs, r') \<Longrightarrow> length bs = 8 * n"
  by (induction n arbitrary: r bs) (auto split: prod.splits)

lemma Fill_agree:
  assumes "length b = length c" "4 \<le> length b"
  shows "FillSyntheticPayload b sq compressible = FillSyntheticPayload c sq compressible"
proof -
  have start: "agree 4 (copy_at 0 (put_be32 sq) b) (copy_at 0 (put_be32 sq) c)"
    using assms(1) by (intro agree_copy [of 0]) (simp_all add: agree_def put_be32_def)
  obtain template r where tmpl: "template_loop (recordSize div 8) (NewPCG (ucast sq) syntheticSeed) = (template, r)"
    by fastforce
  then have "length template = recordSize"
    using length_template [OF tmpl] by (simp add: recordSize_def)
  with assms noise_loop_agree [OF start] record_loop_agree [OF _ start] tmpl show ?thesis
    by (simp add: FillSyntheticPayload_def Let_def)
qed

lemma Fill_short: "length b < 4 \<Longrightarrow> FillSyntheticPayload b sq compressible = b"
  by (simp add: FillSyntheticPayload_def noise_loop.simps [of 4] record_loop.simps [of _ 4] Let_def split: prod.split)

text \<open>Only what lies at or after the offset is written.\<close>

lemma take_copy_at [simp]: "k \<le> off \<Longrightarrow> off \<le> length buf \<Longrightarrow> take k (copy_at off src buf) = take k buf"
  by (simp add: copy_at_def min_def)

lemma noise_loop_frame: "length (noise_loop i b r) = length b \<and> take i (noise_loop i b r) = take i b"
proof (induction i b r rule: noise_loop.induct)
  case (1 i b r)
  show ?case
  proof (cases "i < length b")
    case True
    obtain r1 w where rand: "rand_Uint64 r = (r1, w)" by fastforce
    let ?b = "copy_at i (put_le64 w) b" and ?out = "noise_loop (i + 8) (copy_at i (put_le64 w) b) r1"
    have IH: "length ?out = length ?b" "take (i + 8) ?out = take (i + 8) ?b"
      using "1.IH" [OF True rand [symmetric]] by auto
    have "take i ?out = take i (take (i + 8) ?out)" by simp
    also have "\<dots> = take i b" unfolding IH(2) using True by simp
    finally show ?thesis
      using True rand IH(1) by (simp add: noise_loop.simps [of i])
  qed (simp add: noise_loop.simps [of i])
qed

lemma entropy_loop_frame:
  "entropy_loop off i n b r = (b', r') \<Longrightarrow> int off + n \<le> int (length b) \<Longrightarrow> take off b' = take off b"
proof (induction off i n b r rule: entropy_loop.induct)
  case (1 off i n b r)
  then show ?case
    by (cases "rand_Uint64 r") (auto simp: entropy_loop.simps [of off i n b r] split: if_splits)
qed

lemma record_loop_frame:
  "length template = recordSize \<Longrightarrow>
     length (record_loop template off b r) = length b \<and> take off (record_loop template off b r) = take off b"
proof (induction template off b r rule: record_loop.induct)
  case (1 template off b r)
  show ?case
  proof (cases "off < length b")
    case True
    let ?n = "min (length template) (length b - off)"
    obtain b2 r2 where b2: "entropy_loop off (int ?n - int recordEntropy) (int ?n) (copy_at off template b) r = (b2, r2)"
      by fastforce
    let ?out = "record_loop template (off + recordSize) b2 r2"
    have "int off + int ?n \<le> int (length (copy_at off template b))"
      using True by simp
    with entropy_loop_frame [OF b2] entropy_loop_length [OF b2] True
    have step: "length b2 = length b" "take off b2 = take off b" by simp_all
    have IH: "length ?out = length b2" "take (off + recordSize) ?out = take (off + recordSize) b2"
      using "1.IH" [OF True refl refl b2 [symmetric] "1.prems"] by auto
    have "take off ?out = take off (take (off + recordSize) ?out)" by simp
    also have "\<dots> = take off b" unfolding IH(2) using step by simp
    finally show ?thesis
      using True b2 IH(1) step by (simp add: record_loop.simps [of template off] Let_def)
  qed (simp add: record_loop.simps [of template off])
qed

lemma Fill_frame:
  "length (FillSyntheticPayload b sq compressible) = length b \<and>
   (4 \<le> length b \<longrightarrow> take 4 (FillSyntheticPayload b sq compressible) = put_be32 sq)"
proof (cases "4 \<le> length b")
  case True
  obtain template r where tmpl: "template_loop (recordSize div 8) (NewPCG (ucast sq) syntheticSeed) = (template, r)"
    by fastforce
  then have "length template = recordSize"
    using length_template [OF tmpl] by (simp add: recordSize_def)
  moreover have "take 4 (copy_at 0 (put_be32 sq) b) = put_be32 sq"
    using True by (simp add: copy_at_def put_be32_def)
  ultimately show ?thesis
    using True tmpl noise_loop_frame record_loop_frame by (simp add: FillSyntheticPayload_def Let_def)
qed (simp add: Fill_short)

lemma synthetic_ledgers_calm:
  assumes "length buf = sz" "sz < 4 \<longrightarrow> buf = replicate sz 0"
  shows "synthetic_ledgers n compressible (\<lambda>_. False) rng i sq buf =
    map (\<lambda>k. Raw (FillSyntheticPayload (replicate sz 0) (sq + word_of_nat k) compressible)) [0..<range_pulls rng sq n]"
  using assms
proof (induction n arbitrary: i sq buf)
  case 0
  then show ?case by (simp add: range_pulls_def)
next
  case (Suc n)
  let ?buf = "FillSyntheticPayload buf sq compressible"
  have buf: "?buf = FillSyntheticPayload (replicate sz 0) sq compressible"
    using Suc.prems Fill_agree [of buf "replicate sz 0"] by (cases "sz < 4") auto
  have next_buf: "length ?buf = sz" "sz < 4 \<longrightarrow> ?buf = replicate sz 0"
    using Suc.prems Fill_frame Fill_short by auto
  show ?case
  proof (cases "rg_bounded rng \<and> sq = rg_to rng")
    case True
    with buf show ?thesis by (simp add: range_pulls_step)
  next
    case False
    then have "range_pulls rng sq (Suc n) = Suc (range_pulls rng (sq + 1) n)"
      by (auto simp: range_pulls_step)
    moreover have "synthetic_ledgers (Suc n) compressible (\<lambda>_. False) rng i sq buf =
        Raw ?buf # synthetic_ledgers n compressible (\<lambda>_. False) rng (i + 1) (sq + 1) ?buf"
      using False by (auto simp: Let_def)
    ultimately show ?thesis
      unfolding Suc.IH [OF next_buf]
      by (simp add: buf upt_conv_Cons comp_def ac_simps del: upt_Suc flip: map_Suc_upt)
  qed
qed

section \<open>Properties\<close>

text \<open>
  A fabricated ledger is determined by its sequence, its size and its shape. Filling any
  buffer of at least four bytes gives the same payload whatever the buffer held, of the same
  length, and its first four bytes are the sequence.
\<close>

theorem synthetic_payload_determined:
  assumes "length b = length c" "4 \<le> length b"
  shows "FillSyntheticPayload b sq compressible = FillSyntheticPayload c sq compressible \<and>
    length (FillSyntheticPayload b sq compressible) = length b \<and>
    get_be32 (take 4 (FillSyntheticPayload b sq compressible)) = sq"
  using Fill_agree [OF assms] Fill_frame [of b sq compressible] get_put_be32 [of sq] assms(2) by simp

theorem synthetic_payload_determined_witness:
  "FillSyntheticPayload [1, 2, 3, 4, 5] 7 True = FillSyntheticPayload (replicate 5 0) 7 True"
  using synthetic_payload_determined [of "[1, 2, 3, 4, 5]" "replicate 5 0" 7 True] by simp

text \<open>
  C39: a consumer can check what arrived by regenerating it. The stream over one reused buffer
  yields for each sequence of the range exactly what filling a fresh, zeroed buffer gives, of
  any size, and as many ledgers as the range has.
\<close>

theorem synthetic_stream_regenerates:
  "SyntheticStream_RawLedgers n sz compressible (\<lambda>_. False) rng =
     map (\<lambda>k. Raw (FillSyntheticPayload (replicate (nat sz) 0) (rg_from rng + word_of_nat k) compressible))
       [0..<if rg_bounded rng then min n (unat (rg_to rng - rg_from rng) + 1) else n]"
  using synthetic_ledgers_calm [of "replicate (nat sz) 0" "nat sz" n compressible rng 0 "rg_from rng"]
  by (simp add: SyntheticStream_RawLedgers_def range_pulls_def)

end
