(* ===== verification/Pipe_Source.thy ===== *)
theory Pipe_Source
  imports Emit
begin

text \<open>
  \<^verbatim>\<open>internal/server/pipesource.go\<close> and \<^verbatim>\<open>pipesize_linux.go\<close>: the source that taps a child's
  pipe below the complete-ledger seam. The pipe is what Go's \<^verbatim>\<open>os.Pipe\<close>, its read deadline and
  \<^verbatim>\<open>bufio.Reader\<close> make of it: each read returns a non-empty piece of what the child still
  writes, of whatever size the kernel grants, then EOF; once the context has ended every read
  fails. The frame marker parser and the sequence accessor (\<^verbatim>\<open>xdr.ReadFrameLength\<close>,
  \<^verbatim>\<open>LedgerCloseMetaView\<close>, outside the repository) are arguments.

  The lemmas: the body of an emission is a byte reader, so all that theories \<open>LedgerWork\<close> and
  \<open>Source_Loop\<close> show of bodies holds for it; it never reads into the next frame; it reports EOF
  only when the whole frame was read; and a stream of frames is emitted frame by frame.
\<close>

section \<open>The pipe\<close>

text \<open>
  \<open>cp_grants\<close> bounds the reads to come (none: a read fills its buffer), \<open>cp_deadline\<close> is how
  many reads are left before the context ends (\<open>None\<close>: it does not).
\<close>

record child_pipe =
  cp_data :: bytes
  cp_grants :: "nat list"
  cp_deadline :: "nat option"

definition ctx_ended :: "child_pipe \<Rightarrow> bool" where
  "ctx_ended p \<longleftrightarrow> cp_deadline p = Some 0"

definition pipe_grant :: "child_pipe \<Rightarrow> nat \<Rightarrow> nat" where
  "pipe_grant p k = (case cp_grants p of [] \<Rightarrow> k | g # _ \<Rightarrow> min k (max 1 g))"

definition pipe_read :: "child_pipe reader" where
  "pipe_read p k =
     (if ctx_ended p then (p, [], Some RdFailed)
      else
        let p' = p\<lparr>cp_grants := tl (cp_grants p), cp_deadline := map_option (\<lambda>n. n - 1) (cp_deadline p)\<rparr> in
        if cp_data p = [] then (p', [], Some RdEOF)
        else (p'\<lparr>cp_data := drop (pipe_grant p k) (cp_data p)\<rparr>, take (pipe_grant p k) (cp_data p), None))"

section \<open>The body of a frame\<close>

record frame_tail =
  ft_pipe :: child_pipe
  ft_remaining :: nat

definition tail_read :: "frame_tail reader" where
  "tail_read t k =
     (if ft_remaining t = 0 then (t, [], Some RdEOF)
      else
        case pipe_read (ft_pipe t) (min k (ft_remaining t)) of (p, data, err) \<Rightarrow>
          let t = \<lparr>ft_pipe = p, ft_remaining = ft_remaining t - length data\<rparr> in
          if err \<noteq> None \<and> ctx_ended p then (t, data, Some RdCancelled)
          else if err = Some RdEOF \<and> 0 < ft_remaining t then (t, data, Some RdUnexpectedEOF)
          else (t, data, err))"

text \<open>\<^verbatim>\<open>io.MultiReader\<close> of the parsed prefix and the tail.\<close>

record pipe_body =
  by_prefix :: bytes
  by_tail :: frame_tail

definition body_read :: "pipe_body reader" where
  "body_read b k =
     (if by_prefix b \<noteq> [] then (b\<lparr>by_prefix := drop k (by_prefix b)\<rparr>, take k (by_prefix b), None)
      else case tail_read (by_tail b) k of (t, data, err) \<Rightarrow> (b\<lparr>by_tail := t\<rparr>, data, err))"

definition pipe_pending :: "child_pipe \<Rightarrow> bytes" where
  "pipe_pending p = cp_data p"

definition body_pending :: "pipe_body \<Rightarrow> bytes" where
  "body_pending b = by_prefix b @ take (ft_remaining (by_tail b)) (cp_data (ft_pipe (by_tail b)))"

text \<open>What is left of the declared length, and the bytes after the frame.\<close>

definition body_left :: "pipe_body \<Rightarrow> nat" where
  "body_left b = length (by_prefix b) + ft_remaining (by_tail b)"

definition after_frame :: "pipe_body \<Rightarrow> bytes" where
  "after_frame b = drop (ft_remaining (by_tail b)) (cp_data (ft_pipe (by_tail b)))"

lemma pipe_read_step:
  assumes "0 < k" "pipe_read p k = (p', data, e)"
  shows "length data \<le> k \<and> cp_data p = data @ cp_data p' \<and> (e = None \<longrightarrow> data \<noteq> []) \<and>
    (e = Some RdEOF \<longrightarrow> cp_data p' = []) \<and> e \<in> {None, Some RdEOF, Some RdFailed} \<and>
    (cp_deadline p = None \<longrightarrow> cp_deadline p' = None \<and> e \<noteq> Some RdFailed)"
  using assms
  by (auto simp: pipe_read_def Let_def pipe_grant_def ctx_ended_def min_def split: if_splits list.splits)

lemma pipe_reads_within: "reads_within pipe_read"
  by (auto simp: reads_within_def pipe_read_def Let_def pipe_grant_def split: list.splits)

interpretation pipe: byte_reader "\<lambda>_. True" pipe_read pipe_pending
  by unfold_locales (use pipe_read_step in \<open>auto simp: pipe_pending_def\<close>)

interpretation calm_pipe: calm_reader "\<lambda>p. cp_deadline p = None" pipe_read pipe_pending
  by unfold_locales (use pipe_read_step in \<open>auto simp: pipe_pending_def\<close>, blast+)

lemma tail_read_step:
  assumes k: "0 < k" and rd: "tail_read t k = (t', data, e)"
  shows "length data \<le> k \<and> length data \<le> ft_remaining t \<and> ft_remaining t' = ft_remaining t - length data \<and>
    cp_data (ft_pipe t) = data @ cp_data (ft_pipe t') \<and> (e = None \<longrightarrow> data \<noteq> []) \<and>
    (e = Some RdEOF \<longrightarrow> ft_remaining t' = 0)"
proof (cases "ft_remaining t = 0")
  case True
  with rd show ?thesis by (auto simp: tail_read_def)
next
  case False
  obtain p d err where p: "pipe_read (ft_pipe t) (min k (ft_remaining t)) = (p, d, err)"
    by (metis prod_cases3)
  note step = pipe_read_step [OF _ p]
  from rd False p have "t' = \<lparr>ft_pipe = p, ft_remaining = ft_remaining t - length d\<rparr>" "data = d"
      "e = None \<longrightarrow> err = None" "e = Some RdEOF \<longrightarrow> ft_remaining t' = 0"
    by (auto simp: tail_read_def Let_def split: if_splits)
  with step False k show ?thesis by auto
qed

lemma body_read_step:
  assumes k: "0 < k" and rd: "body_read b k = (b', data, e)"
  shows "length data \<le> k \<and> body_pending b = data @ body_pending b' \<and> (e = None \<longrightarrow> data \<noteq> []) \<and>
    (e = Some RdEOF \<longrightarrow> body_left b' = 0) \<and> body_left b' = body_left b - length data \<and>
    after_frame b' = after_frame b"
proof (cases "by_prefix b = []")
  case True
  with rd obtain t where t: "tail_read (by_tail b) k = (t, data, e)" "b' = b\<lparr>by_tail := t\<rparr>"
    by (auto simp: body_read_def split: prod.splits)
  from tail_read_step [OF k t(1)] True t(2) show ?thesis
    by (auto simp: body_pending_def body_left_def after_frame_def)
next
  case False
  with rd k show ?thesis
    by (auto simp: body_read_def body_pending_def body_left_def after_frame_def)
qed

interpretation frame_body: byte_reader "\<lambda>_. True" body_read body_pending
proof unfold_locales
  fix b b' :: pipe_body and k data e
  assume "0 < k" "body_read b k = (b', data, e)"
  from body_read_step [OF this] show "True \<and> length data \<le> k \<and> body_pending b = data @ body_pending b' \<and>
      (e = None \<longrightarrow> data \<noteq> []) \<and> (e = Some RdEOF \<longrightarrow> body_pending b' = [])"
    by (auto simp: body_left_def body_pending_def)
qed

text \<open>A body whose frame is all there, of a pipe whose context does not end, does not fail.\<close>

definition body_calm :: "pipe_body \<Rightarrow> bool" where
  "body_calm b \<longleftrightarrow> cp_deadline (ft_pipe (by_tail b)) = None \<and>
     ft_remaining (by_tail b) \<le> length (cp_data (ft_pipe (by_tail b)))"

lemma body_read_calm:
  assumes k: "0 < k" and calm: "body_calm b" and rd: "body_read b k = (b', data, e)"
  shows "body_calm b' \<and> (e = None \<or> e = Some RdEOF)"
proof (cases "by_prefix b = [] \<and> ft_remaining (by_tail b) \<noteq> 0")
  case True
  let ?t = "by_tail b"
  obtain p d err where p: "pipe_read (ft_pipe ?t) (min k (ft_remaining ?t)) = (p, d, err)"
    by (metis prod_cases3)
  from True k calm have "cp_deadline p = None" "err \<noteq> Some RdFailed" "err \<noteq> Some RdEOF" "err \<in> {None, Some RdEOF, Some RdFailed}"
      "cp_data (ft_pipe ?t) = d @ cp_data p"
    using pipe_read_step [OF _ p] p by (auto simp: body_calm_def pipe_read_def Let_def ctx_ended_def split: if_splits)
  with rd True p calm show ?thesis
    by (auto simp: body_read_def tail_read_def body_calm_def ctx_ended_def)
qed (use rd calm in \<open>auto simp: body_read_def body_calm_def tail_read_def split: if_splits\<close>)

interpretation whole_frame: calm_reader body_calm body_read body_pending
proof unfold_locales
  fix b b' :: pipe_body and k data e
  assume "body_calm b" "0 < k" "body_read b k = (b', data, e)"
  then show "body_calm b' \<and> length data \<le> k \<and> body_pending b = data @ body_pending b' \<and>
      (e = None \<longrightarrow> data \<noteq> []) \<and> (e = Some RdEOF \<longrightarrow> body_pending b' = [])" "e = None \<or> e = Some RdEOF"
    using body_read_calm frame_body.read_step by blast+
qed

section \<open>A consumer that reads a body to its end\<close>

text \<open>
  With a buffer of \<open>k\<close> bytes, for at most \<open>n\<close> reads; \<open>None\<close> when those did not suffice.
\<close>

fun drain :: "'r reader \<Rightarrow> nat \<Rightarrow> nat \<Rightarrow> 'r \<Rightarrow> bytes \<Rightarrow> 'r \<times> bytes \<times> rd_error option" where
  "drain read k 0 r acc = (r, acc, None)"
| "drain read k (Suc n) r acc =
     (case read r k of (r, data, err) \<Rightarrow>
        (case err of Some e \<Rightarrow> (r, acc @ data, Some e) | None \<Rightarrow> drain read k n r (acc @ data)))"

context byte_reader begin

lemma drain_spec:
  "ok r \<Longrightarrow> 0 < k \<Longrightarrow> drain read k n r acc = (r', out, e) \<Longrightarrow>
     ok r' \<and> acc @ pending r = out @ pending r' \<and> (e = Some RdEOF \<longrightarrow> pending r' = []) \<and>
     (length (pending r) < n \<longrightarrow> e \<noteq> None)"
proof (induction n arbitrary: r acc)
  case (Suc n)
  obtain r1 data err where rd: "read r k = (r1, data, err)"
    by (metis prod_cases3)
  note step = read_step [OF Suc.prems(1,2) rd]
  show ?case
  proof (cases err)
    case None
    with step have "length (pending r1) < length (pending r)" by (cases data) auto
    then have "length (pending r) < Suc n \<Longrightarrow> length (pending r1) < n" by simp
    with Suc.IH [of r1 "acc @ data"] Suc.prems step rd None show ?thesis by fastforce
  qed (use step Suc.prems rd in auto)
qed auto

end

context calm_reader begin

lemma drain_calm:
  "ok r \<Longrightarrow> 0 < k \<Longrightarrow> length (pending r) < n \<Longrightarrow>
     \<exists>r'. drain read k n r acc = (r', acc @ pending r, Some RdEOF) \<and> ok r' \<and> pending r' = []"
proof (induction n arbitrary: r acc)
  case (Suc n)
  obtain r1 data err where rd: "read r k = (r1, data, err)"
    by (metis prod_cases3)
  note step = read_step [OF Suc.prems(1,2) rd] and calm = read_calm [OF Suc.prems(1,2) rd]
  show ?case
  proof (cases err)
    case None
    with step have "length (pending r1) < length (pending r)" by (cases data) auto
    with Suc.prems(3) have "length (pending r1) < n" by simp
    with Suc.IH [of r1 "acc @ data"] step Suc.prems(2) rd None show ?thesis by auto
  qed (use step calm rd in auto)
qed simp

end

text \<open>Reading a body, however it is read, leaves what follows the frame in the pipe.\<close>

lemma drain_after_frame:
  "0 < k \<Longrightarrow> drain body_read k n b acc = (b', out, e) \<Longrightarrow>
     after_frame b' = after_frame b \<and> length out + body_left b' = length acc + body_left b \<and>
     (e = Some RdEOF \<longrightarrow> body_left b' = 0)"
proof (induction n arbitrary: b acc)
  case (Suc n)
  obtain b1 data err where rd: "body_read b k = (b1, data, err)"
    by (metis prod_cases3)
  note step = body_read_step [OF Suc.prems(1) rd]
  have "length data \<le> body_left b"
    using rd step tail_read_step [OF Suc.prems(1), of "by_tail b"]
    by (auto simp: body_read_def body_left_def split: if_splits prod.splits)
  with step Suc.IH [of b1 "acc @ data"] Suc.prems rd show ?case
    by (cases err) auto
qed auto

section \<open>The frame loop\<close>

datatype frame_error = FrameEOF | FrameBroken

datatype pipe_error = NoPipe | NoChild | ChildExited | BadMarker | ShortPrefix | BadSequence

record pipe_env =
  pn_frame_len :: "child_pipe \<Rightarrow> child_pipe \<times> (frame_error + u32)"
  pn_ledger_seq :: "bytes \<Rightarrow> u32 option"
  pn_exit_ok :: bool
  pn_pipe_ok :: bool
  pn_start_ok :: bool

definition DefaultPipeBytes :: int where "DefaultPipeBytes = 2 ^ 20"
definition seqPrefixLen :: nat where "seqPrefixLen = 4096"

datatype pipe_outcome =
    PipeEmits "pipe_body emission"
  | PipeEnds
  | PipeFails pipe_error

text \<open>
  One iteration. \<open>fillChunk\<close> stands for \<^verbatim>\<open>io.ReadFull\<close>: the two differ only on a reader that
  returns neither bytes nor an error, which the pipe does not.
\<close>

definition pipe_next :: "pipe_env \<Rightarrow> child_pipe \<Rightarrow> pipe_outcome" where
  "pipe_next env p =
     (case pn_frame_len env p of
        (p, Inl e) \<Rightarrow>
          if e = FrameEOF then (if \<not> pn_exit_ok env \<and> \<not> ctx_ended p then PipeFails ChildExited else PipeEnds)
          else if ctx_ended p then PipeEnds
          else PipeFails BadMarker
      | (p, Inr len) \<Rightarrow>
          let n = min (unat len) seqPrefixLen in
          (case fillChunk pipe_read p n of (p, head, _) \<Rightarrow>
             if length head < n then (if ctx_ended p then PipeEnds else PipeFails ShortPrefix)
             else (case pn_ledger_seq env head of
                     None \<Rightarrow> PipeFails BadSequence
                   | Some sq \<Rightarrow>
                       PipeEmits \<lparr>em_seq = sq, em_size = int (unat len),
                         em_body = \<lparr>by_prefix = head, by_tail = \<lparr>ft_pipe = p, ft_remaining = unat len - n\<rparr>\<rparr>\<rparr>)))"

text \<open>
  The loop under a consumer that reads every body with a buffer of \<open>k\<close> bytes and stops at a
  read error: each emission with the bytes it read and the error it stopped at.
\<close>

fun pipe_loop :: "pipe_env \<Rightarrow> nat \<Rightarrow> nat \<Rightarrow> child_pipe
    \<Rightarrow> (pipe_body emission \<times> bytes \<times> rd_error option) list \<times> pipe_outcome option" where
  "pipe_loop env k 0 p = ([], None)"
| "pipe_loop env k (Suc n) p =
     (case pipe_next env p of
        PipeEmits em \<Rightarrow>
          (case drain body_read k (nat (em_size em) + 1) (em_body em) [] of (b, out, err) \<Rightarrow>
             if err = Some RdEOF then
               (case pipe_loop env k n (ft_pipe (by_tail b)) of (rest, fin) \<Rightarrow> ((em, out, err) # rest, fin))
             else ([(em, out, err)], None))
      | fin \<Rightarrow> ([], Some fin))"

text \<open>
  What tears the child down when the iteration ends, in order: \<open>waited\<close> says whether the end
  of the pipe was reached, where the child was already waited for.
\<close>

datatype pipe_action = CloseRead | TermGroup | WaitChild | KillGroup

definition pipe_teardown :: "bool \<Rightarrow> bool \<Rightarrow> pipe_action list" where
  "pipe_teardown waited ended = CloseRead # (if ended then [] else [TermGroup]) @
     (if waited then [] else [WaitChild]) @ [KillGroup]"

definition PipeSource_Emissions :: "pipe_env \<Rightarrow> nat \<Rightarrow> nat \<Rightarrow> child_pipe
    \<Rightarrow> (pipe_body emission \<times> bytes \<times> rd_error option) list \<times> pipe_outcome option" where
  "PipeSource_Emissions env k n p =
     (if \<not> pn_pipe_ok env then ([], Some (PipeFails NoPipe))
      else if \<not> pn_start_ok env then ([], Some (PipeFails NoChild))
      else pipe_loop env k n p)"

text \<open>\<^verbatim>\<open>setPipeSize\<close> over what the kernel answers to the two calls, and the capacity asked for.\<close>

definition pipe_want :: "int \<Rightarrow> int" where
  "pipe_want pipeBytes = (if pipeBytes = 0 then DefaultPipeBytes else pipeBytes)"

definition setPipeSize :: "bool \<Rightarrow> bool \<Rightarrow> (int \<Rightarrow> bool) \<Rightarrow> int option \<Rightarrow> int \<Rightarrow> int \<times> bool" where
  "setPipeSize conn_ok control_ok grants capacity want =
     (if \<not> conn_ok then (0, False)
      else if \<not> control_ok then (0, False)
      else
        let op_ok = (want > 0 \<longrightarrow> grants want) in
        case capacity of None \<Rightarrow> (0, False) | Some got \<Rightarrow> (got, op_ok))"

section \<open>A stream of frames\<close>

text \<open>
  The record marker of RFC 5531 with the last-fragment bit, and what the program relies on of
  \<^verbatim>\<open>xdr.ReadFrameLength\<close>: it takes a marker off the pipe and returns its length, and at the end
  of the pipe it says EOF.
\<close>

definition frame_marker :: "nat \<Rightarrow> bytes" where
  "frame_marker n = put_be32 (word_of_nat n OR 0x80000000)"

definition reads_markers :: "pipe_env \<Rightarrow> bool" where
  "reads_markers env \<longleftrightarrow>
     (\<forall>p n rest. cp_deadline p = None \<longrightarrow> n < 2 ^ 31 \<longrightarrow> cp_data p = frame_marker n @ rest \<longrightarrow>
        (\<exists>p'. pn_frame_len env p = (p', Inr (word_of_nat n)) \<and> cp_data p' = rest \<and> cp_deadline p' = None)) \<and>
     (\<forall>p. cp_deadline p = None \<longrightarrow> cp_data p = [] \<longrightarrow>
        (\<exists>p'. pn_frame_len env p = (p', Inl FrameEOF) \<and> cp_deadline p' = None))"

definition framed_meta :: "bytes \<Rightarrow> bytes" where
  "framed_meta m = frame_marker (length m) @ m"

lemma pipe_next_frame:
  assumes env: "reads_markers env" and p: "cp_deadline p = None" "cp_data p = framed_meta m @ rest"
    and m: "length m < 2 ^ 31" "pn_ledger_seq env (take seqPrefixLen m) = Some sq"
  shows "\<exists>b. pipe_next env p = PipeEmits \<lparr>em_seq = sq, em_size = int (length m), em_body = b\<rparr> \<and>
    body_calm b \<and> body_pending b = m \<and> body_left b = length m \<and> after_frame b = rest"
proof -
  obtain p1 where p1: "pn_frame_len env p = (p1, Inr (word_of_nat (length m)))" "cp_data p1 = m @ rest" "cp_deadline p1 = None"
    using env p m(1) unfolding reads_markers_def framed_meta_def by (metis append.assoc)
  have len: "unat (word_of_nat (length m) :: u32) = length m"
    using m(1) by (intro unat_of_nat_u32) simp
  let ?n = "min (length m) seqPrefixLen"
  obtain p2 head e where fill: "fillChunk pipe_read p1 ?n = (p2, head, e)"
    by (metis prod_cases3)
  have head: "head = take seqPrefixLen m" "cp_data p2 = drop ?n (m @ rest)" "cp_deadline p2 = None"
    using calm_pipe.fillChunk_calm [OF p1(3) fill] p1(2) by (auto simp: pipe_pending_def min_def)
  let ?b = "\<lparr>by_prefix = head, by_tail = \<lparr>ft_pipe = p2, ft_remaining = length m - ?n\<rparr>\<rparr>"
  have "pipe_next env p = PipeEmits \<lparr>em_seq = sq, em_size = int (length m), em_body = ?b\<rparr>"
    using p1(1) fill m(2) head(1) by (simp add: pipe_next_def len Let_def min.commute)
  moreover have "body_pending ?b = m" "body_left ?b = length m" "after_frame ?b = rest" "body_calm ?b"
    using head by (auto simp: body_pending_def body_left_def after_frame_def body_calm_def min_def)
  ultimately show ?thesis by blast
qed

text \<open>One frame, relayed to a consumer that reads it to its end.\<close>

lemma pipe_frame_step:
  assumes env: "reads_markers env" and k: "0 < k" and p: "cp_deadline p = None" "cp_data p = framed_meta m @ rest"
    and m: "length m < 2 ^ 31" "pn_ledger_seq env (take seqPrefixLen m) = Some sq"
  obtains b b' where "pipe_next env p = PipeEmits \<lparr>em_seq = sq, em_size = int (length m), em_body = b\<rparr>"
    "drain body_read k (length m + 1) b [] = (b', m, Some RdEOF)"
    "cp_deadline (ft_pipe (by_tail b')) = None" "cp_data (ft_pipe (by_tail b')) = rest"
proof -
  obtain b where em: "pipe_next env p = PipeEmits \<lparr>em_seq = sq, em_size = int (length m), em_body = b\<rparr>"
    and b: "body_calm b" "body_pending b = m" "body_left b = length m" "after_frame b = rest"
    using pipe_next_frame [OF env p m] by auto
  obtain b' where drained: "drain body_read k (length m + 1) b [] = (b', m, Some RdEOF)" "body_calm b'"
    using whole_frame.drain_calm [OF b(1) k, of "length m + 1" "[]"] b(2) by auto
  from drain_after_frame [OF k drained(1)] b(4) have "after_frame b' = rest" "body_left b' = 0"
    by auto
  with drained(2) have "cp_deadline (ft_pipe (by_tail b')) = None" "cp_data (ft_pipe (by_tail b')) = rest"
    by (auto simp: body_calm_def after_frame_def body_left_def)
  with em drained(1) show ?thesis by (rule that)
qed

text \<open>Frames the accessor can read the sequence of.\<close>

definition metas_ok :: "pipe_env \<Rightarrow> (bytes \<Rightarrow> u32) \<Rightarrow> bytes list \<Rightarrow> bool" where
  "metas_ok env sq metas \<longleftrightarrow>
     (\<forall>m \<in> set metas. length m < 2 ^ 31 \<and> pn_ledger_seq env (take seqPrefixLen m) = Some (sq m))"

lemma metas_ok_simps [simp]:
  "metas_ok env sq []"
  "metas_ok env sq (m # ms) \<longleftrightarrow> length m < 2 ^ 31 \<and> pn_ledger_seq env (take seqPrefixLen m) = Some (sq m) \<and> metas_ok env sq ms"
  by (simp_all add: metas_ok_def)

lemma pipe_next_eof:
  assumes "reads_markers env" "pn_exit_ok env" "cp_deadline p = None" "cp_data p = []"
  shows "pipe_next env p = PipeEnds"
proof -
  obtain p' where "pn_frame_len env p = (p', Inl FrameEOF)"
    using assms(1,3,4) unfolding reads_markers_def by blast
  with assms(2) show ?thesis by (simp add: pipe_next_def)
qed

definition relayed :: "pipe_body emission \<times> bytes \<times> rd_error option \<Rightarrow> u32 \<times> int \<times> bytes \<times> rd_error option" where
  "relayed x = (em_seq (fst x), em_size (fst x), snd x)"

lemma relayed_pair [simp]: "relayed (em, r) = (em_seq em, em_size em, r)"
  by (simp add: relayed_def)

lemma pipe_loop_frames:
  assumes env: "reads_markers env" "pn_exit_ok env" and k: "0 < k"
  shows "metas_ok env sq metas \<Longrightarrow> cp_deadline p = None \<Longrightarrow> cp_data p = concat (map framed_meta metas) \<Longrightarrow>
    length metas < n \<Longrightarrow>
    \<exists>ems. pipe_loop env k n p = (ems, Some PipeEnds) \<and> map relayed ems = map (\<lambda>m. (sq m, int (length m), m, Some RdEOF)) metas"
proof (induction metas arbitrary: n p)
  case Nil
  then obtain n' where "n = Suc n'" by (cases n) auto
  with pipe_next_eof [OF env] Nil.prems show ?case by simp
next
  case (Cons m metas)
  then obtain n' where n: "n = Suc n'" "length metas < n'" by (cases n) auto
  have p: "cp_data p = framed_meta m @ concat (map framed_meta metas)"
    using Cons.prems(3) by simp
  obtain b b' where em: "pipe_next env p = PipeEmits \<lparr>em_seq = sq m, em_size = int (length m), em_body = b\<rparr>"
    and drained: "drain body_read k (length m + 1) b [] = (b', m, Some RdEOF)"
    and rest: "cp_deadline (ft_pipe (by_tail b')) = None" "cp_data (ft_pipe (by_tail b')) = concat (map framed_meta metas)"
    using pipe_frame_step [OF env(1) k Cons.prems(2) p] Cons.prems(1) by auto
  from Cons.IH [OF _ rest n(2)] Cons.prems(1) obtain ems where
    "pipe_loop env k n' (ft_pipe (by_tail b')) = (ems, Some PipeEnds)"
    "map relayed ems = map (\<lambda>m. (sq m, int (length m), m, Some RdEOF)) metas"
    by auto
  with em drained n(1) show ?case by simp
qed

section \<open>Properties\<close>

text \<open>A marker parser, and a pipe with two frames read in pieces of at most three bytes.\<close>

definition parse_marker :: "child_pipe \<Rightarrow> child_pipe \<times> (frame_error + u32)" where
  "parse_marker p =
     (if ctx_ended p then (p, Inl FrameBroken)
      else if cp_data p = [] then (p, Inl FrameEOF)
      else if length (cp_data p) < 4 then (p\<lparr>cp_data := []\<rparr>, Inl FrameBroken)
      else
        let w = get_be32 (take 4 (cp_data p)); p = p\<lparr>cp_data := drop 4 (cp_data p)\<rparr> in
        if w AND 0x80000000 = 0 then (p, Inl FrameBroken) else (p, Inr (w AND 0x7FFFFFFF)))"

definition demo_env :: pipe_env where
  "demo_env = \<lparr>pn_frame_len = parse_marker, pn_ledger_seq = (\<lambda>m. Some (word_of_nat (length m))),
     pn_exit_ok = True, pn_pipe_ok = True, pn_start_ok = True\<rparr>"

definition demo_pipe :: child_pipe where
  "demo_pipe = \<lparr>cp_data = concat (map framed_meta [[1, 2, 3, 4], [5]]), cp_grants = [1, 3], cp_deadline = None\<rparr>"

lemma marker_word:
  assumes "n < 2 ^ 31"
  shows "(word_of_nat n OR 0x80000000 :: u32) AND 0x7FFFFFFF = word_of_nat n"
    "(word_of_nat n OR 0x80000000 :: u32) AND 0x80000000 \<noteq> 0"
proof -
  let ?w = "word_of_nat n :: u32"
  have "unat (take_bit 31 ?w) = unat ?w"
    using assms by (simp add: unsigned_take_bit_eq unat_of_nat_u32 take_bit_nat_eq_self)
  then have "take_bit 31 ?w = ?w"
    by (rule unsigned_word_eqI)
  moreover have "take_bit 31 (0x80000000 :: u32) = 0" by simp
  ultimately have "take_bit 31 (?w OR 0x80000000) = ?w"
    by (simp only: take_bit_or or.right_neutral)
  then show "(?w OR 0x80000000) AND 0x7FFFFFFF = ?w"
    by (simp add: take_bit_eq_mask mask_eq_exp_minus_1)
  have "bit ((?w OR 0x80000000) AND 0x80000000) 31"
    by (simp add: bit_simps)
  then show "(?w OR 0x80000000) AND 0x80000000 \<noteq> 0"
    by (metis bit_0_eq bot_apply bot_bool_def)
qed

lemma parse_frame_marker:
  assumes "n < 2 ^ 31" "cp_deadline p = None" "cp_data p = frame_marker n @ rest"
  shows "parse_marker p = (p\<lparr>cp_data := rest\<rparr>, Inr (word_of_nat n))"
proof -
  have len: "length (frame_marker n) = 4"
    by (simp add: frame_marker_def put_be32_def)
  then have "take 4 (frame_marker n @ rest) = frame_marker n" "drop 4 (frame_marker n @ rest) = rest"
      "frame_marker n @ rest \<noteq> []"
    by auto
  moreover have "get_be32 (frame_marker n) = word_of_nat n OR 0x80000000"
    by (simp add: frame_marker_def get_put_be32)
  ultimately show ?thesis
    using marker_word [OF assms(1)] assms(2,3) len
    by (simp add: parse_marker_def ctx_ended_def Let_def)
qed

lemma demo_env_ok: "reads_markers demo_env" "pn_exit_ok demo_env"
proof -
  have "parse_marker p = (p, Inl FrameEOF)" if "cp_deadline p = None" "cp_data p = []" for p
    using that by (simp add: parse_marker_def ctx_ended_def)
  then show "reads_markers demo_env"
    using parse_frame_marker by (auto simp: reads_markers_def demo_env_def)
qed (simp add: demo_env_def)

lemma demo_pipe_ok: "metas_ok demo_env (\<lambda>m. word_of_nat (length m)) [[1, 2, 3, 4], [5]]"
  "cp_deadline demo_pipe = None" "cp_data demo_pipe = concat (map framed_meta [[1, 2, 3, 4], [5]])"
  "pn_pipe_ok demo_env" "pn_start_ok demo_env"
  by (simp_all add: demo_env_def demo_pipe_def seqPrefixLen_def)

text \<open>
  C28: a stream of frames is relayed frame by frame. Whatever the kernel's and the consumer's read
  sizes, each frame of the child is one emission with its sequence and its length, its body
  reads as exactly the frame's bytes and ends in EOF, the next marker is found right after it,
  and a child that exits cleanly at a frame boundary ends the stream without an error.
\<close>

theorem pipe_relays_frames:
  assumes "reads_markers env" "pn_exit_ok env" "pn_pipe_ok env" "pn_start_ok env" "0 < k"
    and "metas_ok env sq metas" "cp_deadline p = None" "cp_data p = concat (map framed_meta metas)" "length metas < n"
  shows "\<exists>ems. PipeSource_Emissions env k n p = (ems, Some PipeEnds) \<and>
    map relayed ems = map (\<lambda>m. (sq m, int (length m), m, Some RdEOF)) metas"
  using pipe_loop_frames [OF assms(1,2,5,6-9)] assms(3,4) by (simp add: PipeSource_Emissions_def)

theorem pipe_relays_frames_witness:
  "\<exists>ems. PipeSource_Emissions demo_env 2 3 demo_pipe = (ems, Some PipeEnds) \<and>
     map relayed ems = [(4, 4, [1, 2, 3, 4], Some RdEOF), (1, 1, [5], Some RdEOF)]"
  using pipe_relays_frames [OF demo_env_ok demo_pipe_ok(4,5) _ demo_pipe_ok(1-3), of 2 3] by simp

text \<open>
  C26: a child that dies mid-frame never reads as a clean, shorter ledger. However a body is read,
  if the reads end in EOF then exactly the length the marker declared was handed out; a frame
  cut short, or a shutdown in the middle of it, ends in another error.
\<close>

theorem pipe_eof_is_whole_frame:
  assumes "pipe_next env p = PipeEmits em" "0 < k"
    and "drain body_read k n (em_body em) [] = (b, out, Some RdEOF)"
  shows "int (length out) = em_size em"
proof -
  have "int (body_left (em_body em)) = em_size em"
    using assms(1)
    by (auto simp: pipe_next_def body_left_def Let_def dest!: fillChunk_length [OF pipe_reads_within]
        split: prod.splits sum.splits option.splits if_splits)
  with drain_after_frame [OF assms(2,3)] show ?thesis by simp
qed

theorem pipe_eof_is_whole_frame_witness:
  "\<exists>em b out. pipe_next demo_env demo_pipe = PipeEmits em \<and>
     drain body_read 3 5 (em_body em) [] = (b, out, Some RdEOF) \<and> int (length out) = em_size em"
proof -
  obtain bd where em: "pipe_next demo_env demo_pipe = PipeEmits \<lparr>em_seq = 4, em_size = 4, em_body = bd\<rparr>"
    and bd: "body_calm bd" "body_pending bd = [1, 2, 3, 4]"
    using pipe_next_frame [OF demo_env_ok(1), of demo_pipe "[1, 2, 3, 4]" "framed_meta [5]" 4]
    by (auto simp: demo_pipe_def demo_env_def seqPrefixLen_def)
  obtain b where drained: "drain body_read 3 5 bd [] = (b, [1, 2, 3, 4], Some RdEOF)"
    using whole_frame.drain_calm [OF bd(1), of 3 5 "[]"] bd(2) by auto
  from pipe_eof_is_whole_frame [OF em, of 3 5 b "[1, 2, 3, 4]"] drained em show ?thesis
    by fastforce
qed

end
