(* ===== verification/Daemon.thy ===== *)
theory Daemon
  imports Serve Captive File_Source Synthetic Pipe_Source
begin

text \<open>
  \<^verbatim>\<open>cmd/corestreamd/main.go\<close>: the daemon. The options its flags set (theory \<open>Command_Line\<close> reads
  them), the checks of \<^verbatim>\<open>parseFlags\<close> in their order, the source, range and server configuration \<^verbatim>\<open>run\<close> builds of
  them, the check of a dump directory against the server's own ring, and the two services
  that end together. A Go \<^verbatim>\<open>uint\<close> is a 64-bit word, durations are nanoseconds.

  The lemmas: options that pass the checks make a range that does not wrap and a
  configuration the server accepts; the services stop together and no error is lost.
\<close>

section \<open>Flags\<close>

record daemon_options =
  od_listen :: string
  od_source :: string
  od_retention :: int
  od_pipe_bytes :: int
  od_start :: u64
  od_data_dir :: string
  od_log_level :: string
  od_chunk :: int
  od_compress :: bool
  od_workers :: int
  od_window :: int
  od_cadence :: int
  od_core_binary :: string
  od_core_config :: string
  od_archives :: string
  od_storage_dir :: string
  od_passphrase :: string
  od_file_dir :: string
  od_pipe_cmd :: string
  od_file_count :: u64
  od_syn_size :: int
  od_syn_compressible :: bool
  od_syn_interval :: int
  od_syn_count :: u64

definition millisecond :: int where "millisecond = 10 ^ 6"

definition default_options :: daemon_options where
  "default_options = \<lparr>od_listen = '':8462'', od_source = ''synthetic'', od_retention = 10000,
     od_pipe_bytes = DefaultPipeBytes, od_start = 0, od_data_dir = ''corestreamd-data'', od_log_level = ''info'',
     od_chunk = DefaultChunkSize, od_compress = True, od_workers = 0, od_window = 15 * millisecond,
     od_cadence = 600 * millisecond, od_core_binary = [], od_core_config = [], od_archives = [], od_storage_dir = [],
     od_passphrase = [], od_file_dir = [], od_pipe_cmd = [], od_file_count = 0,
     od_syn_size = DefaultSyntheticSize, od_syn_compressible = False, od_syn_interval = 1000 * millisecond,
     od_syn_count = 0\<rparr>"

datatype flag_error =
    FlagExtraArgument string
  | FlagSource string
  | FlagStartTooLarge u64
  | FlagSyntheticCount u64
  | FlagFileCount u64
  | FlagChunkSize int
  | FlagNegativeWindow int
  | FlagNegativeCadence int
  | FlagWindowOverCadence int int
  | FlagWindowOverInterval int int
  | FlagLastSequence
  | FlagSyntheticSize int
  | FlagStartRequired
  | FlagConfigRequired
  | FlagArchivesRequired
  | FlagFileDirRequired
  | FlagPipeCmdRequired

text \<open>The count flag of the configured source, and the highest sequence it is known to reach.\<close>

definition ledgerCount :: "daemon_options \<Rightarrow> u32" where
  "ledgerCount opt =
     (if od_source opt = ''synthetic'' then ucast (od_syn_count opt)
      else if od_source opt = ''file'' then ucast (od_file_count opt)
      else 0)"

definition start_or_one :: "u64 \<Rightarrow> u64" where
  "start_or_one start = (if start = 0 then 1 else start)"

definition lastSequence :: "daemon_options \<Rightarrow> u64" where
  "lastSequence opt =
     (if ledgerCount opt > 0 then start_or_one (od_start opt) + ucast (ledgerCount opt) - 1
      else start_or_one (od_start opt))"

text \<open>The checks of \<open>parseFlags\<close> after parsing; \<open>args\<close> are the arguments left over.\<close>

definition check_source_flags :: "daemon_options \<Rightarrow> flag_error option" where
  "check_source_flags opt =
     (if od_source opt = ''captive'' then
        (if od_start opt = 0 then Some FlagStartRequired
         else if od_core_config opt = [] then Some FlagConfigRequired
         else if od_archives opt = [] then Some FlagArchivesRequired
         else None)
      else if od_source opt = ''file'' \<and> od_file_dir opt = [] then Some FlagFileDirRequired
      else if od_source opt = ''pipe'' \<and> od_pipe_cmd opt = [] then Some FlagPipeCmdRequired
      else None)"

definition check_flags :: "daemon_options \<Rightarrow> string list \<Rightarrow> flag_error option" where
  "check_flags opt args =
     (if args \<noteq> [] then Some (FlagExtraArgument (hd args))
      else if od_source opt \<notin> {''captive'', ''synthetic'', ''file'', ''pipe''} then Some (FlagSource (od_source opt))
      else if od_start opt > ucast max_u32 then Some (FlagStartTooLarge (od_start opt))
      else if od_syn_count opt > ucast max_u32 then Some (FlagSyntheticCount (od_syn_count opt))
      else if od_file_count opt > ucast max_u32 then Some (FlagFileCount (od_file_count opt))
      else if \<not> ValidateChunkSize (od_chunk opt) then Some (FlagChunkSize (od_chunk opt))
      else if od_window opt < 0 then Some (FlagNegativeWindow (od_window opt))
      else if od_cadence opt < 0 then Some (FlagNegativeCadence (od_cadence opt))
      else if od_source opt = ''file'' \<and> od_cadence opt > 0 \<and> od_window opt > od_cadence opt
        then Some (FlagWindowOverCadence (od_window opt) (od_cadence opt))
      else if od_source opt = ''synthetic'' \<and> od_syn_interval opt > 0 \<and> od_window opt > od_syn_interval opt
        then Some (FlagWindowOverInterval (od_window opt) (od_syn_interval opt))
      else if lastSequence opt \<ge> ucast max_u32 then Some FlagLastSequence
      else if od_syn_size opt > DefaultMaxPayloadSize then Some (FlagSyntheticSize (od_syn_size opt))
      else check_source_flags opt)"

section \<open>The dump directory\<close>

text \<open>
  \<open>abspath\<close> is \<^verbatim>\<open>filepath.Abs\<close>, \<open>stat\<close> the identity of the directory a path leads to, if it exists;
  \<open>ring\<close> is the path of the server's own ring.
\<close>

definition validateFileDir :: "(string \<Rightarrow> string option) \<Rightarrow> (string \<Rightarrow> 'i option) \<Rightarrow> string \<Rightarrow> string \<Rightarrow> bool" where
  "validateFileDir abspath stat fileDir ring =
     (let same = (case (abspath fileDir, abspath ring) of (Some a, Some b) \<Rightarrow> a = b | _ \<Rightarrow> False);
          same = (if \<not> same then (case (stat fileDir, stat ring) of (Some a, Some b) \<Rightarrow> a = b | _ \<Rightarrow> False) else same)
      in \<not> same)"

section \<open>The source, the range and the server\<close>

fun split_at :: "char \<Rightarrow> string \<Rightarrow> string list" where
  "split_at sep [] = [[]]"
| "split_at sep (c # cs) =
     (if c = sep then [] # split_at sep cs
      else case split_at sep cs of [] \<Rightarrow> [[c]] | p # ps \<Rightarrow> (c # p) # ps)"

definition splitURLs :: "string \<Rightarrow> string list" where
  "splitURLs csv = filter (\<lambda>u. u \<noteq> []) (map trim_space (split_at (CHR '','') csv))"

text \<open>
  What feeds the server: a ledger stream under \<open>PacedSource\<close> with its window and cadence, or
  the pipe. \<open>join\<close> is \<^verbatim>\<open>filepath.Join\<close>.
\<close>

datatype source_plan =
    PlanSynthetic int bool int int
  | PlanFile string int int
  | PlanPipe string int
  | PlanCaptive captive_config int int

definition start_ledger :: "daemon_options \<Rightarrow> u32" where
  "start_ledger opt = (if (ucast (od_start opt) :: u32) = 0 then 1 else ucast (od_start opt))"

definition daemon_plan :: "(string \<Rightarrow> string \<Rightarrow> string) \<Rightarrow> daemon_options \<Rightarrow> (source_plan \<times> ledger_range) option" where
  "daemon_plan join opt =
     (let start = start_ledger opt; unbounded = \<lparr>rg_from = start, rg_to = 0, rg_bounded = False\<rparr> in
      if od_source opt = ''synthetic'' then
        Some (PlanSynthetic (NewSyntheticStream (od_syn_size opt)) (od_syn_compressible opt) (od_window opt) (od_syn_interval opt),
              CountedRange start (ledgerCount opt))
      else if od_source opt = ''file'' then
        Some (PlanFile (od_file_dir opt) (od_window opt) (od_cadence opt), CountedRange start (ledgerCount opt))
      else if od_source opt = ''pipe'' then Some (PlanPipe (od_pipe_cmd opt) (od_pipe_bytes opt), unbounded)
      else if od_source opt = ''captive'' then
        Some (PlanCaptive \<lparr>ca_binary = od_core_binary opt, ca_config = od_core_config opt,
                ca_storage = (if od_storage_dir opt = [] then join (od_data_dir opt) ''captive-core'' else od_storage_dir opt),
                ca_urls = splitURLs (od_archives opt), ca_passphrase = od_passphrase opt, ca_agent = []\<rparr> 0 0,
              unbounded)
      else None)"

definition daemon_config :: "daemon_options \<Rightarrow> ledger_range \<Rightarrow> server_config" where
  "daemon_config opt rng = \<lparr>cf_source = True, cf_store = True, cf_chunk_size = od_chunk opt, cf_compress = od_compress opt,
     cf_workers = od_workers opt, cf_range = rng\<rparr>"

text \<open>
  \<^verbatim>\<open>run\<close> from the checked flags up to the listener: the source (building it may fail), the ring,
  the server. A source of no known name is refused by the checks.
\<close>

datatype start_error =
    StartOwnRing
  | StartSource
  | StartRing store_error
  | StartServer config_error

definition build_source :: "captive_env \<Rightarrow> source_plan \<Rightarrow> disk \<Rightarrow> bool \<times> disk" where
  "build_source cenv plan d =
     (case plan of
        PlanFile dr _ _ \<Rightarrow> (case NewFileStream dr d of (Inl _, d) \<Rightarrow> (False, d) | (Inr _, d) \<Rightarrow> (True, d))
      | PlanCaptive cfg _ _ \<Rightarrow> (case NewCaptiveSource cenv cfg of Inl _ \<Rightarrow> (False, d) | Inr _ \<Rightarrow> (True, d))
      | _ \<Rightarrow> (True, d))"

definition daemon_start ::
  "(string \<Rightarrow> string \<Rightarrow> string) \<Rightarrow> (string \<Rightarrow> string option) \<Rightarrow> (string \<Rightarrow> 'i option) \<Rightarrow> captive_env
   \<Rightarrow> (int \<Rightarrow> nat \<Rightarrow> encoder option) \<Rightarrow> daemon_options \<Rightarrow> disk
   \<Rightarrow> (start_error + source_plan \<times> store \<times> server) \<times> disk" where
  "daemon_start join abspath stat cenv mk opt d =
     (let ring = join (od_data_dir opt) ''ledgers'' in
      case daemon_plan join opt of
        None \<Rightarrow> (Inl StartSource, d)
      | Some (plan, rng) \<Rightarrow>
          if od_source opt = ''file'' \<and> \<not> validateFileDir abspath stat (od_file_dir opt) ring then (Inl StartOwnRing, d)
          else (case build_source cenv plan d of (built, d) \<Rightarrow>
            if \<not> built then (Inl StartSource, d)
            else (case Open ring (od_retention opt) d of
                    (Inl e, d) \<Rightarrow> (Inl (StartRing e), d)
                  | (Inr s, d) \<Rightarrow>
                      (case New mk (daemon_config opt rng) of
                         Inl e \<Rightarrow> (Inl (StartServer e), d)
                       | Inr srv \<Rightarrow> (Inr (plan, s, srv), d)))))"

section \<open>Running the services\<close>

text \<open>
  The source loop, the HTTP server and the goroutine that shuts the latter down, under one
  context. \<open>None\<close> is a nil error; \<open>HttpClosed\<close> is \<^verbatim>\<open>http.ErrServerClosed\<close>, which the server
  returns only after a shutdown. \<open>sx_errs\<close> is the channel's content.
\<close>

datatype http_result = HttpClosed | HttpFailed string

record services =
  sx_source :: bool
  sx_http :: bool
  sx_ctx :: bool
  sx_shutdown :: bool
  sx_joined :: bool
  sx_errs :: "string option list"

definition services_start :: services where
  "services_start = \<lparr>sx_source = True, sx_http = True, sx_ctx = True, sx_shutdown = False, sx_joined = False, sx_errs = []\<rparr>"

definition http_error :: "http_result \<Rightarrow> string option" where
  "http_error r = (case r of HttpClosed \<Rightarrow> None | HttpFailed e \<Rightarrow> Some (''http server: '' @ e))"

inductive svc_step :: "services \<Rightarrow> services \<Rightarrow> bool" where
  svc_signal: "svc_step s (s\<lparr>sx_ctx := False\<rparr>)"
| svc_source: "sx_source s \<Longrightarrow> svc_step s (s\<lparr>sx_source := False, sx_ctx := False, sx_errs := sx_errs s @ [e]\<rparr>)"
| svc_http: "sx_http s \<Longrightarrow> r = HttpClosed \<longrightarrow> sx_shutdown s \<Longrightarrow>
    svc_step s (s\<lparr>sx_http := False, sx_ctx := False, sx_errs := sx_errs s @ [http_error r]\<rparr>)"
| svc_shutdown: "\<not> sx_ctx s \<Longrightarrow> \<not> sx_shutdown s \<Longrightarrow> svc_step s (s\<lparr>sx_shutdown := True\<rparr>)"
| svc_stopped: "sx_shutdown s \<Longrightarrow> \<not> sx_joined s \<Longrightarrow> svc_step s (s\<lparr>sx_joined := True\<rparr>)"

inductive_cases svc_stepE: "svc_step s s'"

definition svc_reach :: "services \<Rightarrow> bool" where
  "svc_reach s \<longleftrightarrow> svc_step\<^sup>*\<^sup>* services_start s"

text \<open>\<^verbatim>\<open>wg.Wait\<close> returns when all three goroutines have; the result joins the errors.\<close>

definition svc_returns :: "services \<Rightarrow> bool" where
  "svc_returns s \<longleftrightarrow> \<not> sx_source s \<and> \<not> sx_http s \<and> sx_joined s"

definition joined_errors :: "services \<Rightarrow> string list" where
  "joined_errors s = List.map_filter (\<lambda>e. e) (sx_errs s)"

section \<open>What checked options give\<close>

definition plan_range :: "daemon_options \<Rightarrow> ledger_range" where
  "plan_range opt = CountedRange (start_ledger opt) (ledgerCount opt)"

lemma check_flags_None:
  assumes "check_flags opt args = None"
  shows "od_source opt \<in> {''captive'', ''synthetic'', ''file'', ''pipe''}" "od_start opt \<le> ucast max_u32"
    "ValidateChunkSize (od_chunk opt)" "lastSequence opt < ucast max_u32"
  using assms by (auto simp: check_flags_def split: if_splits)

lemma daemon_plan_range:
  "daemon_plan join opt = Some (plan, rng) \<Longrightarrow> rng = plan_range opt"
  by (auto simp: daemon_plan_def plan_range_def ledgerCount_def CountedRange_def Let_def split: if_splits)

lemma daemon_plan_total: "check_flags opt args = None \<Longrightarrow> \<exists>plan. daemon_plan join opt = Some (plan, plan_range opt)"
  using check_flags_None(1) [of opt args]
  by (auto simp: daemon_plan_def plan_range_def ledgerCount_def CountedRange_def Let_def)

lemma unat_ucast_u64: "unat (ucast w :: u64) = unat w" for w :: u32
  by (simp add: unsigned_ucast_eq, rule take_bit_nat_eq_self, rule less_trans [OF unat_lt_u32]) simp

text \<open>The range's arithmetic is 32-bit, the check's 64-bit: they agree where the check passes.\<close>

lemma start_unat:
  assumes "od_start opt \<le> ucast max_u32"
  shows "unat (start_ledger opt) = unat (start_or_one (od_start opt))"
proof -
  have "unat (od_start opt) < 2 ^ 32"
    using assms by (simp add: word_le_nat_alt unat_ucast_u64)
  then have "unat (ucast (od_start opt) :: u32) = unat (od_start opt)"
    by (simp add: unsigned_ucast_eq take_bit_nat_eq_self)
  then show ?thesis
    by (auto simp: start_ledger_def start_or_one_def unat_eq_0 dest: arg_cong [of _ 0 unat])
qed

lemma last_unat:
  assumes "od_start opt \<le> ucast max_u32" "0 < ledgerCount opt"
  shows "unat (lastSequence opt) = unat (start_or_one (od_start opt)) + unat (ledgerCount opt) - 1"
proof -
  let ?s = "start_or_one (od_start opt)" and ?c = "ucast (ledgerCount opt) :: u64"
  have s: "unat ?s < 2 ^ 32"
    using assms(1) by (auto simp: start_or_one_def word_le_nat_alt unat_ucast_u64)
  have c: "unat ?c = unat (ledgerCount opt)" "unat ?c < 2 ^ 32" "0 < unat ?c"
    using unat_lt_u32 [of "ledgerCount opt"] assms(2)
    by (simp_all add: unat_ucast_u64 word_less_nat_alt)
  have "unat (?s + ?c) = unat ?s + unat ?c"
    using s c(2) by (subst unat_add_lem [THEN iffD1]) auto
  moreover from this have "unat (?s + ?c - 1) = unat (?s + ?c) - 1"
    using c(3) by (intro unat_minus_one) (auto simp: unat_eq_0 [symmetric])
  ultimately show ?thesis
    using assms(2) c(1) by (simp add: lastSequence_def)
qed

lemma plan_range_fits:
  assumes "check_flags opt args = None"
  shows "rg_from (plan_range opt) \<noteq> 0" "rg_from (plan_range opt) < max_u32"
    and "rg_bounded (plan_range opt) \<Longrightarrow> rg_from (plan_range opt) \<le> rg_to (plan_range opt) \<and>
      rg_to (plan_range opt) < max_u32 \<and>
      unat (rg_to (plan_range opt)) + 1 = unat (rg_from (plan_range opt)) + unat (ledgerCount opt)"
proof -
  note chk = check_flags_None [OF assms]
  have start: "unat (start_ledger opt) = unat (start_or_one (od_start opt))"
    by (rule start_unat [OF chk(2)])
  have limit: "unat (lastSequence opt) < 4294967295"
    using chk(4) by (simp add: word_less_nat_alt unat_ucast_u64)
  show nz: "rg_from (plan_range opt) \<noteq> 0"
    by (simp add: plan_range_def start_ledger_def)
  show "rg_from (plan_range opt) < max_u32"
  proof (cases "ledgerCount opt = 0")
    case True
    then show ?thesis
      using limit start by (simp add: plan_range_def lastSequence_def word_less_nat_alt)
  next
    case False
    then have "0 < ledgerCount opt" by (simp add: word_gt_0)
    moreover from this have "0 < unat (ledgerCount opt)" by (simp add: word_less_nat_alt)
    ultimately show ?thesis
      using limit start last_unat [OF chk(2)] by (simp add: plan_range_def word_less_nat_alt)
  qed
  show "rg_from (plan_range opt) \<le> rg_to (plan_range opt) \<and> rg_to (plan_range opt) < max_u32 \<and>
      unat (rg_to (plan_range opt)) + 1 = unat (rg_from (plan_range opt)) + unat (ledgerCount opt)"
    if "rg_bounded (plan_range opt)"
  proof -
    have c: "ledgerCount opt \<noteq> 0" "0 < ledgerCount opt" "0 < unat (ledgerCount opt)"
      using that by (simp_all add: plan_range_def word_gt_0 unat_gt_0)
    have sum: "unat (start_ledger opt) + unat (ledgerCount opt) - 1 < 4294967295"
      using limit last_unat [OF chk(2) c(2)] start by simp
    then have "unat (start_ledger opt) + unat (ledgerCount opt) \<le> 2 ^ 32" by simp
    from counted_range_order [OF c(1) this] sum c(3) show ?thesis
      by (simp add: plan_range_def word_less_nat_alt)
  qed
qed

section \<open>The services end together\<close>

definition svc_inv :: "services \<Rightarrow> bool" where
  "svc_inv s \<longleftrightarrow> length (sx_errs s) + (if sx_source s then 1 else 0) + (if sx_http s then 1 else 0) = 2 \<and>
     (\<not> sx_source s \<or> \<not> sx_http s \<or> sx_shutdown s \<longrightarrow> \<not> sx_ctx s) \<and> (sx_joined s \<longrightarrow> sx_shutdown s)"

lemma svc_step_inv: "svc_step s s' \<Longrightarrow> svc_inv s \<Longrightarrow> svc_inv s'"
  by (induction rule: svc_step.induct) (auto simp: svc_inv_def split: if_splits)

lemma svc_reach_inv: "svc_reach s \<Longrightarrow> svc_inv s"
  unfolding svc_reach_def
  by (induction rule: rtranclp_induct) (simp add: svc_inv_def services_start_def, rule svc_step_inv)

lemma svc_can_return:
  assumes "svc_inv s"
  shows "\<exists>s'. svc_step\<^sup>*\<^sup>* s s' \<and> svc_returns s'"
proof -
  note step = rtranclp.rtrancl_into_rtrancl [where r = svc_step]
  define a where "a = s\<lparr>sx_ctx := False\<rparr>"
  have a: "svc_step\<^sup>*\<^sup>* s a" "\<not> sx_ctx a"
    by (auto simp: a_def intro: svc_signal)
  define b where "b = (if sx_shutdown a then a else a\<lparr>sx_shutdown := True\<rparr>)"
  have b: "svc_step\<^sup>*\<^sup>* s b" "sx_shutdown b"
    using a by (auto simp: b_def intro: step svc_shutdown)
  define c where "c = (if sx_joined b then b else b\<lparr>sx_joined := True\<rparr>)"
  have c: "svc_step\<^sup>*\<^sup>* s c" "sx_shutdown c" "sx_joined c"
    using b by (auto simp: c_def intro: step svc_stopped)
  define e where "e = (if sx_source c then c\<lparr>sx_source := False, sx_ctx := False, sx_errs := sx_errs c @ [None]\<rparr> else c)"
  have e: "svc_step\<^sup>*\<^sup>* s e" "sx_shutdown e" "sx_joined e" "\<not> sx_source e"
    using c by (auto simp: e_def intro: step svc_source)
  define f where "f = (if sx_http e then e\<lparr>sx_http := False, sx_ctx := False, sx_errs := sx_errs e @ [http_error HttpClosed]\<rparr> else e)"
  have "svc_step\<^sup>*\<^sup>* s f" "svc_returns f"
    using e by (auto simp: f_def svc_returns_def intro: step svc_http)
  then show ?thesis by blast
qed

section \<open>Starting\<close>

lemma checked_flags_start:
  assumes "check_flags opt args = None"
    and "validateCompressWorkers (od_workers opt) \<noteq> None" "od_compress opt \<Longrightarrow> \<forall>n w. mk n w \<noteq> None"
  shows "\<exists>plan rng srv. daemon_plan join opt = Some (plan, rng) \<and> New mk (daemon_config opt rng) = Inr srv \<and>
    sv_range srv = rng \<and> sv_chunk srv = od_chunk opt \<and> rg_from rng \<noteq> 0 \<and> rg_from rng < max_u32 \<and>
    (rg_bounded rng \<longrightarrow> rg_from rng \<le> rg_to rng \<and> rg_to rng < max_u32 \<and>
       unat (rg_to rng) + 1 = unat (rg_from rng) + unat (ledgerCount opt))"
proof -
  obtain plan where plan: "daemon_plan join opt = Some (plan, plan_range opt)"
    using daemon_plan_total [OF assms(1)] by blast
  note fits = plan_range_fits [OF assms(1)]
  have chunk: "ValidateChunkSize (od_chunk opt)" "od_chunk opt \<noteq> 0"
    using check_flags_None(3) [OF assms(1)] by (auto simp: ValidateChunkSize_def MinChunkSize_def)
  obtain w where w: "validateCompressWorkers (od_workers opt) = Some w"
    using assms(2) by blast
  obtain e re where "od_compress opt \<Longrightarrow> newEncoder mk w (od_chunk opt) = Some e"
      "od_compress opt \<Longrightarrow> newEncoder mk ringEncoderConcurrency (od_chunk opt) = Some re"
    using assms(3) unfolding newEncoder_def by (cases "od_compress opt") (blast, simp)
  with chunk w fits have "\<exists>srv. New mk (daemon_config opt (plan_range opt)) = Inr srv \<and>
      sv_range srv = plan_range opt \<and> sv_chunk srv = od_chunk opt"
    by (auto simp: New_def daemon_config_def Let_def not_less)
  with plan fits show ?thesis by blast
qed

section \<open>Properties\<close>


lemma default_options_pass: "check_flags default_options [] = None"
  by (simp add: check_flags_def default_options_def check_source_flags_def lastSequence_def start_or_one_def
      ledgerCount_def ValidateChunkSize_def MinChunkSize_def MaxChunkSize_def DefaultChunkSize_def millisecond_def
      DefaultSyntheticSize_def DefaultMaxPayloadSize_def word_le_nat_alt)



definition source_failed :: services where
  "source_failed = services_start\<lparr>sx_source := False, sx_ctx := False, sx_errs := [Some ''boom'']\<rparr>"


end
