(* ===== verification/Bench.thy ===== *)
theory Bench
  imports Daemon Client Flags
begin

text \<open>
  \<^verbatim>\<open>cmd/benchrunner\<close>: the measuring client. Its flags and their checks, the samples it collects
  (\<^verbatim>\<open>stats.go\<close>), the report and the CSV rows made of them, the check of received payloads
  against the regenerated ones, and the local tap over the pipe source. Times are nanoseconds
  of the monotonic clock; the report's lines keep the numbers they are formatted from.

  The lemmas: percentiles are nearest-rank; the gaps between arrivals add up to the elapsed
  time; verification accepts exactly the fabricated stream.
\<close>

section \<open>Flags\<close>

record bench_options =
  bo_mode :: string
  bo_url :: string
  bo_start :: u64
  bo_end :: u64
  bo_csv :: string
  bo_syn_size :: int
  bo_syn_interval :: int
  bo_window :: int
  bo_chunk :: int
  bo_compress :: bool
  bo_remote_compressible :: bool
  bo_count :: u64
  bo_verify :: bool
  bo_pipe_cmd :: string
  bo_pipe_bytes :: int
  bo_core_binary :: string
  bo_core_config :: string
  bo_archives :: string
  bo_storage_dir :: string
  bo_passphrase :: string

datatype bench_error =
    BenchExtraArgument string
  | BenchSequence
  | BenchEndBeforeStart u64 u64
  | BenchChunkSize int
  | BenchNegativeWindow int
  | BenchWindowOverInterval int int
  | BenchCountZero
  | BenchPipeCmdRequired
  | BenchStartRequired
  | BenchConfigRequired
  | BenchArchivesRequired
  | BenchMode string

definition check_bench_mode :: "bench_options \<Rightarrow> bench_error option" where
  "check_bench_mode opt =
     (if bo_mode opt = ''loopback'' then (if bo_count opt = 0 then Some BenchCountZero else None)
      else if bo_mode opt = ''remote'' then None
      else if bo_mode opt = ''localtap'' then (if bo_pipe_cmd opt = [] then Some BenchPipeCmdRequired else None)
      else if bo_mode opt = ''local'' then
        (if bo_start opt = 0 then Some BenchStartRequired
         else if bo_core_config opt = [] then Some BenchConfigRequired
         else if bo_archives opt = [] then Some BenchArchivesRequired
         else None)
      else Some (BenchMode (bo_mode opt)))"

definition check_bench_flags :: "bench_options \<Rightarrow> string list \<Rightarrow> bench_error option" where
  "check_bench_flags opt args =
     (if args \<noteq> [] then Some (BenchExtraArgument (hd args))
      else if bo_start opt > ucast max_u32 \<or> bo_end opt > ucast max_u32 \<or> bo_count opt > ucast max_u32
        then Some BenchSequence
      else if bo_end opt \<noteq> 0 \<and> bo_start opt > bo_end opt then Some (BenchEndBeforeStart (bo_end opt) (bo_start opt))
      else if \<not> ValidateChunkSize (bo_chunk opt) then Some (BenchChunkSize (bo_chunk opt))
      else if bo_window opt < 0 then Some (BenchNegativeWindow (bo_window opt))
      else if bo_mode opt = ''loopback'' \<and> bo_syn_interval opt > 0 \<and> bo_window opt > bo_syn_interval opt
        then Some (BenchWindowOverInterval (bo_window opt) (bo_syn_interval opt))
      else check_bench_mode opt)"

definition rangeFrom :: "bench_options \<Rightarrow> ledger_range" where
  "rangeFrom opt =
     (if bo_end opt \<noteq> 0 then \<lparr>rg_from = ucast (bo_start opt), rg_to = ucast (bo_end opt), rg_bounded = True\<rparr>
      else \<lparr>rg_from = ucast (bo_start opt), rg_to = 0, rg_bounded = False\<rparr>)"

definition bench_defaults :: bench_options where
  "bench_defaults = \<lparr>bo_mode = ''loopback'', bo_url = ''ws://127.0.0.1:8462'', bo_start = 0, bo_end = 0, bo_csv = [],
     bo_syn_size = DefaultSyntheticSize, bo_syn_interval = 10 * millisecond, bo_window = 5 * millisecond,
     bo_chunk = DefaultChunkSize, bo_compress = False, bo_remote_compressible = False, bo_count = 100, bo_verify = False,
     bo_pipe_cmd = [], bo_pipe_bytes = DefaultPipeBytes, bo_core_binary = [], bo_core_config = [], bo_archives = [],
     bo_storage_dir = [], bo_passphrase = []\<rparr>"

text \<open>Loopback: the range of the server and the range the client asks for.\<close>

definition loopback_start :: "bench_options \<Rightarrow> u32" where
  "loopback_start opt = (if (ucast (bo_start opt) :: u32) = 0 then 1 else ucast (bo_start opt))"

definition loopback_ranges :: "bench_options \<Rightarrow> ledger_range \<times> ledger_range" where
  "loopback_ranges opt =
     (let start = loopback_start opt; final = start + ucast (bo_count opt) - 1
      in (CountedRange start (ucast (bo_count opt)), \<lparr>rg_from = start, rg_to = final, rg_bounded = True\<rparr>))"

text \<open>The ring's retention and the server of the loopback: room for every ledger, and no more workers than the default.\<close>

definition loopback_retention :: "bench_options \<Rightarrow> int" where
  "loopback_retention opt = sint (bo_count opt) + 1"

definition loopback_config :: "bench_options \<Rightarrow> server_config" where
  "loopback_config opt = \<lparr>cf_source = True, cf_store = True, cf_chunk_size = bo_chunk opt, cf_compress = bo_compress opt,
     cf_workers = 0, cf_range = fst (loopback_ranges opt)\<rparr>"

definition fmtBytes :: "nat \<Rightarrow> string" where
  "fmtBytes n =
     (if n \<ge> 2 ^ 20 \<and> n mod 2 ^ 20 = 0 then format_uint (n div 2 ^ 20) @ ''MiB''
      else if n \<ge> 2 ^ 10 \<and> n mod 2 ^ 10 = 0 then format_uint (n div 2 ^ 10) @ ''KiB''
      else format_uint n @ ''B'')"

section \<open>Samples\<close>

text \<open>Optional metrics carry their \<^verbatim>\<open>has\<close> flag as an option.\<close>

record sample =
  sm_seq :: u32
  sm_bytes :: nat
  sm_chunks :: nat
  sm_since :: int
  sm_delivery :: "int option"
  sm_pipeline :: "int option"
  sm_emit :: "int option"
  sm_discarded :: nat

record collector =
  col_label :: string
  col_start :: "int option"
  col_samples :: "sample list"
  col_bytes :: nat

definition newCollector :: "string \<Rightarrow> collector" where
  "newCollector label = \<lparr>col_label = label, col_start = None, col_samples = [], col_bytes = 0\<rparr>"

definition collector_add :: "collector \<Rightarrow> int \<Rightarrow> sample \<Rightarrow> collector" where
  "collector_add c now s =
     (let start = (case col_start c of None \<Rightarrow> now | Some t \<Rightarrow> t) in
      c\<lparr>col_start := Some start, col_samples := col_samples c @ [s\<lparr>sm_since := now - start\<rparr>],
        col_bytes := col_bytes c + sm_bytes s\<rparr>)"

definition elapsed :: "collector \<Rightarrow> int" where
  "elapsed c = (if col_samples c = [] then 0 else sm_since (last (col_samples c)))"

fun gaps :: "sample list \<Rightarrow> int list" where
  "gaps (a # b # ss) = (sm_since b - sm_since a) # gaps (b # ss)"
| "gaps _ = []"

definition interArrivals :: "collector \<Rightarrow> int list" where
  "interArrivals c = gaps (col_samples c)"

definition durations :: "(sample \<Rightarrow> int option) \<Rightarrow> collector \<Rightarrow> int list" where
  "durations metric c = List.map_filter metric (col_samples c)"

definition fallbacks :: "collector \<Rightarrow> nat" where
  "fallbacks c = sum_list (map sm_discarded (col_samples c))"

definition chunked :: "collector \<Rightarrow> bool" where
  "chunked c \<longleftrightarrow> (\<exists>s \<in> set (col_samples c). sm_chunks s > 0)"

text \<open>Nearest rank over an already sorted list.\<close>

definition percentile :: "int list \<Rightarrow> int \<Rightarrow> int" where
  "percentile sorted_ds p =
     (if sorted_ds = [] then 0
      else
        let n = int (length sorted_ds);
            idx = (p * n + 99) div 100 - 1;
            idx = (if idx < 0 then 0 else idx);
            idx = (if idx \<ge> n then n - 1 else idx)
        in sorted_ds ! nat idx)"

section \<open>The report\<close>

datatype report_line =
    LineLabel string
  | LineNone
  | LineLedgers nat u32 u32
  | LineBytes nat nat
  | LineElapsed int
  | LineThroughput nat int nat
  | LinePercentiles string int int int int
  | LineNotAvailable string
  | LineNoStamps
  | LineExcluded nat
  | LineFallbacks nat

definition percentileLine :: "string \<Rightarrow> int list \<Rightarrow> report_line" where
  "percentileLine label ds =
     (if ds = [] then LineNotAvailable label
      else let sorted_ds = sort ds in
        LinePercentiles label (percentile sorted_ds 50) (percentile sorted_ds 90) (percentile sorted_ds 99) (last sorted_ds))"

definition summary :: "collector \<Rightarrow> report_line list" where
  "summary c =
     LineLabel (col_label c) #
     (if col_samples c = [] then [LineNone]
      else
        let n = length (col_samples c); ds = durations sm_delivery c; emits = durations sm_emit c;
            ps = durations sm_pipeline c; missing = n - length ds in
        [LineLedgers n (sm_seq (hd (col_samples c))) (sm_seq (last (col_samples c))), LineBytes (col_bytes c) n,
         LineElapsed (elapsed c)] @
        (if elapsed c > 0 then [LineThroughput (n - 1) (elapsed c) (col_bytes c)] else []) @
        [percentileLine ''inter-arrival'' (interArrivals c)] @
        (if ds = [] then [LineNoStamps]
         else (if emits \<noteq> [] then [percentileLine ''t_emit'' emits] else []) @
              [percentileLine ''delivery'' ds] @
              (if ps \<noteq> [] then [percentileLine ''pipeline'' ps] else []) @
              (if missing > 0 then [LineExcluded missing] else [])) @
        (if chunked c then [LineFallbacks (fallbacks c)] else []))"

section \<open>CSV rows\<close>

definition csv_header :: "string list" where
  "csv_header = [''sequence'', ''bytes'', ''chunks'', ''since_start_ns'', ''inter_arrival_ns'', ''emit_ns'',
     ''delivery_ns'', ''pipeline_ns'', ''discarded_partials'']"

definition optional_cell :: "int option \<Rightarrow> string" where
  "optional_cell d = (case d of None \<Rightarrow> [] | Some ns \<Rightarrow> format_int ns)"

definition csv_row :: "sample \<Rightarrow> int \<Rightarrow> string list" where
  "csv_row s gap = [format_uint (unat (sm_seq s)), format_uint (sm_bytes s), format_uint (sm_chunks s),
     format_int (sm_since s), format_int gap, optional_cell (sm_emit s), optional_cell (sm_delivery s),
     optional_cell (sm_pipeline s), format_uint (sm_discarded s)]"

fun csv_rows :: "sample option \<Rightarrow> sample list \<Rightarrow> string list list" where
  "csv_rows prev [] = []"
| "csv_rows prev (s # ss) =
     csv_row s (case prev of None \<Rightarrow> 0 | Some p \<Rightarrow> sm_since s - sm_since p) # csv_rows (Some s) ss"

definition writeCSV :: "collector \<Rightarrow> string list list" where
  "writeCSV c = csv_header # csv_rows None (col_samples c)"

section \<open>Checking what arrived\<close>

text \<open>
  The consumer's loop over what the client hands up, each payload with the sequence the observer
  was told just before: \<open>expected\<close> is the reused buffer, the result the sequence of the first
  payload that does not match, or the client's failure.
\<close>

datatype consume_result = Consumed | ConsumeFailed | Mismatch u32

definition payload_shape :: "bench_options \<Rightarrow> bool" where
  "payload_shape opt = (if bo_mode opt = ''remote'' then bo_remote_compressible opt else bo_compress opt)"

fun consume :: "bool \<Rightarrow> bool \<Rightarrow> bytes \<Rightarrow> (u32 \<times> bytes option) list \<Rightarrow> consume_result" where
  "consume verify shape expected [] = Consumed"
| "consume verify shape expected ((sq, None) # _) = ConsumeFailed"
| "consume verify shape expected ((sq, Some raw) # rest) =
     (let expected = (if length expected \<noteq> length raw then replicate (length raw) 0 else expected) in
      if verify then
        let expected = FillSyntheticPayload expected sq shape in
        if length raw \<noteq> length expected \<or> raw \<noteq> expected then Mismatch sq
        else consume verify shape expected rest
      else consume verify shape expected rest)"

section \<open>The local tap\<close>

text \<open>
  One body read with a buffer of \<open>k\<close> bytes: the assembled ledger and how many reads carried
  bytes; at most \<open>n\<close> reads.
\<close>

fun tap_body :: "'r reader \<Rightarrow> nat \<Rightarrow> nat \<Rightarrow> 'r \<Rightarrow> bytes \<Rightarrow> nat \<Rightarrow> 'r \<times> bytes \<times> nat \<times> rd_error option" where
  "tap_body read k 0 r acc chunks = (r, acc, chunks, None)"
| "tap_body read k (Suc n) r acc chunks =
     (case read r k of (r, data, err) \<Rightarrow>
        let acc = acc @ data; chunks = (if data \<noteq> [] then chunks + 1 else chunks) in
        case err of Some e \<Rightarrow> (r, acc, chunks, Some e) | None \<Rightarrow> tap_body read k n r acc chunks)"

datatype tap_result = TapDone | TapPipe pipe_error | TapRead rd_error | TapStopped

text \<open>\<open>clock i\<close>: the time before and after the body of the \<open>i\<close>-th emission.\<close>

fun runLocalTap :: "pipe_env \<Rightarrow> nat \<Rightarrow> (nat \<Rightarrow> int \<times> int) \<Rightarrow> nat \<Rightarrow> nat \<Rightarrow> child_pipe \<Rightarrow> collector \<Rightarrow> collector \<times> tap_result" where
  "runLocalTap env k clock 0 i p c = (c, TapStopped)"
| "runLocalTap env k clock (Suc n) i p c =
     (case pipe_next env p of
        PipeEnds \<Rightarrow> (c, TapDone)
      | PipeFails e \<Rightarrow> (c, TapPipe e)
      | PipeEmits em \<Rightarrow>
          (case tap_body body_read k (nat (em_size em) + 1) (em_body em) [] 0 of (b, assembly, chunks, err) \<Rightarrow>
             (case err of
                None \<Rightarrow> (c, TapStopped)
              | Some e \<Rightarrow>
                  if e \<noteq> RdEOF then (c, TapRead e)
                  else (case clock i of (start, finished_at) \<Rightarrow>
                    runLocalTap env k clock n (i + 1) (ft_pipe (by_tail b))
                      (collector_add c finished_at
                         \<lparr>sm_seq = em_seq em, sm_bytes = length assembly, sm_chunks = chunks, sm_since = 0,
                          sm_delivery = None, sm_pipeline = Some (finished_at - start),
                          sm_emit = Some (finished_at - start), sm_discarded = 0\<rparr>)))))"

section \<open>What the observer and the local stream record\<close>

text \<open>The sample of a ledger the client reports, and the sequence remembered for the check of its payload.\<close>

definition observe_sample :: "ledger_info \<Rightarrow> u32 \<times> sample" where
  "observe_sample info =
     (li_sequence info,
      \<lparr>sm_seq = li_sequence info, sm_bytes = li_size info, sm_chunks = li_chunks info, sm_since = 0,
       sm_delivery = map_option sint (Delivery info), sm_pipeline = map_option sint (Pipeline info),
       sm_emit = map_option sint (EmitWindow info), sm_discarded = li_discarded info\<rparr>)"

text \<open>
  The local mode: captive core in this process, numbered from the start flag. \<open>stream\<close> is what
  the SDK's captive stream yields for a range, \<open>tmp\<close> the answer of \<^verbatim>\<open>os.MkdirTemp\<close>, \<open>clock i\<close> the
  arrival of the \<open>i\<close>-th ledger.
\<close>

datatype local_error = LocalTempDir | LocalCaptive captive_error | LocalStream src_error

fun local_loop :: "(nat \<Rightarrow> int) \<Rightarrow> nat \<Rightarrow> u64 \<Rightarrow> raw_item list \<Rightarrow> collector \<Rightarrow> collector \<times> local_error option" where
  "local_loop clock i sq [] c = (c, None)"
| "local_loop clock i sq (RawError e # _) c = (c, Some (LocalStream e))"
| "local_loop clock i sq (Raw raw # items) c =
     local_loop clock (i + 1) (sq + 1) items
       (collector_add c (clock i) \<lparr>sm_seq = ucast sq, sm_bytes = length raw, sm_chunks = 0, sm_since = 0,
          sm_delivery = None, sm_pipeline = None, sm_emit = None, sm_discarded = 0\<rparr>)"

definition runLocal :: "captive_env \<Rightarrow> string option \<Rightarrow> (captive_core \<Rightarrow> ledger_range \<Rightarrow> raw_item list) \<Rightarrow> (nat \<Rightarrow> int)
    \<Rightarrow> bench_options \<Rightarrow> collector option \<times> local_error option" where
  "runLocal cenv tmp stream clock opt =
     (case (if bo_storage_dir opt = [] then tmp else Some (bo_storage_dir opt)) of
        None \<Rightarrow> (None, Some LocalTempDir)
      | Some storageDir \<Rightarrow>
          (case NewCaptiveSource cenv \<lparr>ca_binary = bo_core_binary opt, ca_config = bo_core_config opt,
                  ca_storage = storageDir, ca_urls = splitURLs (bo_archives opt), ca_passphrase = bo_passphrase opt,
                  ca_agent = []\<rparr> of
             Inl e \<Rightarrow> (None, Some (LocalCaptive e))
           | Inr core \<Rightarrow>
               (case local_loop clock 0 (bo_start opt) (stream core (rangeFrom opt))
                       (newCollector ''local (captive core in this process)'') of
                  (c, e) \<Rightarrow> (Some c, e))))"

section \<open>Percentiles\<close>

lemma sorted_rank_le:
  assumes "sorted xs" "k < length xs"
  shows "k < length (filter (\<lambda>x. x \<le> xs ! k) xs)"
proof -
  have "filter (\<lambda>x. x \<le> xs ! k) (take (Suc k) xs) = take (Suc k) xs"
    using assms by (auto simp: filter_id_conv set_conv_nth sorted_nth_mono)
  then have "length (filter (\<lambda>x. x \<le> xs ! k) (take (Suc k) xs @ drop (Suc k) xs)) \<ge> length (take (Suc k) xs)"
    by (simp only: filter_append length_append)
  with assms(2) show ?thesis by simp
qed

lemma sorted_rank_less:
  assumes "sorted xs" "k < length xs"
  shows "length (filter (\<lambda>x. x < xs ! k) xs) \<le> k"
proof -
  have "filter (\<lambda>x. x < xs ! k) (drop k xs) = []"
    using assms by (auto simp: filter_empty_conv set_conv_nth not_less intro!: sorted_nth_mono)
  then have "filter (\<lambda>x. x < xs ! k) (take k xs @ drop k xs) = filter (\<lambda>x. x < xs ! k) (take k xs)"
    by (simp only: filter_append append_Nil2)
  then have "filter (\<lambda>x. x < xs ! k) xs = filter (\<lambda>x. x < xs ! k) (take k xs)"
    by simp
  with length_filter_le [of "\<lambda>x. x < xs ! k" "take k xs"] show ?thesis by simp
qed

lemma percentile_index:
  assumes "xs \<noteq> []" "0 < p" "p \<le> 100"
  shows "\<exists>k < length xs. percentile xs p = xs ! k \<and> 100 * int k < p * int (length xs) \<and> p * int (length xs) \<le> 100 * (int k + 1)"
proof -
  let ?n = "int (length xs)"
  let ?r = "(p * ?n + 99) div 100"
  have n: "0 < ?n" using assms(1) by simp
  have pn: "0 < p * ?n" "p * ?n \<le> 100 * ?n"
    using n assms(2,3) by (simp_all add: mult_right_mono)
  have r: "100 * ?r \<le> p * ?n + 99" "p * ?n + 99 < 100 * ?r + 100"
    by linarith+
  with pn have "0 < ?r" "?r \<le> ?n" by linarith+
  with r n assms(1) show ?thesis
    by (intro exI [of _ "nat (?r - 1)"]) (auto simp: percentile_def Let_def)
qed

section \<open>Arrivals\<close>

definition collect :: "string \<Rightarrow> (int \<times> sample) list \<Rightarrow> collector" where
  "collect label xs = foldl (\<lambda>c (now, s). collector_add c now s) (newCollector label) xs"

definition collector_inv :: "collector \<Rightarrow> bool" where
  "collector_inv c \<longleftrightarrow> (col_start c = None \<longleftrightarrow> col_samples c = []) \<and>
     (col_samples c \<noteq> [] \<longrightarrow> sm_since (hd (col_samples c)) = 0) \<and>
     col_bytes c = sum_list (map sm_bytes (col_samples c))"

lemma collector_add_inv: "collector_inv c \<Longrightarrow> collector_inv (collector_add c now s)"
  by (cases "col_samples c") (auto simp: collector_inv_def collector_add_def Let_def split: option.splits)

lemma collect_inv: "collector_inv (collect label xs)"
proof -
  have "collector_inv (foldl (\<lambda>c (now, s). collector_add c now s) c xs)" if "collector_inv c" for c
    using that by (induction xs arbitrary: c) (auto intro: collector_add_inv)
  then show ?thesis
    by (simp add: collect_def collector_inv_def newCollector_def)
qed

lemma gaps_sum: "ss \<noteq> [] \<Longrightarrow> sum_list (gaps ss) = sm_since (last ss) - sm_since (hd ss)"
  by (induction ss rule: gaps.induct) auto

lemma length_gaps: "length (gaps ss) = length ss - 1"
  by (induction ss rule: gaps.induct) auto

section \<open>Verification\<close>

text \<open>What the source of this shape fabricates for a sequence, at the size that arrived.\<close>

definition genuine :: "bool \<Rightarrow> u32 \<Rightarrow> bytes \<Rightarrow> bool" where
  "genuine shape sq raw \<longleftrightarrow> raw = FillSyntheticPayload (replicate (length raw) 0) sq shape"

lemma Fill_zeroed:
  "length b < 4 \<longrightarrow> b = replicate (length b) 0 \<Longrightarrow>
     FillSyntheticPayload b sq shape = FillSyntheticPayload (replicate (length b) 0) sq shape"
  by (cases "length b < 4") (auto intro: Fill_agree)

lemma consume_verified:
  "length expected < 4 \<longrightarrow> expected = replicate (length expected) 0 \<Longrightarrow>
   consume True shape expected (map (\<lambda>(sq, raw). (sq, Some raw)) items) = Consumed \<longleftrightarrow>
     (\<forall>(sq, raw) \<in> set items. genuine shape sq raw)"
proof (induction items arbitrary: expected)
  case (Cons item items)
  obtain sq raw where item: "item = (sq, raw)" by fastforce
  define e where "e = (if length expected \<noteq> length raw then replicate (length raw) 0 else expected)"
  have e: "length e = length raw" "length e < 4 \<longrightarrow> e = replicate (length e) 0"
    using Cons.prems by (auto simp: e_def)
  let ?e = "FillSyntheticPayload e sq shape"
  have fill: "?e = FillSyntheticPayload (replicate (length raw) 0) sq shape" "length ?e = length raw"
    using Fill_zeroed [OF e(2)] e(1) Fill_frame by auto
  have "length ?e < 4 \<longrightarrow> ?e = replicate (length ?e) 0"
    using fill(2) e Fill_short [of e sq shape] by (metis)
  note IH = Cons.IH [OF this]
  have "consume True shape expected (map (\<lambda>(sq, raw). (sq, Some raw)) (item # items)) =
      (if raw \<noteq> ?e then Mismatch sq else consume True shape ?e (map (\<lambda>(sq, raw). (sq, Some raw)) items))"
    using fill(2) by (simp add: item Let_def e_def)
  with IH fill(1) show ?case
    by (auto simp: item genuine_def)
qed simp

section \<open>The tap on a stream of frames\<close>

lemma tap_body_drain:
  "drain read k n r acc = (r', out, e) \<Longrightarrow> \<exists>chunks'. tap_body read k n r acc chunks = (r', out, chunks', e)"
  by (induction n arbitrary: r acc chunks) (auto simp: Let_def split: prod.splits option.splits)

lemma runLocalTap_frames:
  assumes env: "reads_markers env" "pn_exit_ok env" and k: "0 < k"
  shows "metas_ok env sq metas \<Longrightarrow> cp_deadline p = None \<Longrightarrow> cp_data p = concat (map framed_meta metas) \<Longrightarrow>
    length metas < n \<Longrightarrow>
    \<exists>c'. runLocalTap env k clock n i p c = (c', TapDone) \<and>
      map (\<lambda>s. (sm_seq s, sm_bytes s)) (col_samples c') =
        map (\<lambda>s. (sm_seq s, sm_bytes s)) (col_samples c) @ map (\<lambda>m. (sq m, length m)) metas"
proof (induction metas arbitrary: n i p c)
  case Nil
  then obtain n' where "n = Suc n'" by (cases n) auto
  with pipe_next_eof [OF env] Nil.prems show ?case by simp
next
  case (Cons m metas)
  then obtain n' where n: "n = Suc n'" "length metas < n'" by (cases n) auto
  have p: "cp_data p = framed_meta m @ concat (map framed_meta metas)"
    using Cons.prems(3) by simp
  obtain b b' where em: "pipe_next env p = PipeEmits \<lparr>em_seq = sq m, em_size = int (length m), em_body = b\<rparr>"
    and drained: "drain body_read k (length m + 1) b [] = (b', m, Some RdEOF)"
    and rest: "cp_deadline (ft_pipe (by_tail b')) = None" "cp_data (ft_pipe (by_tail b')) = concat (map framed_meta metas)"
    using pipe_frame_step [OF env(1) k Cons.prems(2) p] Cons.prems(1) by auto
  obtain chunks where tap: "tap_body body_read k (length m + 1) b [] 0 = (b', m, chunks, Some RdEOF)"
    using tap_body_drain [OF drained] by blast
  obtain t0 t1 where clock: "clock i = (t0, t1)" by fastforce
  let ?s = "\<lparr>sm_seq = sq m, sm_bytes = length m, sm_chunks = chunks, sm_since = 0, sm_delivery = None,
      sm_pipeline = Some (t1 - t0), sm_emit = Some (t1 - t0), sm_discarded = 0\<rparr>"
  have "runLocalTap env k clock n i p c = runLocalTap env k clock n' (i + 1) (ft_pipe (by_tail b')) (collector_add c t1 ?s)"
    using em tap clock n(1) by (simp del: tap_body.simps)
  moreover have "map (\<lambda>s. (sm_seq s, sm_bytes s)) (col_samples (collector_add c t1 ?s)) =
      map (\<lambda>s. (sm_seq s, sm_bytes s)) (col_samples c) @ [(sq m, length m)]"
    by (simp add: collector_add_def Let_def)
  ultimately show ?case
    using Cons.IH [OF _ rest n(2), of "i + 1" "collector_add c t1 ?s"] Cons.prems(1) by simp
qed

text \<open>Every sample of the tap has an emission window and none a delivery latency.\<close>

definition tapped :: "collector \<Rightarrow> bool" where
  "tapped c \<longleftrightarrow> (\<forall>s \<in> set (col_samples c). sm_delivery s = None \<and> sm_emit s \<noteq> None)"

lemma tapped_add: "tapped c \<Longrightarrow> sm_delivery s = None \<Longrightarrow> sm_emit s \<noteq> None \<Longrightarrow> tapped (collector_add c now s)"
  by (auto simp: tapped_def collector_add_def Let_def)

lemma runLocalTap_tapped: "runLocalTap env k clock n i p c = (c', r) \<Longrightarrow> tapped c \<Longrightarrow> tapped c'"
proof (induction n arbitrary: i p c)
  case (Suc n)
  show ?case
    using Suc.prems
    by (auto simp del: tap_body.simps split: pipe_outcome.splits prod.splits option.splits if_splits)
      (erule Suc.IH, simp add: tapped_add)
qed simp

lemma durations_all: "\<forall>s \<in> set (col_samples c). f s \<noteq> None \<Longrightarrow> length (durations f c) = length (col_samples c)"
  by (auto simp: durations_def List.map_filter_def filter_id_conv intro: arg_cong [of _ _ length])

lemma durations_none: "\<forall>s \<in> set (col_samples c). f s = None \<Longrightarrow> durations f c = []"
  by (simp add: durations_def List.map_filter_def filter_empty_conv)

section \<open>The loopback's range\<close>

lemma ucast_count: "n \<le> ucast max_u32 \<Longrightarrow> unat (ucast n :: u32) = unat n" for n :: u64
  by (simp add: word_le_nat_alt unat_ucast_u64 unsigned_ucast_eq take_bit_nat_eq_self)

lemma counted_wraps:
  fixes s c :: u32
  assumes "4294967296 < unat s + unat c" "c \<noteq> 0"
  shows "s + c - 1 < s"
proof -
  have c: "unat (c - 1) = unat c - 1" "unat c < 4294967296" "unat s < 4294967296"
    using assms(2) unat_lt_u32 [of c] unat_lt_u32 [of s] by (simp_all add: unat_minus_one)
  have wrap: "n mod 4294967296 = n - 4294967296" if "4294967296 \<le> n" "n < 2 * 4294967296" for n :: nat
    using that by (simp add: mod_if)
  have "unat (s + (c - 1)) = (unat s + unat (c - 1)) mod 4294967296"
    by (simp add: unat_word_ariths)
  also have "\<dots> = unat s + unat (c - 1) - 4294967296"
    by (rule wrap) (use assms(1) c in linarith)+
  finally have "unat (s + (c - 1)) < unat s"
    using assms(1) c by linarith
  then show ?thesis
    by (simp add: word_less_nat_alt add_diff_eq)
qed

section \<open>Properties\<close>

text \<open>
  Percentiles are nearest rank. The value reported is one of the measured ones; at least
  \<open>p\<close> percent of the measurements are at most that, and fewer than \<open>p\<close> percent are below it.
\<close>

theorem percentile_nearest_rank:
  assumes "sorted ds" "ds \<noteq> []" "0 < p" "p \<le> 100"
  shows "percentile ds p \<in> set ds \<and>
    p * int (length ds) \<le> 100 * int (length (filter (\<lambda>d. d \<le> percentile ds p) ds)) \<and>
    100 * int (length (filter (\<lambda>d. d < percentile ds p) ds)) < p * int (length ds)"
proof -
  obtain k where k: "k < length ds" "percentile ds p = ds ! k" "100 * int k < p * int (length ds)"
      "p * int (length ds) \<le> 100 * (int k + 1)"
    using percentile_index [OF assms(2-4)] by blast
  with sorted_rank_le [OF assms(1) k(1)] sorted_rank_less [OF assms(1) k(1)] show ?thesis
    by auto
qed

theorem percentile_nearest_rank_witness: "percentile [1, 2, 3, 4, 5, 6, 7, 8, 9, 10] 50 \<in> {1..10}"
  using percentile_nearest_rank [of "[1, 2, 3, 4, 5, 6, 7, 8, 9, 10]" 50] by auto

text \<open>
  Arrivals add up. Over any run the gaps between consecutive arrivals are one fewer than the
  ledgers, sum to the elapsed time, and the bytes counted are those of the samples.
\<close>

theorem arrivals_add_up:
  "sum_list (interArrivals (collect label xs)) = elapsed (collect label xs) \<and>
   length (interArrivals (collect label xs)) = length (col_samples (collect label xs)) - 1 \<and>
   col_bytes (collect label xs) = sum_list (map sm_bytes (col_samples (collect label xs)))"
  using collect_inv [of label xs] gaps_sum [of "col_samples (collect label xs)"]
  by (cases "col_samples (collect label xs) = []") (simp_all add: collector_inv_def interArrivals_def elapsed_def length_gaps)

text \<open>
  Verification neither misses corruption nor invents it. The consumer accepts a run exactly
  when every payload is what the synthetic source of that shape fabricates for the sequence,
  whatever sizes arrive and however its comparison buffer was used before.
\<close>

theorem verification_exact:
  "consume True shape [] (map (\<lambda>(sq, raw). (sq, Some raw)) items) = Consumed \<longleftrightarrow>
     (\<forall>(sq, raw) \<in> set items. raw = FillSyntheticPayload (replicate (length raw) 0) sq shape)"
  using consume_verified [of "[]" shape items] by (simp add: genuine_def)

theorem verification_exact_witness:
  "consume True True [] (map (\<lambda>(sq, raw). (sq, Some raw)) [(7, FillSyntheticPayload (replicate 300 0) 7 True)]) = Consumed"
  using verification_exact [of True "[(7, FillSyntheticPayload (replicate 300 0) 7 True)]"] Fill_frame [of "replicate 300 0" 7 True]
  by simp

text \<open>
  The loopback asks for what it serves, and is refused only for a range that wraps. Under
  flags that pass the checks the client's range is the server's, of exactly the counted
  ledgers, and the server is built unless the last of them is past the last sequence, which
  the checks of the flags leave to it.
\<close>

theorem loopback_accepted:
  assumes "check_bench_flags opt args = None" "bo_mode opt = ''loopback''"
    and "\<forall>n w. mk n w \<noteq> None"
  shows "fst (loopback_ranges opt) = snd (loopback_ranges opt) \<and>
    (if unat (loopback_start opt) + unat (bo_count opt) \<le> 2 ^ 32
     then unat (rg_to (fst (loopback_ranges opt))) + 1 = unat (loopback_start opt) + unat (bo_count opt) \<and>
       (\<exists>srv. New mk (loopback_config opt) = Inr srv)
     else New mk (loopback_config opt) = Inl RangeEndsBeforeStart)"
proof -
  let ?s = "loopback_start opt" and ?c = "ucast (bo_count opt) :: u32"
  have chk: "bo_count opt \<noteq> 0" "bo_count opt \<le> ucast max_u32" "ValidateChunkSize (bo_chunk opt)"
    using assms(1,2) by (auto simp: check_bench_flags_def check_bench_mode_def split: if_splits)
  have c: "unat ?c = unat (bo_count opt)"
    by (rule ucast_count [OF chk(2)])
  moreover have "0 < unat (bo_count opt)" using chk(1) by (simp add: unat_gt_0)
  ultimately have nz: "?c \<noteq> 0" by (metis less_irrefl unat_0)
  have rng: "loopback_ranges opt = (\<lparr>rg_from = ?s, rg_to = ?s + ?c - 1, rg_bounded = True\<rparr>, \<lparr>rg_from = ?s, rg_to = ?s + ?c - 1, rg_bounded = True\<rparr>)"
    using nz by (simp add: loopback_ranges_def CountedRange_def Let_def)
  have s: "?s \<noteq> 0" by (simp add: loopback_start_def)
  have chunk: "bo_chunk opt \<noteq> 0"
    using chk(3) by (auto simp: ValidateChunkSize_def MinChunkSize_def)
  obtain w where w: "validateCompressWorkers 0 = Some w"
    by (auto simp: validateCompressWorkers_def)
  show ?thesis
  proof (cases "unat ?s + unat (bo_count opt) \<le> 2 ^ 32")
    case True
    with counted_range_order [OF nz, of ?s] c nz chk(1) unat_gt_0 [of "bo_count opt"] have
      fits: "\<not> ?s + ?c - 1 < ?s" "unat (?s + ?c - 1) + 1 = unat ?s + unat (bo_count opt)"
      by (auto simp: CountedRange_def not_less)
    obtain e re where "newEncoder mk w (bo_chunk opt) = Some e" "newEncoder mk ringEncoderConcurrency (bo_chunk opt) = Some re"
      using assms(3) unfolding newEncoder_def by blast
    with fits s chunk chk(3) w True show ?thesis
      by (simp add: rng New_def loopback_config_def Let_def)
  next
    case False
    then have "?s + ?c - 1 < ?s"
      using counted_wraps [of ?s ?c] c nz by simp
    with False s show ?thesis
      by (simp add: rng New_def loopback_config_def)
  qed
qed

lemma bench_defaults_pass: "check_bench_flags bench_defaults [] = None"
  by (simp add: check_bench_flags_def check_bench_mode_def bench_defaults_def ValidateChunkSize_def MinChunkSize_def
      MaxChunkSize_def DefaultChunkSize_def millisecond_def word_le_nat_alt)

theorem loopback_accepted_witness:
  "\<exists>srv. New (\<lambda>_ _. Some id) (loopback_config bench_defaults) = Inr srv"
  using loopback_accepted [OF bench_defaults_pass, of "\<lambda>_ _. Some id"]
  by (simp add: bench_defaults_def loopback_start_def split: if_splits)

text \<open>
  The local tap assembles every ledger. Over a stream of frames it collects one sample per
  frame, in order, with its sequence and its exact size.
\<close>

theorem local_tap_collects:
  assumes "reads_markers env" "pn_exit_ok env" "0 < k" "metas_ok env sq metas"
    and "cp_deadline p = None" "cp_data p = concat (map framed_meta metas)" "length metas < n"
  shows "\<exists>c. runLocalTap env k clock n 0 p (newCollector label) = (c, TapDone) \<and>
    map (\<lambda>s. (sm_seq s, sm_bytes s)) (col_samples c) = map (\<lambda>m. (sq m, length m)) metas"
  using runLocalTap_frames [OF assms(1-3,4-7), of clock 0 "newCollector label"]
  by (simp add: newCollector_def)

theorem local_tap_collects_witness:
  "\<exists>c. runLocalTap demo_env 2 (\<lambda>i. (int i, int i + 1)) 3 0 demo_pipe (newCollector ''tap'') = (c, TapDone) \<and>
     map (\<lambda>s. (sm_seq s, sm_bytes s)) (col_samples c) = [(4, 4), (1, 1)]"
  using local_tap_collects [OF demo_env_ok _ demo_pipe_ok(1-3), of 2 3 "\<lambda>i. (int i, int i + 1)" "''tap''"]
  by (simp add: numeral_eq_Suc)

text \<open>
  The local tap's report leaves out what the mode measures. Every sample of a tap run has an
  emission window, yet the summary says there are no emit stamps and has no line for them.
\<close>

theorem local_tap_report_hides_window:
  assumes "runLocalTap env k clock n 0 p (newCollector label) = (c, r)" "col_samples c \<noteq> []"
  shows "length (durations sm_emit c) = length (col_samples c) \<and> LineNoStamps \<in> set (summary c) \<and>
    (\<forall>a b d e. LinePercentiles ''t_emit'' a b d e \<notin> set (summary c))"
proof -
  have "tapped c"
    using runLocalTap_tapped [OF assms(1)] by (simp add: tapped_def newCollector_def)
  then have "durations sm_delivery c = []" "length (durations sm_emit c) = length (col_samples c)"
    by (auto simp: tapped_def intro: durations_none durations_all)
  with assms(2) show ?thesis
    by (auto simp: summary_def Let_def percentileLine_def)
qed

theorem local_tap_report_hides_window_witness:
  "\<exists>c r. runLocalTap demo_env 2 (\<lambda>i. (int i, int i + 1)) 3 0 demo_pipe (newCollector ''tap'') = (c, r) \<and>
     LineNoStamps \<in> set (summary c)"
proof -
  obtain c where run: "runLocalTap demo_env 2 (\<lambda>i. (int i, int i + 1)) 3 0 demo_pipe (newCollector ''tap'') = (c, TapDone)"
    and samples: "map (\<lambda>s. (sm_seq s, sm_bytes s)) (col_samples c) = [(4, 4), (1, 1)]"
    using runLocalTap_frames [OF demo_env_ok _ demo_pipe_ok(1-3), of 2 3 "\<lambda>i. (int i, int i + 1)" 0 "newCollector ''tap''"]
    by (auto simp: newCollector_def)
  from samples have "col_samples c \<noteq> []" by auto
  from local_tap_report_hides_window [OF run this] run show ?thesis by blast
qed

end
