(* ===== verification/Loopback.thy ===== *)
theory Loopback
  imports Session_Live Bench
begin

text \<open>
  The benchmark's loopback mode as a whole: the synthetic source of theory \<open>Synthetic\<close> behind
  the server of theory \<open>Session\<close>, its client, and the consumer of theory \<open>Bench\<close> that regenerates
  what it received. The lemmas pair the ledgers a client hands up with the sequences its
  observer was told.
\<close>

lemma consecutive_nth:
  "consecutive qs \<Longrightarrow> i < length qs \<Longrightarrow> qs ! i = hd qs + word_of_nat i"
proof (induction i)
  case 0
  then show ?case by (simp add: hd_conv_nth)
next
  case (Suc i)
  then have "qs ! Suc i = qs ! i + 1" by (simp add: consecutive_def)
  with Suc show ?case by (simp add: add.assoc)
qed

lemma announced_sequences:
  assumes "cc_observe cfg" "rg_from rng \<noteq> 0"
  shows "map li_sequence (cl_infos (client_run cfg rng is)) =
    map (\<lambda>k. rg_from rng + word_of_nat k) [0..<length (ledgers_of (cl_yields (client_run cfg rng is)))]"
proof -
  from client_run_inv [of cfg rng "is", unfolded client_inv_def] obtain qs where
    qs: "length qs = length (ledgers_of (cl_yields (client_run cfg rng is)))" "tracks rng qs (cl_track (client_run cfg rng is))"
      "cc_observe cfg \<longrightarrow> map li_sequence (cl_infos (client_run cfg rng is)) = qs"
    by blast
  have track: "consecutive qs" "qs \<noteq> [] \<longrightarrow> hd qs = rg_from rng"
    using qs(2) assms(2) by (auto simp: tracks_def)
  have "qs ! k = rg_from rng + word_of_nat k" if "k < length qs" for k
    using consecutive_nth [OF track(1) that] track(2) that by auto
  then have "qs = map (\<lambda>k. rg_from rng + word_of_nat k) [0..<length qs]"
    by (intro nth_equalityI) auto
  moreover have "map li_sequence (cl_infos (client_run cfg rng is)) = qs"
    using qs(3) assms(1) by simp
  ultimately show ?thesis
    unfolding qs(1) by (rule trans [rotated])
qed

lemma ledgers_of_delivered: "ledgers_of (delivered L start n) = map (\<lambda>k. L (word_of_nat k)) [start..<n]"
proof -
  have "ledgers_of (map (\<lambda>k. Ledger (f k)) ks) = map f ks" for f :: "nat \<Rightarrow> bytes" and ks
    by (induction ks) auto
  then show ?thesis by (simp add: delivered_def)
qed

text \<open>Each ledger handed up under the sequence its observer was told.\<close>

definition received :: "client \<Rightarrow> (u32 \<times> bytes) list" where
  "received c = zip (map li_sequence (cl_infos c)) (ledgers_of (cl_yields c))"

lemma received_delivered:
  assumes "cc_observe cfg" "rg_from rng \<noteq> 0" "unat (rg_from rng) = start"
    and "cl_yields (client_run cfg rng is) = delivered L start n"
  shows "set (received (client_run cfg rng is)) \<subseteq> {(q, L q) | q. True}"
proof -
  have "rg_from rng = word_of_nat start"
    by (simp flip: assms(3))
  then have "received (client_run cfg rng is) =
      map (\<lambda>k. (word_of_nat (start + k), L (word_of_nat (start + k)))) [0..<n - start]"
    unfolding received_def announced_sequences [OF assms(1,2)] assms(4) ledgers_of_delivered
    by (simp add: list_eq_iff_nth_eq)
  then show ?thesis by auto
qed

section \<open>Holding the source\<close>

text \<open>
  \<^verbatim>\<open>waitForSubscriber\<close>: \<open>subs i\<close> and \<open>gone i\<close> are what the server's count and the context are at the
  \<open>i\<close>-th poll; at most \<open>n\<close> polls. \<open>Some True\<close> starts the source, \<open>Some False\<close> is the context's error.
\<close>

fun waitForSubscriber :: "(nat \<Rightarrow> int) \<Rightarrow> (nat \<Rightarrow> bool) \<Rightarrow> nat \<Rightarrow> nat \<Rightarrow> bool option" where
  "waitForSubscriber subs gone 0 i = None"
| "waitForSubscriber subs gone (Suc n) i =
     (if subs i \<noteq> 0 then Some True
      else if gone i then Some False
      else waitForSubscriber subs gone n (i + 1))"

lemma waitForSubscriber_holds:
  "waitForSubscriber subs gone n i = Some True \<Longrightarrow> \<exists>k \<ge> i. subs k \<noteq> 0 \<and> (\<forall>j. i \<le> j \<and> j < k \<longrightarrow> subs j = 0)"
proof (induction n arbitrary: i)
  case (Suc n)
  show ?case
  proof (cases "subs i = 0")
    case True
    with Suc.prems have "waitForSubscriber subs gone n (i + 1) = Some True" by (simp split: if_splits)
    from Suc.IH [OF this] obtain k where k: "k \<ge> i + 1" "subs k \<noteq> 0" "\<forall>j. i + 1 \<le> j \<and> j < k \<longrightarrow> subs j = 0" by blast
    have "subs j = 0" if "i \<le> j" "j < k" for j
      using that k(3) True by (cases "j = i") auto
    with k show ?thesis by (intro exI [of _ k]) auto
  qed auto
qed simp

end
