(* ===== verification/Bench_Main.thy ===== *)
theory Bench_Main
  imports Loopback Accounting
begin

text \<open>
  \<^verbatim>\<open>cmd/benchrunner/main.go\<close> from the parsed flags to the exit: \<^verbatim>\<open>consume\<close> with its observer, the
  loopback from its temporary directory to the source's own result, the choice of the mode, the
  CSV file on a disk whose calls may fail, and what \<^verbatim>\<open>run\<close> prints and returns. What the two
  stream libraries and the operating system answer is a parameter, one per call. The progress
  lines a loopback prints before and after its run are left out.
\<close>

section \<open>The consumer with its observer\<close>

text \<open>One pull of the client's stream: the observer runs just before a ledger is handed up.\<close>

datatype arrival = Arrived ledger_info bytes | Broke stream_error

fun consume_loop :: "bool \<Rightarrow> bool \<Rightarrow> (nat \<Rightarrow> int) \<Rightarrow> nat \<Rightarrow> bytes \<Rightarrow> arrival list \<Rightarrow> collector
    \<Rightarrow> collector \<times> consume_result" where
  "consume_loop verify shape clock i expected [] c = (c, Consumed)"
| "consume_loop verify shape clock i expected (Broke e # _) c = (c, ConsumeFailed)"
| "consume_loop verify shape clock i expected (Arrived info raw # rest) c =
     (case observe_sample info of (current, s) \<Rightarrow>
        let c = collector_add c (clock i) s;
            expected = (if length expected \<noteq> length raw then replicate (length raw) 0 else expected)
        in if verify then
             let expected = FillSyntheticPayload expected current shape in
             if length raw \<noteq> length expected \<or> raw \<noteq> expected then (c, Mismatch current)
             else consume_loop verify shape clock (i + 1) expected rest c
           else consume_loop verify shape clock (i + 1) expected rest c)"

definition consume_stream :: "bench_options \<Rightarrow> string \<Rightarrow> (nat \<Rightarrow> int) \<Rightarrow> arrival list \<Rightarrow> collector \<times> consume_result" where
  "consume_stream opt label clock as =
     consume_loop (bo_verify opt) (payload_shape opt) clock 0 [] as (newCollector label)"

text \<open>What a client of theory \<open>Client\<close> hands to it.\<close>

fun failures_of :: "yielded list \<Rightarrow> stream_error list" where
  "failures_of [] = []"
| "failures_of (Ledger b # ys) = failures_of ys"
| "failures_of (Failure e # ys) = e # failures_of ys"

definition arrivals :: "client \<Rightarrow> arrival list" where
  "arrivals cl = map (\<lambda>(info, raw). Arrived info raw) (zip (cl_infos cl) (ledgers_of (cl_yields cl))) @
     map Broke (failures_of (cl_yields cl))"

section \<open>The CSV file\<close>

text \<open>
  No cell of the report needs quoting. The writer hands the file 4096 bytes at a time; the first
  call that fails is the result.
\<close>

fun csv_line :: "string list \<Rightarrow> string" where
  "csv_line [] = [CHR 0x0A]"
| "csv_line [x] = x @ [CHR 0x0A]"
| "csv_line (x # y # xs) = x @ '','' @ csv_line (y # xs)"

definition csv_bytes :: "collector \<Rightarrow> bytes" where
  "csv_bytes c = map of_char (concat (map csv_line (writeCSV c)))"

definition writeCSVFile :: "path \<Rightarrow> collector \<Rightarrow> disk \<Rightarrow> os_error option \<times> disk" where
  "writeCSVFile p c d =
     (case os_open_trunc p d of
        (Some e, d) \<Rightarrow> (Some e, d)
      | (None, d) \<Rightarrow>
          (case write_parts p (pieces 4096 (csv_bytes c)) d of
             (Some e, d) \<Rightarrow> (Some e, d)
           | (None, d) \<Rightarrow> os_close d))"

section \<open>The loopback\<close>

datatype loop_error =
    LoopTempDir
  | LoopStore store_error
  | LoopServer config_error
  | LoopListen
  | LoopConsume consume_result
  | LoopHeld
  | LoopSource run_outcome

text \<open>
  The world of a loopback: whether the temporary directory and the listener can be had, the
  temporary disk, the zstd constructor, the subscriber count and the context at each poll, how
  the source loop of a server on a ring ends, and what its client is handed.
\<close>

record loop_world =
  lo_tmp :: "string option"
  lo_disk :: disk
  lo_mk :: "int \<Rightarrow> nat \<Rightarrow> encoder option"
  lo_listen :: bool
  lo_subs :: "nat \<Rightarrow> int"
  lo_gone :: "nat \<Rightarrow> bool"
  lo_polls :: nat
  lo_run :: "server \<Rightarrow> store \<Rightarrow> run_outcome"
  lo_session :: "server \<Rightarrow> ledger_range \<Rightarrow> arrival list"

text \<open>
  The goroutine of the source. By the time its result is read the context has been cancelled,
  so a hold that found nobody has ended with the context's error.
\<close>

definition loop_source :: "loop_world \<Rightarrow> server \<Rightarrow> store \<Rightarrow> loop_error option" where
  "loop_source w srv ring =
     (case waitForSubscriber (lo_subs w) (lo_gone w) (lo_polls w) 0 of
        Some True \<Rightarrow> (let r = lo_run w srv ring in if r = Finished \<or> r = Cancelled then None else Some (LoopSource r))
      | _ \<Rightarrow> Some LoopHeld)"

definition runLoopback :: "loop_world \<Rightarrow> (nat \<Rightarrow> int) \<Rightarrow> bench_options \<Rightarrow> collector option \<times> loop_error option" where
  "runLoopback w clock opt =
     (case lo_tmp w of
        None \<Rightarrow> (None, Some LoopTempDir)
      | Some tmp \<Rightarrow>
          (case fst (Open (tmp @ ''/ledgers'') (loopback_retention opt) (lo_disk w)) of
             Inl e \<Rightarrow> (None, Some (LoopStore e))
           | Inr ring \<Rightarrow>
               (case New (lo_mk w) (loopback_config opt) of
                  Inl e \<Rightarrow> (None, Some (LoopServer e))
                | Inr srv \<Rightarrow>
                    if \<not> lo_listen w then (None, Some LoopListen)
                    else (case consume_stream opt ''loopback (remoteledger over 127.0.0.1)'' clock
                                 (lo_session w srv (snd (loopback_ranges opt))) of
                            (c, r) \<Rightarrow>
                              if r \<noteq> Consumed then (Some c, Some (LoopConsume r))
                              else (Some c, loop_source w srv ring)))))"

section \<open>The modes and the exit\<close>

text \<open>The remaining modes: a client dialled at the flag's URL, captive core, and a core's pipe.\<close>

record bench_world =
  bw_loop :: loop_world
  bw_clock :: "nat \<Rightarrow> int"
  bw_remote :: "string \<Rightarrow> ledger_range \<Rightarrow> arrival list"
  bw_captive :: captive_env
  bw_tmp :: "string option"
  bw_core :: "captive_core \<Rightarrow> ledger_range \<Rightarrow> raw_item list"
  bw_env :: pipe_env
  bw_pipe :: "string \<Rightarrow> int \<Rightarrow> child_pipe"
  bw_spans :: "nat \<Rightarrow> int \<times> int"
  bw_pulls :: nat

datatype mode_error = ModeLoop loop_error | ModeConsume consume_result | ModeLocal local_error | ModeTap tap_result

definition runRemote :: "bench_world \<Rightarrow> bench_options \<Rightarrow> collector option \<times> mode_error option" where
  "runRemote w opt =
     (case consume_stream opt ''remote (corestreamd over the network)'' (bw_clock w) (bw_remote w (bo_url opt) (rangeFrom opt)) of
        (c, r) \<Rightarrow> (Some c, if r = Consumed then None else Some (ModeConsume r)))"

definition run_mode :: "bench_world \<Rightarrow> bench_options \<Rightarrow> collector option \<times> mode_error option" where
  "run_mode w opt =
     (if bo_mode opt = ''loopback'' then apsnd (map_option ModeLoop) (runLoopback (bw_loop w) (bw_clock w) opt)
      else if bo_mode opt = ''remote'' then runRemote w opt
      else if bo_mode opt = ''local'' then
        apsnd (map_option ModeLocal) (runLocal (bw_captive w) (bw_tmp w) (bw_core w) (bw_clock w) opt)
      else if bo_mode opt = ''localtap'' then
        (case runLocalTap (bw_env w) (nat (bo_chunk opt)) (bw_spans w) (bw_pulls w) 0
                (bw_pipe w (bo_pipe_cmd opt) (bo_pipe_bytes opt)) (newCollector ''local tap (core's pipe, no network)'') of
           (c, r) \<Rightarrow> (Some c, if r = TapDone then None else Some (ModeTap r)))
      else (None, None))"

datatype bench_failure = FlagFailure bench_error | ModeFailure mode_error | CsvFailure os_error

fun mode_failures :: "mode_error option \<Rightarrow> bench_failure list" where
  "mode_failures None = []"
| "mode_failures (Some e) = [ModeFailure e]"

lemma mode_failures_nil [simp]: "mode_failures e = [] \<longleftrightarrow> e = None"
  by (cases e) simp_all

datatype printed = Summary collector | CsvLine string

text \<open>What \<^verbatim>\<open>run\<close> prints, the errors it joins, and the disk it leaves.\<close>

definition run_bench :: "bench_world \<Rightarrow> (string \<Rightarrow> path) \<Rightarrow> bench_options \<Rightarrow> string list \<Rightarrow> disk
    \<Rightarrow> (printed list \<times> bench_failure list) \<times> disk" where
  "run_bench w at opt args d =
     (case check_bench_flags opt args of
        Some e \<Rightarrow> (([], [FlagFailure e]), d)
      | None \<Rightarrow>
          (case run_mode w opt of
             (None, e) \<Rightarrow> (([], mode_failures e), d)
           | (Some c, e) \<Rightarrow>
               let errs = mode_failures e in
               if bo_csv opt = [] then (([Summary c], errs), d)
               else (case writeCSVFile (at (bo_csv opt)) c d of
                       (Some we, d) \<Rightarrow> (([Summary c], errs @ [CsvFailure we]), d)
                     | (None, d) \<Rightarrow> (([Summary c, CsvLine (bo_csv opt)], errs), d))))"

section \<open>What the consumer makes of its stream\<close>

fun item_of :: "arrival \<Rightarrow> u32 \<times> bytes option" where
  "item_of (Arrived info raw) = (li_sequence info, Some raw)"
| "item_of (Broke e) = (0, None)"

lemma consume_loop_result: "snd (consume_loop verify shape clock i expected as c) = consume verify shape expected (map item_of as)"
  by (induction verify shape clock i expected as c rule: consume_loop.induct) (simp_all add: observe_sample_def Let_def)

lemma consume_loop_verified:
  assumes "snd (consume_loop True shape clock i [] as c) = Consumed" "\<forall>a \<in> set as. \<exists>info raw. a = Arrived info raw"
    and "Arrived info raw \<in> set as"
  shows "raw = FillSyntheticPayload (replicate (length raw) 0) (li_sequence info) shape"
proof -
  let ?items = "map (\<lambda>a. case a of Arrived info raw \<Rightarrow> (li_sequence info, raw) | Broke e \<Rightarrow> (0, [])) as"
  have "map item_of as = map (\<lambda>(sq, raw). (sq, Some raw)) ?items"
    using assms(2) by (auto simp: list_eq_iff_nth_eq in_set_conv_nth split: arrival.splits) (metis arrival.distinct(1) nth_mem)
  with assms(1) consume_verified [of "[]" shape ?items] have "\<forall>(sq, raw) \<in> set ?items. genuine shape sq raw"
    by (simp add: consume_loop_result)
  with assms(3) show ?thesis by (auto simp: genuine_def)
qed

lemma fallbacks_add [simp]: "fallbacks (collector_add c now s) = fallbacks c + sm_discarded s"
  by (simp add: fallbacks_def collector_add_def Let_def)

lemma samples_add [simp]: "length (col_samples (collector_add c now s)) = length (col_samples c) + 1"
  by (simp add: collector_add_def Let_def)

lemma consume_loop_counts:
  "consume_loop verify shape clock i expected as c = (c', Consumed) \<Longrightarrow>
     length (col_samples c') = length (col_samples c) + length as \<and>
     (\<forall>a \<in> set as. \<exists>info raw. a = Arrived info raw)"
  by (induction verify shape clock i expected as c rule: consume_loop.induct)
    (auto simp: observe_sample_def Let_def split: if_splits)

lemma consume_loop_fallbacks:
  "fallbacks (fst (consume_loop False shape clock i expected (map (\<lambda>(info, raw). Arrived info raw) xs @ map Broke es) c))
    = fallbacks c + sum_list (map (\<lambda>(info, raw). li_discarded info) xs)"
proof (induction xs arbitrary: i expected c)
  case Nil
  then show ?case by (cases es) simp_all
next
  case (Cons x xs)
  then show ?case by (cases x) (simp add: observe_sample_def Let_def)
qed

lemma arrivals_fallbacks:
  assumes "cc_observe cfg"
  shows "fallbacks (fst (consume_loop False shape clock 0 [] (arrivals (client_run cfg rng is)) (newCollector label)))
    = sum_list (map li_discarded (cl_infos (client_run cfg rng is)))"
proof -
  let ?c = "client_run cfg rng is"
  have "map li_size (cl_infos ?c) = map length (ledgers_of (cl_yields ?c))"
    using client_run_inv [of cfg rng "is"] assms by (auto simp: client_inv_def)
  then have "length (cl_infos ?c) = length (ledgers_of (cl_yields ?c))"
    by (metis length_map)
  then have "map (\<lambda>(info, raw). li_discarded info) (zip (cl_infos ?c) (ledgers_of (cl_yields ?c))) = map li_discarded (cl_infos ?c)"
    by (simp add: list_eq_iff_nth_eq)
  then show ?thesis
    unfolding arrivals_def consume_loop_fallbacks by (simp add: fallbacks_def newCollector_def)
qed

section \<open>What the file holds\<close>

lemma writeCSVFile_whole:
  assumes "writeCSVFile p c d = (None, d')"
  shows "file_bytes p d' = Some (csv_bytes c)"
proof -
  obtain d1 where opened: "os_open_trunc p d = (None, d1)" and d1: "entry d1 p = Some (RegFile [])"
    using assms by (auto simp: writeCSVFile_def os_open_trunc_def split: prod.splits option.splits fault.splits if_splits)
  obtain e d2 where written: "write_parts p (pieces 4096 (csv_bytes c)) d1 = (e, d2)" by fastforce
  with assms opened have "e = None" "os_close d2 = (None, d')"
    by (auto simp: writeCSVFile_def split: option.splits)
  with write_parts_spec [OF written d1] show ?thesis
    by (auto simp: os_close_def file_bytes_entry split: fault.splits)
qed

text \<open>On a working disk the file is written, wherever no directory is in its place.\<close>

lemma writeCSVFile_calm:
  assumes "faults d = []" "entry d p \<noteq> Some SubDir"
  shows "fst (writeCSVFile p c d) = None"
proof -
  obtain e d2 where written: "write_parts p (pieces 4096 (csv_bytes c)) (set_file p [] (tick d)) = (e, d2)" by fastforce
  have "e = None" "faults d2 = []"
    using write_parts_calm [OF written] assms(1) by simp_all
  moreover have "os_open_trunc p d = (None, set_file p [] (tick d))"
    using assms by (simp add: os_open_trunc_def entry_def)
  ultimately show ?thesis
    using written by (simp add: writeCSVFile_def os_close_def)
qed

text \<open>
  A loopback that fails says what its consumer saw and nothing of its own source: the result of
  the source loop, which alone names a ring that could not be written, is not looked at.
\<close>

lemma loop_source_own: "loop_source w srv ring \<noteq> Some (LoopConsume r)"
  by (simp add: loop_source_def Let_def split: option.splits bool.splits)

lemma loopback_source_unread:
  assumes "runLoopback w clock opt = (c, Some (LoopConsume r))"
  shows "runLoopback (w\<lparr>lo_run := run\<rparr>) clock opt = (c, Some (LoopConsume r))"
proof -
  obtain tmp ring srv where world: "lo_tmp w = Some tmp" "fst (Open (tmp @ ''/ledgers'') (loopback_retention opt) (lo_disk w)) = Inr ring"
      "New (lo_mk w) (loopback_config opt) = Inr srv" "lo_listen w"
    using assms by (auto simp: runLoopback_def split: option.splits sum.splits if_splits)
  obtain c' r' where "consume_stream opt ''loopback (remoteledger over 127.0.0.1)'' clock
      (lo_session w srv (snd (loopback_ranges opt))) = (c', r')" by fastforce
  with assms world show ?thesis
    by (simp add: runLoopback_def loop_source_own split: if_splits)
qed

lemma runLoopback_some: "runLoopback w clock opt \<noteq> (None, None)"
  by (simp add: runLoopback_def split: option.split sum.split prod.split)

lemma runLoopback_clean:
  assumes "runLoopback w clock opt = (Some c, None)"
  obtains srv ring where "New (lo_mk w) (loopback_config opt) = Inr srv" "lo_run w srv ring \<in> {Finished, Cancelled}"
    "consume_stream opt ''loopback (remoteledger over 127.0.0.1)'' clock (lo_session w srv (snd (loopback_ranges opt))) = (c, Consumed)"
proof -
  obtain tmp ring srv where world: "lo_tmp w = Some tmp" "fst (Open (tmp @ ''/ledgers'') (loopback_retention opt) (lo_disk w)) = Inr ring"
      "New (lo_mk w) (loopback_config opt) = Inr srv" "lo_listen w"
    using assms by (auto simp: runLoopback_def split: option.splits sum.splits if_splits)
  obtain c' r where run: "consume_stream opt ''loopback (remoteledger over 127.0.0.1)'' clock
      (lo_session w srv (snd (loopback_ranges opt))) = (c', r)" by fastforce
  with assms world have "r = Consumed" "c' = c" "loop_source w srv ring = None"
    by (auto simp: runLoopback_def split: if_splits)
  with world run that show thesis
    by (auto simp: loop_source_def Let_def split: option.splits bool.splits if_splits)
qed

section \<open>A run for the witness\<close>

text \<open>A loopback of the default flags whose client is handed one ledger.\<close>

definition demo_loop :: loop_world where
  "demo_loop = \<lparr>lo_tmp = Some ''t'', lo_disk = empty_disk, lo_mk = (\<lambda>_ _. None), lo_listen = True, lo_subs = (\<lambda>_. 1),
     lo_gone = (\<lambda>_. False), lo_polls = 1, lo_run = (\<lambda>_ _. Finished),
     lo_session = (\<lambda>_ _. [Arrived \<lparr>li_sequence = 1, li_emit_start = 0, li_emit_end = 0, li_received = 4, li_size = 3,
       li_chunks = 1, li_discarded = 0\<rparr> [0, 0, 0]])\<rparr>"

definition demo_flags :: bench_options where
  "demo_flags = bench_defaults\<lparr>bo_csv := ''out.csv'', bo_verify := True\<rparr>"

definition demo_world :: bench_world where
  "demo_world = \<lparr>bw_loop = demo_loop, bw_clock = int, bw_remote = (\<lambda>_ _. []),
     bw_captive = \<lparr>ce_file = (\<lambda>_. None), ce_core_path = None, ce_mkdir = (\<lambda>_. False), ce_abs = (\<lambda>_. None),
       ce_toml = (\<lambda>_ _ _ _. False)\<rparr>,
     bw_tmp = None, bw_core = (\<lambda>_ _. []), bw_env = demo_env, bw_pipe = (\<lambda>_ _. demo_pipe), bw_spans = (\<lambda>i. (int i, int i)),
     bw_pulls = 1\<rparr>"

lemma demo_flags_pass: "check_bench_flags demo_flags [] = None" "bo_mode demo_flags = ''loopback''" "bo_csv demo_flags = ''out.csv''"
  by (simp_all add: demo_flags_def check_bench_flags_def check_bench_mode_def bench_defaults_def ValidateChunkSize_def
      MinChunkSize_def MaxChunkSize_def DefaultChunkSize_def millisecond_def word_le_nat_alt)

lemma demo_loop_runs: "\<exists>c. runLoopback demo_loop int demo_flags = (Some c, None)"
proof -
  have "0 < loopback_retention demo_flags"
    by (simp add: loopback_retention_def demo_flags_def bench_defaults_def)
  then obtain ring d where "Open (''t'' @ ''/ledgers'') (loopback_retention demo_flags) empty_disk = (Inr ring, d)"
    using Open_empty [of "''t'' @ ''/ledgers''" empty_disk "loopback_retention demo_flags"]
    by (auto simp: clean_dir_def flat_dir_def ledgers_on_def empty_disk_def entry_def)
  moreover obtain srv where "New (lo_mk demo_loop) (loopback_config demo_flags) = Inr srv"
    by (simp add: New_def loopback_config_def demo_flags_def bench_defaults_def loopback_ranges_def loopback_start_def
        CountedRange_def Let_def DefaultChunkSize_def ValidateChunkSize_def MinChunkSize_def MaxChunkSize_def
        validateCompressWorkers_def)
  ultimately show ?thesis
    by (simp add: runLoopback_def demo_loop_def consume_stream_def observe_sample_def Let_def Fill_short loop_source_def)
qed

section \<open>Properties\<close>

text \<open>
  C17: a benchmark that exits without an error measured what it printed. For a loopback: its own
  source ended well, its consumer met no failure and no foreign byte, there is one sample for
  each ledger received, every ledger was the source's own under \<^verbatim>\<open>--verify\<close>, and a CSV that was
  asked for is on the disk, whole. No failure on the way is lost in the exit.
\<close>

theorem clean_exit_measured:
  assumes "run_bench w at opt args d = ((out, []), d')" "bo_mode opt = ''loopback''"
  shows "\<exists>c srv ring as. Summary c \<in> set out \<and> (bo_csv opt \<noteq> [] \<longrightarrow> file_bytes (at (bo_csv opt)) d' = Some (csv_bytes c)) \<and>
    New (lo_mk (bw_loop w)) (loopback_config opt) = Inr srv \<and> lo_run (bw_loop w) srv ring \<in> {Finished, Cancelled} \<and>
    as = lo_session (bw_loop w) srv (snd (loopback_ranges opt)) \<and> length (col_samples c) = length as \<and>
    (\<forall>a \<in> set as. \<exists>info raw. a = Arrived info raw \<and>
       (bo_verify opt \<longrightarrow> raw = FillSyntheticPayload (replicate (length raw) 0) (li_sequence info) (bo_compress opt)))"
proof -
  let ?w = "bw_loop w"
  obtain co where mode: "run_mode w opt = (co, None)"
    and co: "\<And>c. co = Some c \<Longrightarrow> Summary c \<in> set out \<and>
      (bo_csv opt \<noteq> [] \<longrightarrow> writeCSVFile (at (bo_csv opt)) c d = (None, d'))"
    using assms(1) by (auto simp: run_bench_def Let_def split: option.splits prod.splits if_splits)
  have loop: "runLoopback ?w (bw_clock w) opt = (co, None)"
    using mode assms(2) by (cases "runLoopback ?w (bw_clock w) opt") (simp add: run_mode_def)
  then obtain c where c: "co = Some c"
    using runLoopback_some [of ?w "bw_clock w" opt] by (cases co) auto
  obtain srv ring where run: "New (lo_mk ?w) (loopback_config opt) = Inr srv" "lo_run ?w srv ring \<in> {Finished, Cancelled}"
    "consume_stream opt ''loopback (remoteledger over 127.0.0.1)'' (bw_clock w) (lo_session ?w srv (snd (loopback_ranges opt))) = (c, Consumed)"
    using runLoopback_clean [OF loop [unfolded c]] .
  let ?as = "lo_session ?w srv (snd (loopback_ranges opt))"
  note counts = consume_loop_counts [OF run(3) [unfolded consume_stream_def]]
  have verified: "raw = FillSyntheticPayload (replicate (length raw) 0) (li_sequence info) (bo_compress opt)"
    if "bo_verify opt" "Arrived info raw \<in> set ?as" for info raw
    using consume_loop_verified [OF _ counts [THEN conjunct2] that(2), of "bo_compress opt" "bw_clock w" 0
        "newCollector ''loopback (remoteledger over 127.0.0.1)''"] run(3) that(1) assms(2)
    by (simp add: consume_stream_def payload_shape_def)
  have shape: "\<forall>a \<in> set ?as. \<exists>info raw. a = Arrived info raw \<and>
      (bo_verify opt \<longrightarrow> raw = FillSyntheticPayload (replicate (length raw) 0) (li_sequence info) (bo_compress opt))"
    using counts verified by metis
  have csv: "bo_csv opt \<noteq> [] \<longrightarrow> file_bytes (at (bo_csv opt)) d' = Some (csv_bytes c)"
    using co [OF c] writeCSVFile_whole by blast
  show ?thesis
    using co [OF c] csv run(1,2) counts shape by (intro exI [of _ c] exI [of _ srv] exI [of _ ring] exI [of _ ?as])
      (simp add: newCollector_def)
qed

theorem clean_exit_measured_witness:
  "\<exists>out d' c. run_bench demo_world (\<lambda>n. (''.'', n)) demo_flags [] empty_disk = ((out, []), d') \<and> Summary c \<in> set out \<and>
     length (col_samples c) = 1 \<and> file_bytes (''.'', ''out.csv'') d' = Some (csv_bytes c)"
proof -
  obtain c where mode: "run_mode demo_world demo_flags = (Some c, None)"
    using demo_loop_runs by (auto simp: run_mode_def demo_flags_pass demo_world_def)
  have "fst (writeCSVFile (''.'', ''out.csv'') c empty_disk) = None"
    by (rule writeCSVFile_calm) (simp_all add: entry_def empty_disk_def)
  then obtain d' where "writeCSVFile (''.'', ''out.csv'') c empty_disk = (None, d')"
    by (cases "writeCSVFile (''.'', ''out.csv'') c empty_disk") simp
  with mode have run: "run_bench demo_world (\<lambda>n. (''.'', n)) demo_flags [] empty_disk = (([Summary c, CsvLine ''out.csv''], []), d')"
    by (simp add: run_bench_def demo_flags_pass)
  with clean_exit_measured [OF run demo_flags_pass(2)] show ?thesis
    by (auto simp: demo_flags_pass demo_world_def demo_loop_def)
qed

end
