(* ===== verification/Source_Run.thy ===== *)
theory Source_Run
  imports Source_Calm
begin

text \<open>
  What a run of \<^verbatim>\<open>Server.Run\<close> amounts to: the properties of the source loop, over any body
  that is a byte reader (theory \<open>LedgerWork\<close>) and, with the paced source, from ledgers to
  the retention ring.
\<close>

section \<open>The loop against the grammar\<close>

text \<open>A configuration for the witnesses, and an emission of ledger 7 with the byte 5.\<close>

definition paced_cfg :: "paced_body source_cfg" where
  "paced_cfg = \<lparr>sc_chunk = 4096, sc_max = 10, sc_read = paced_read, sc_enc = None,
     sc_busy = (\<lambda>_. False), sc_sum = (\<lambda>_. 9), sc_now = (\<lambda>_. 3)\<rparr>"

definition seven_body :: paced_body where
  "seven_body = paced_reset [] [5] 0"

text \<open>
  C8: the source loop only ever publishes what the grammar of the protocol allows. Whatever the
  bodies do (they may fail at any byte), whatever the disk does, wherever the sequences break:
  the loop ends without a panic and without spinning, its trace is BEGIN, the chunks of the
  ledger in order, END over exactly the ledger's bytes, the ring's put, ledger after ledger
  under consecutive sequences, then the end of the stream; and replaying the trace is what
  it did to the hub.
\<close>

theorem source_loop_follows_grammar:
  assumes "byte_reader ok (sc_read cfg) pending" "0 < sc_chunk cfg"
    and "\<forall>em. Emitted em \<in> set items \<longrightarrow> ok (em_body em) \<and> L (em_seq em) = pending (em_body em)"
    and "Run cfg s d items = (out, r)"
  shows "source_trace cfg L (rn_trace r) Done \<and> (\<forall>p. out \<noteq> Panicked p) \<and> out \<noteq> Spins \<and>
    ended (hb_bc (rn_hub r)) \<and> hub_events (rn_hub (initial_run s d)) (rn_trace r) = Inr (rn_hub r)"
  using byte_reader.Run_at [OF assms(1) refl assms(2,3,4)]
  by (auto simp: run_at_def bc_at_def phase_at_def)

theorem source_loop_follows_grammar_witness:
  "\<exists>out r. Run paced_cfg (empty_ring 2) empty_disk [Emitted \<lparr>em_seq = 7, em_size = 1, em_body = seven_body\<rparr>] = (out, r) \<and>
     source_trace paced_cfg (\<lambda>_. [5]) (rn_trace r) Done \<and> out \<noteq> Spins"
proof -
  let ?items = "[Emitted \<lparr>em_seq = 7, em_size = 1, em_body = seven_body\<rparr>]"
  obtain out r where run: "Run paced_cfg (empty_ring 2) empty_disk ?items = (out, r)"
    by fastforce
  have "byte_reader (\<lambda>_. True) (sc_read paced_cfg) paced_pending" "0 < sc_chunk paced_cfg"
    using paced.byte_reader_axioms by (simp_all add: paced_cfg_def)
  from source_loop_follows_grammar [OF this, of ?items "\<lambda>_. [5]", OF _ run] run show ?thesis
    by (auto simp: seven_body_def)
qed

section \<open>Every END is honest\<close>

text \<open>An END for an emission: its size as declared, if it was, and the length and checksum of its body.\<close>

definition honest_end :: "'r source_cfg \<Rightarrow> u32 \<Rightarrow> int \<Rightarrow> bytes \<Rightarrow> bytes \<Rightarrow> bool" where
  "honest_end cfg sq sz body m \<longleftrightarrow> (sz \<le> 0 \<or> sz = int (length body)) \<and>
     (\<exists>n t. m = AppendEnd [] sq n (word_of_nat (length body)) t (sc_sum cfg body))"

definition adds :: "(bytes \<Rightarrow> bool) \<Rightarrow> run \<Rightarrow> run \<Rightarrow> bool" where
  "adds P r r' \<longleftrightarrow> (\<exists>evs. rn_trace r' = rn_trace r @ evs \<and> (\<forall>m. EvEnd m \<in> set evs \<longrightarrow> P m))"

lemma adds_refl [simp]: "rn_trace r' = rn_trace r \<Longrightarrow> adds P r r'"
  by (simp add: adds_def)

lemma adds_step: "publish r ev = Inr r' \<Longrightarrow> (\<forall>m. ev = EvEnd m \<longrightarrow> P m) \<Longrightarrow> adds P r0 r \<Longrightarrow> adds P r0 r'"
  by (drule publish_frame) (auto simp: adds_def)

lemma close_ledger_honest:
  assumes w: "work_at cfg L h0 sq arena w" and full: "concat (lw_parts w) = L sq"
    and close: "close_ledger cfg sq sz w = (out, r)"
  shows "adds (honest_end cfg sq sz (L sq)) (lw_run w) r"
proof (cases "sz > 0 \<and> lw_total w \<noteq> sz")
  case True
  with close show ?thesis by (simp add: close_ledger_def Let_def)
next
  case False
  let ?P = "honest_end cfg sq sz (L sq)"
  have total: "lw_total w = int (length (L sq))"
    using w full by (simp add: work_at_def)
  obtain h' where sum: "hasher_sum (sc_sum cfg) (rn_hasher (lw_run w)) = (sc_sum cfg (L sq), h')"
    using hasher_sum_holds [of "rn_hasher (lw_run w)" "lw_parts w" "sc_sum cfg"] w full by (auto simp: work_at_def)
  let ?r1 = "(lw_run w)\<lparr>rn_clock := rn_clock (lw_run w) + 1, rn_hasher := h'\<rparr>"
  let ?m = "AppendEnd [] sq (lw_idx w) (word_of_int (lw_total w)) (sc_now cfg (rn_clock (lw_run w))) (sc_sum cfg (L sq))"
  have honest: "?P ?m"
    using False total by (auto simp: honest_end_def)
  have r1: "adds ?P (lw_run w) ?r1" by simp
  note unfold = close_ledger_def stamp_def Let_def False sum
  show ?thesis
  proof (cases "publish ?r1 (EvEnd ?m)")
    case (Inl p)
    with close False sum have "r = ?r1" by (auto simp: unfold)
    then show ?thesis by simp
  next
    case (Inr r2)
    have r2: "adds ?P (lw_run w) r2"
      by (rule adds_step [OF Inr _ r1]) (use honest in simp)
    show ?thesis
    proof (cases "publish r2 (EvPut sq (lw_parts w))")
      case (Inl p)
      with close False sum Inr r2 show ?thesis by (auto simp: unfold split: prod.splits)
    next
      case (Inr r3)
      have r3: "adds ?P (lw_run w) r3"
        by (rule adds_step [OF Inr _ r2]) simp
      then have "adds ?P (lw_run w) (r3\<lparr>rn_published := n\<rparr>)" for n
        by (simp add: adds_def)
      with close False sum Inr \<open>publish ?r1 (EvEnd ?m) = Inr r2\<close> r3 show ?thesis
        by (auto simp: unfold split: prod.splits option.splits)
    qed
  qed
qed

context byte_reader
begin

lemma emit_ledger_honest:
  assumes r: "run_ready cfg L h0 r" and cfg: "sc_read cfg = read" "0 < sc_chunk cfg"
    and body: "ok (em_body em)" "L (em_seq em) = pending (em_body em)"
    and emit: "emit_ledger cfg em r = (out, r')"
  shows "adds (honest_end cfg (em_seq em) (em_size em) (pending (em_body em))) r r'"
proof (cases "(rn_prev r \<noteq> 0 \<and> em_seq em \<noteq> rn_prev r + 1) \<or> em_size em > sc_max cfg")
  case True
  with emit show ?thesis
    by (auto simp: emit_ledger_def Let_def split: if_splits)
next
  case False
  let ?sq = "em_seq em" and ?P = "honest_end cfg (em_seq em) (em_size em) (pending (em_body em))"
  let ?opening = "EvBegin ?sq (AppendBegin [] ?sq (sc_now cfg (rn_clock r)))"
  let ?r1 = "r\<lparr>rn_prev := ?sq, rn_clock := rn_clock r + 1\<rparr>"
  have "run_at cfg L h0 (Idle (rn_prev r)) ?r1"
    using r by (simp add: run_ready_def)
  moreover have "emits cfg L (Idle (rn_prev r)) ?opening (InFlow ?sq [])"
    using False by (intro g_begin) auto
  ultimately obtain h where pub: "publish ?r1 ?opening = Inr (?r1\<lparr>rn_hub := h, rn_trace := rn_trace ?r1 @ [?opening]\<rparr>)"
    and r2: "run_at cfg L h0 (InFlow ?sq []) (?r1\<lparr>rn_hub := h, rn_trace := rn_trace ?r1 @ [?opening]\<rparr>)"
    using publish_emits by blast
  let ?r2 = "?r1\<lparr>rn_hub := h, rn_trace := rn_trace ?r1 @ [?opening]\<rparr>"
  let ?w = "\<lparr>lw_run = ?r2, lw_body = em_body em, lw_total = 0, lw_used = 0, lw_idx = 0, lw_parts = [], lw_regions = []\<rparr>"
  obtain lend w where loop: "chunk_loop cfg ?sq (arena_size cfg (em_size em)) ?w = (lend, w)"
    by fastforce
  have "work_at cfg L h0 ?sq (arena_size cfg (em_size em)) ?w"
    using r r2 by (simp add: work_at_def run_ready_def)
  from chunk_loop_at [OF this cfg _ _ loop] body
  have w: "work_at cfg L h0 ?sq (arena_size cfg (em_size em)) w" "lend = LoopEOF \<longrightarrow> concat (lw_parts w) = L ?sq"
    by auto
  obtain ms where ms: "rn_trace (lw_run w) = rn_trace r @ ?opening # map EvChunk ms"
    using chunk_loop_trace [OF loop] by auto
  then have quiet: "adds ?P r (lw_run w)"
    by (auto simp: adds_def)
  have emit': "(out, r') = (case lend of LoopEOF \<Rightarrow> close_ledger cfg ?sq (em_size em) w
      | LoopCancelled \<Rightarrow> (Some Cancelled, lw_run w)
      | LoopFailed e \<Rightarrow> (Some (Errored e), lw_run w)
      | LoopPanicked p \<Rightarrow> (Some (Panicked p), lw_run w)
      | LoopSpins \<Rightarrow> (Some Spins, lw_run w))"
    using False emit pub loop by (cases lend) (auto simp: emit_ledger_def stamp_def Let_def)
  show ?thesis
  proof (cases lend)
    case LoopEOF
    with emit' have "close_ledger cfg ?sq (em_size em) w = (out, r')" by simp
    from close_ledger_honest [OF w(1) _ this] w(2) LoopEOF body(2) have "adds ?P (lw_run w) r'"
      by simp
    with quiet show ?thesis
      unfolding adds_def by fastforce
  qed (use emit' quiet in auto)
qed

definition honest_for :: "'r source_cfg \<Rightarrow> 'r src_item list \<Rightarrow> bytes \<Rightarrow> bool" where
  "honest_for cfg items m \<longleftrightarrow> (\<exists>em. Emitted em \<in> set items \<and>
     honest_end cfg (em_seq em) (em_size em) (pending (em_body em)) m)"

lemma run_items_honest:
  "run_ready cfg L h0 r \<Longrightarrow> sc_read cfg = read \<Longrightarrow> 0 < sc_chunk cfg \<Longrightarrow>
   \<forall>em. Emitted em \<in> set items \<longrightarrow> ok (em_body em) \<and> L (em_seq em) = pending (em_body em) \<Longrightarrow>
   run_items cfg items r = (out, r') \<Longrightarrow> adds (honest_for cfg items) r r'"
proof (induction cfg items r rule: run_items.induct)
  case (3 cfg em items r)
  obtain o1 r1 where emit: "emit_ledger cfg em r = (o1, r1)"
    by fastforce
  have one: "adds (honest_for cfg (Emitted em # items)) r r1"
    using emit_ledger_honest [OF "3.prems"(1-3) _ _ emit] "3.prems"(4)
    by (auto simp: adds_def honest_for_def)
  show ?case
  proof (cases o1)
    case None
    with emit_ledger_at [OF "3.prems"(1-3) _ _ emit] "3.prems"(4) have "run_ready cfg L h0 r1" by simp
    with None "3.prems" emit "3.IH" [OF emit [symmetric] None] have "adds (honest_for cfg items) r1 r'" by simp
    with one show ?thesis
      by (fastforce simp: adds_def honest_for_def)
  next
    case (Some x)
    with one "3.prems" emit show ?thesis by simp
  qed
qed (auto split: src_error.splits)

end

text \<open>
  An END is never published over a truncated or overlong body. Every END in a run's trace
  belongs to an emission of the source, carries the length and the checksum of exactly that
  emission's body, and the body has exactly the size the source declared, if it declared one:
  a body that ends early is an error of the run, never a shorter ledger.
\<close>

theorem every_end_is_honest:
  assumes "byte_reader ok (sc_read cfg) pending" "0 < sc_chunk cfg"
    and "\<forall>em. Emitted em \<in> set items \<longrightarrow> ok (em_body em) \<and> L (em_seq em) = pending (em_body em)"
    and "Run cfg s d items = (out, r)" "EvEnd m \<in> set (rn_trace r)"
  shows "\<exists>em n t. Emitted em \<in> set items \<and>
    m = AppendEnd [] (em_seq em) n (word_of_nat (length (pending (em_body em)))) t (sc_sum cfg (pending (em_body em))) \<and>
    (em_size em \<le> 0 \<or> em_size em = int (length (pending (em_body em))))"
proof -
  let ?r0 = "initial_run s d"
  obtain out1 r1 where items: "run_items cfg items ?r0 = (out1, r1)"
    by fastforce
  have "run_ready cfg L (rn_hub ?r0) ?r0"
    by (simp add: run_ready_def run_at_def initial_run_def trace_nil)
  from byte_reader.run_items_honest [OF assms(1) this refl assms(2,3) items]
  have "EvEnd m \<in> set (rn_trace r1) \<longrightarrow> byte_reader.honest_for pending cfg items m"
    by (auto simp: adds_def initial_run_def)
  moreover have "EvEnd m \<in> set (rn_trace r1)"
    using assms(4,5) items by (auto simp: Run_def dest!: publish_frame split: sum.splits)
  ultimately show ?thesis
    using byte_reader.honest_for_def [OF assms(1), of cfg items m] by (auto simp: honest_end_def)
qed

theorem every_end_is_honest_witness:
  "\<forall>m. EvEnd m \<notin> set (rn_trace (snd (Run paced_cfg (empty_ring 2) empty_disk
       [Emitted \<lparr>em_seq = 7, em_size = 2, em_body = seven_body\<rparr>])))"
proof (intro allI notI)
  let ?items = "[Emitted \<lparr>em_seq = 7, em_size = 2, em_body = seven_body\<rparr>]"
  fix m assume m: "EvEnd m \<in> set (rn_trace (snd (Run paced_cfg (empty_ring 2) empty_disk ?items)))"
  have "byte_reader (\<lambda>_. True) (sc_read paced_cfg) paced_pending" "0 < sc_chunk paced_cfg"
    using paced.byte_reader_axioms by (simp_all add: paced_cfg_def)
  from every_end_is_honest [OF this, of ?items "\<lambda>_. [5]" "empty_ring 2" empty_disk, OF _ surjective_pairing m] show False
    by (auto simp: seven_body_def)
qed

section \<open>A run over the paced source\<close>

text \<open>Puts under consecutive sequences keep the last \<open>ret\<close> entries of the list they extend.\<close>

lemma drop_tail:
  "drop (length (drop (length u - n) u @ ps) - n) (drop (length u - n) u @ ps) = drop (length (u @ ps) - n) (u @ ps)"
proof (cases "length u \<le> n")
  case False
  then have "drop (length (u @ ps) - n) (u @ ps) = drop (length ps) (drop (length u - n) (u @ ps))"
    by (simp add: drop_drop add.commute)
  with False show ?thesis by simp
qed simp

fun runs_on :: "u32 option \<Rightarrow> (u32 \<times> bytes) list \<Rightarrow> bool" where
  "runs_on prev [] = True"
| "runs_on prev ((q, b) # ps) \<longleftrightarrow> (case prev of None \<Rightarrow> True | Some p \<Rightarrow> q = p + 1) \<and> runs_on (Some q) ps"

lemma spec_put_window:
  "0 < ret \<Longrightarrow> length w \<le> nat ret \<Longrightarrow> runs_on (if w = [] then None else Some (fst (last w))) ps \<Longrightarrow>
     foldl (\<lambda>w (q, b). spec_put ret w q b) w ps = drop (length (w @ ps) - nat ret) (w @ ps)"
proof (induction ps arbitrary: w)
  case (Cons p ps)
  obtain q b where p: "p = (q, b)" by fastforce
  let ?w = "w @ [(q, b)]"
  have put: "spec_put ret w q b = drop (length ?w - nat ret) ?w"
    using Cons.prems(3) by (auto simp: spec_put_def p Let_def split: if_splits)
  have len: "length (drop (length ?w - nat ret) ?w) \<le> nat ret"
    by auto
  have ne: "length ?w - nat ret < length ?w"
    using Cons.prems(1) by simp
  have next': "runs_on (if drop (length ?w - nat ret) ?w = [] then None else Some (fst (last (drop (length ?w - nat ret) ?w)))) ps"
    using Cons.prems(3) ne by (simp add: p last_drop)
  have "foldl (\<lambda>w (q, b). spec_put ret w q b) w (p # ps) =
      drop (length (drop (length ?w - nat ret) ?w @ ps) - nat ret) (drop (length ?w - nat ret) ?w @ ps)"
    using Cons.IH [OF Cons.prems(1) len next'] by (simp add: p put)
  also have "\<dots> = drop (length (w @ p # ps) - nat ret) (w @ p # ps)"
    using drop_tail [of ?w "nat ret" ps] by (simp add: p)
  finally show ?case .
qed simp

lemma length_contents: "ring_ok s d \<Longrightarrow> length (contents s d) \<le> nat (retention s)"
proof (cases "filled s")
  case True
  assume "ring_ok s d"
  with True have "oldest s \<le> latest s" "int (unat (latest s - oldest s)) + 1 \<le> retention s"
    by (auto simp: ring_ok_def ring_span_def)
  moreover from this(1) have "unat (latest s - oldest s) = unat (latest s) - unat (oldest s)"
    by (simp add: unat_sub)
  ultimately have "Suc (unat (latest s)) - unat (oldest s) \<le> nat (retention s)"
    by linarith
  with True show ?thesis by (simp add: contents_def)
qed (simp add: contents_def)

text \<open>What a paced source of these ledgers hands over, as the ring sees it.\<close>

definition numbered :: "u32 \<Rightarrow> bytes list \<Rightarrow> (u32 \<times> bytes) list" where
  "numbered start raws = map (\<lambda>k. (start + word_of_nat k, raws ! k)) [0..<length raws]"

lemma numbered_Cons: "numbered start (raw # raws) = (start, raw) # numbered (start + 1) raws"
  by (simp add: numbered_def upt_conv_Cons comp_def ac_simps del: upt_Suc flip: map_Suc_upt)

lemma runs_on_numbered: "prev = None \<or> prev = Some (start - 1) \<Longrightarrow> runs_on prev (numbered start raws)"
proof (induction raws arbitrary: start prev)
  case (Cons raw raws)
  have "runs_on (Some start) (numbered (start + 1) raws)"
    by (rule Cons.IH) simp
  with Cons.prems show ?case
    by (auto simp: numbered_Cons)
qed (simp add: numbered_def)

definition paced_emission :: "pace_env \<Rightarrow> int \<Rightarrow> u32 \<Rightarrow> bytes list \<Rightarrow> nat \<Rightarrow> paced_body emission" where
  "paced_emission env window start raws k = \<lparr>em_seq = start + word_of_nat k, em_size = int (length (raws ! k)),
     em_body = paced_reset (pe_waits env k) (raws ! k) window\<rparr>"

lemma dense_from_paced:
  "start \<noteq> 0 \<Longrightarrow> prev = 0 \<or> start = prev + 1 \<Longrightarrow> unat start + length ks \<le> 2 ^ 32 \<Longrightarrow>
     (\<And>i. i < length ks \<Longrightarrow> em_seq (f (ks ! i)) = start + word_of_nat i) \<Longrightarrow> dense_from prev (map f ks)"
proof (induction ks arbitrary: start prev)
  case (Cons k ks)
  have k: "em_seq (f k) = start"
    using Cons.prems(4) [of 0] by simp
  show ?case
  proof (cases ks)
    case Nil
    with k Cons.prems show ?thesis by simp
  next
    case more: (Cons k' ks')
    then have "start \<noteq> max_u32"
      using Cons.prems(3) unat_u32_max_iff [of start] by auto
    then have "unat (start + 1) = Suc (unat start)"
      by (rule unat_u32_Suc)
    with Cons.prems(3) have "start + 1 \<noteq> 0" "unat (start + 1) + length ks \<le> 2 ^ 32"
      by (auto simp: unat_eq_0)
    moreover have "em_seq (f (ks ! i)) = start + 1 + word_of_nat i" if "i < length ks" for i
      using Cons.prems(4) [of "Suc i"] that by (simp add: ac_simps)
    ultimately have "dense_from start (map f ks)"
      using Cons.IH [of "start + 1" start] by blast
    with k Cons.prems(1,2) show ?thesis by simp
  qed
qed simp

lemma numbered_nonzero:
  assumes "(q, b) \<in> set (numbered start raws)" "start \<noteq> 0" "unat start + length raws \<le> 2 ^ 32"
  shows "q \<noteq> 0"
proof -
  from assms(1) obtain k where k: "k < length raws" "q = start + word_of_nat k"
    by (auto simp: numbered_def)
  with assms(3) have "unat start + unat (word_of_nat k :: u32) < 2 ^ 32"
    by (simp add: unat_of_nat_u32)
  then have "unat q = unat start + k"
    using k assms(3) by (simp add: unat_add_lem [THEN iffD1] unat_of_nat_u32)
  with assms(2) show ?thesis by (auto simp: unat_eq_0)
qed

text \<open>What the ring holds after puts of numbered ledgers that continue it.\<close>

lemma run_puts_numbered:
  assumes "run_puts s d (map (\<lambda>(q, raw). (q, pieces c raw)) (numbered start raws)) = (s', d')" "0 < c"
    and "ring_ok s d" "faults d = []" "start \<noteq> 0" "unat start + length raws \<le> 2 ^ 32"
    and "contents s d = [] \<or> start = fst (last (contents s d)) + 1"
  shows "contents s' d' = drop (length (contents s d @ numbered start raws) - nat (retention s)) (contents s d @ numbered start raws)"
proof -
  let ?ps = "map (\<lambda>(q, raw). (q, pieces c raw)) (numbered start raws)"
  have "\<forall>q parts. (q, parts) \<in> set ?ps \<longrightarrow> q \<noteq> 0"
    using numbered_nonzero [OF _ assms(5,6)] by auto
  moreover have "ring_state_ok (s, d)"
    using assms(3,4) by (simp add: ring_state_ok_def)
  ultimately have "contents s' d' = foldl (\<lambda>w (q, parts). spec_put (retention s) w q (concat parts)) (contents s d) ?ps"
    using run_puts_calm [of s d ?ps] assms(1) by (metis fst_conv snd_conv)
  also have "\<dots> = foldl (\<lambda>w (q, b). spec_put (retention s) w q b) (contents s d) (numbered start raws)"
    using assms(2) by (simp add: foldl_map case_prod_unfold concat_pieces)
  also have "\<dots> = drop (length (contents s d @ numbered start raws) - nat (retention s)) (contents s d @ numbered start raws)"
  proof (rule spec_put_window)
    show "0 < retention s" "length (contents s d) \<le> nat (retention s)"
      using assms(3) length_contents by (auto simp: ring_ok_def ring_span_def)
    show "runs_on (if contents s d = [] then None else Some (fst (last (contents s d)))) (numbered start raws)"
      by (rule runs_on_numbered) (use assms(7) in auto)
  qed
  finally show ?thesis .
qed

lemma paced_run_calm:
  assumes "sc_read cfg = paced_read" "0 < sc_chunk cfg" "0 \<le> sc_max cfg"
    and "start \<noteq> 0" "unat start + length raws \<le> 2 ^ 32" "\<forall>raw \<in> set raws. int (length raw) \<le> sc_max cfg"
    and "\<forall>j. \<not> pe_cancel env j \<and> True \<notin> set (pe_waits env j)"
    and "ring_ok s d" "faults d = []" "contents s d = [] \<or> start = fst (last (contents s d)) + 1"
  shows "\<exists>r. Run cfg s d (map fst (PacedSource env window cadence start (map Raw raws))) = (Finished, r) \<and>
    rn_published r = length raws \<and>
    trace_puts (rn_trace r) = map (\<lambda>(q, raw). (q, pieces (nat (sc_chunk cfg)) raw)) (numbered start raws) \<and>
    contents (hb_store (rn_hub r)) (hb_disk (rn_hub r)) =
      (let held = contents s d @ numbered start raws in drop (length held - nat (retention s)) held)"
proof -
  let ?em = "paced_emission env window start raws" and ?ks = "[0..<length raws]" and ?c = "nat (sc_chunk cfg)"
  define L where "L q = raws ! unat (q - start)" for q
  have L: "L (start + word_of_nat k) = raws ! k" if "k < length raws" for k
    using that assms(5) by (simp add: L_def unat_of_nat_u32)
  have items: "map fst (PacedSource env window cadence start (map Raw raws)) = map Emitted (map ?em ?ks)"
    using paced_emissions_calm [of env window cadence 0 start None raws] assms(7)
    by (simp add: PacedSource_def paced_emission_def)
  have dense: "dense_from 0 (map ?em ?ks)"
    by (rule dense_from_paced [OF assms(4)]) (use assms(5) in \<open>auto simp: paced_emission_def\<close>)
  have calm: "\<forall>em \<in> set (map ?em ?ks). calm_emission paced_calm paced_pending cfg L em"
    using assms(6,7) by (auto simp: calm_emission_def paced_emission_def L)
  have cut: "map (cut_emission cfg L) (map ?em ?ks) = map (\<lambda>(q, raw). (q, pieces ?c raw)) (numbered start raws)"
    by (simp add: cut_emission_def paced_emission_def numbered_def L)
  have "ring_state_ok (s, d)"
    using assms(8,9) by (simp add: ring_state_ok_def)
  then obtain r where r: "Run cfg s d (map Emitted (map ?em ?ks)) = (Finished, r)"
      "trace_puts (rn_trace r) = map (cut_emission cfg L) (map ?em ?ks)" "rn_published r = length (map ?em ?ks)"
      "(hb_store (rn_hub r), hb_disk (rn_hub r)) = run_puts s d (map (cut_emission cfg L) (map ?em ?ks))"
    using unpaused.Run_calm [OF assms(1-3) dense calm] by blast
  from run_puts_numbered [OF r(4) [symmetric, unfolded cut] _ assms(8,9,4,5,10)] assms(2) show ?thesis
    using r(1,3) r(2) [unfolded cut] items by (simp add: Let_def)
qed


definition no_delay :: pace_env where
  "no_delay = \<lparr>pe_first = 0, pe_now = (\<lambda>_. 0), pe_cancel = (\<lambda>_. False), pe_waits = (\<lambda>_. [])\<rparr>"


end
