(* ===== verification/Streaming.thy ===== *)
theory Streaming
  imports Source_Run Synthetic
begin

text \<open>
  A source and the server's loop together: the synthetic stream of theory \<open>Synthetic\<close> under the
  paced source of theory \<open>Emit\<close>, fed to \<open>Run\<close>, into the ring on disk. This is what
  \<^verbatim>\<open>corestreamd\<close> does with its default source and what the loopback benchmark measures.
\<close>

definition synthetic_ledger :: "int \<Rightarrow> bool \<Rightarrow> u32 \<Rightarrow> bytes" where
  "synthetic_ledger sz compressible sq = FillSyntheticPayload (replicate (nat sz) 0) sq compressible"

lemma length_synthetic_ledger [simp]: "length (synthetic_ledger sz compressible sq) = nat sz"
  using Fill_frame [of "replicate (nat sz) 0" sq compressible] by (simp add: synthetic_ledger_def)

lemma counted_stream:
  assumes "count \<noteq> 0" "unat count \<le> n"
  shows "SyntheticStream_RawLedgers n sz compressible (\<lambda>_. False) (CountedRange start count) =
    map Raw (map (\<lambda>k. synthetic_ledger sz compressible (start + word_of_nat k)) [0..<unat count])"
  using synthetic_ledgers_calm [of "replicate (nat sz) 0" "nat sz" n compressible "CountedRange start count" 0 start]
    range_pulls_counted [of start count n] assms
  by (simp add: SyntheticStream_RawLedgers_def synthetic_ledger_def comp_def)

lemma numbered_synthetic:
  "numbered start (map (\<lambda>k. f (start + word_of_nat k)) [0..<n]) =
     map (\<lambda>k. (start + word_of_nat k, f (start + word_of_nat k))) [0..<n]"
  by (simp add: numbered_def)

section \<open>Into the ring\<close>

lemma synthetic_stream_retained:
  assumes "sc_read cfg = paced_read" "0 < sc_chunk cfg" "sz \<le> sc_max cfg" "0 \<le> sc_max cfg"
    and "start \<noteq> 0" "count \<noteq> 0" "unat start + unat count \<le> 2 ^ 32" "unat count \<le> n"
    and "\<forall>j. \<not> pe_cancel env j \<and> True \<notin> set (pe_waits env j)"
    and "ring_ok s d" "faults d = []" "contents s d = []"
  shows "\<exists>r. Run cfg s d (map fst (PacedSource env window cadence start
      (SyntheticStream_RawLedgers n sz compressible (\<lambda>_. False) (CountedRange start count)))) = (Finished, r) \<and>
    rn_published r = unat count \<and>
    contents (hb_store (rn_hub r)) (hb_disk (rn_hub r)) =
      drop (unat count - nat (retention s))
        (map (\<lambda>k. (start + word_of_nat k, synthetic_ledger sz compressible (start + word_of_nat k)))
          [0..<unat count])"
proof -
  let ?raws = "map (\<lambda>k. synthetic_ledger sz compressible (start + word_of_nat k)) [0..<unat count]"
  have fits: "unat start + length ?raws \<le> 2 ^ 32" "\<forall>raw \<in> set ?raws. int (length raw) \<le> sc_max cfg"
    using assms(3,4,7) by auto
  obtain r where "Run cfg s d (map fst (PacedSource env window cadence start (map Raw ?raws))) = (Finished, r)"
    "rn_published r = length ?raws" "contents (hb_store (rn_hub r)) (hb_disk (rn_hub r)) =
       (let held = contents s d @ numbered start ?raws in drop (length held - nat (retention s)) held)"
    using paced_run_calm [OF assms(1,2,4,5) fits assms(9-11)] assms(12) by blast
  then show ?thesis
    unfolding counted_stream [OF assms(6,8)] numbered_synthetic
    by (simp add: assms(12) Let_def)
qed

end
