(* ===== verification/Command_Line.thy ===== *)
theory Command_Line
  imports Flags Bench_Main Streaming
begin

text \<open>
  Both programs from their command lines: the flags each \<^verbatim>\<open>parseFlags\<close> declares, over the parser of
  theory \<open>Flags\<close>, \<^verbatim>\<open>run\<close> and the exit of \<^verbatim>\<open>main\<close>. What listening and \<^verbatim>\<open>runServices\<close> return to the
  daemon's \<^verbatim>\<open>run\<close> is a parameter; theory \<open>Daemon\<close> has the services.

  The lemmas: a command line that names every flag gives exactly the options it names, and a
  synthetic daemon started from a command line streams and retains what it was asked for.
\<close>

section \<open>The flags\<close>

definition daemon_flags :: "daemon_options flag_set" where
  "daemon_flags =
     [(''listen'', StringVar od_listen (\<lambda>v. od_listen_update (\<lambda>_. v))),
      (''source'', StringVar od_source (\<lambda>v. od_source_update (\<lambda>_. v))),
      (''retention'', IntVar od_retention (\<lambda>v. od_retention_update (\<lambda>_. v))),
      (''start-ledger'', UintVar od_start (\<lambda>v. od_start_update (\<lambda>_. v))),
      (''pipe-size'', IntVar od_pipe_bytes (\<lambda>v. od_pipe_bytes_update (\<lambda>_. v))),
      (''data-dir'', StringVar od_data_dir (\<lambda>v. od_data_dir_update (\<lambda>_. v))),
      (''log-level'', StringVar od_log_level (\<lambda>v. od_log_level_update (\<lambda>_. v))),
      (''chunk-size'', IntVar od_chunk (\<lambda>v. od_chunk_update (\<lambda>_. v))),
      (''compress'', BoolVar od_compress (\<lambda>v. od_compress_update (\<lambda>_. v))),
      (''compress-workers'', IntVar od_workers (\<lambda>v. od_workers_update (\<lambda>_. v))),
      (''emit-window'', DurationVar od_window (\<lambda>v. od_window_update (\<lambda>_. v))),
      (''cadence'', DurationVar od_cadence (\<lambda>v. od_cadence_update (\<lambda>_. v))),
      (''core-binary'', StringVar od_core_binary (\<lambda>v. od_core_binary_update (\<lambda>_. v))),
      (''core-config'', StringVar od_core_config (\<lambda>v. od_core_config_update (\<lambda>_. v))),
      (''history-archive-urls'', StringVar od_archives (\<lambda>v. od_archives_update (\<lambda>_. v))),
      (''storage-dir'', StringVar od_storage_dir (\<lambda>v. od_storage_dir_update (\<lambda>_. v))),
      (''network-passphrase'', StringVar od_passphrase (\<lambda>v. od_passphrase_update (\<lambda>_. v))),
      (''file-dir'', StringVar od_file_dir (\<lambda>v. od_file_dir_update (\<lambda>_. v))),
      (''pipe-cmd'', StringVar od_pipe_cmd (\<lambda>v. od_pipe_cmd_update (\<lambda>_. v))),
      (''file-count'', UintVar od_file_count (\<lambda>v. od_file_count_update (\<lambda>_. v))),
      (''synthetic-size'', IntVar od_syn_size (\<lambda>v. od_syn_size_update (\<lambda>_. v))),
      (''synthetic-compressible'', BoolVar od_syn_compressible (\<lambda>v. od_syn_compressible_update (\<lambda>_. v))),
      (''synthetic-interval'', DurationVar od_syn_interval (\<lambda>v. od_syn_interval_update (\<lambda>_. v))),
      (''synthetic-count'', UintVar od_syn_count (\<lambda>v. od_syn_count_update (\<lambda>_. v)))]"

definition bench_flags :: "bench_options flag_set" where
  "bench_flags =
     [(''mode'', StringVar bo_mode (\<lambda>v. bo_mode_update (\<lambda>_. v))),
      (''url'', StringVar bo_url (\<lambda>v. bo_url_update (\<lambda>_. v))),
      (''start'', UintVar bo_start (\<lambda>v. bo_start_update (\<lambda>_. v))),
      (''end'', UintVar bo_end (\<lambda>v. bo_end_update (\<lambda>_. v))),
      (''csv'', StringVar bo_csv (\<lambda>v. bo_csv_update (\<lambda>_. v))),
      (''synthetic-size'', IntVar bo_syn_size (\<lambda>v. bo_syn_size_update (\<lambda>_. v))),
      (''synthetic-interval'', DurationVar bo_syn_interval (\<lambda>v. bo_syn_interval_update (\<lambda>_. v))),
      (''emit-window'', DurationVar bo_window (\<lambda>v. bo_window_update (\<lambda>_. v))),
      (''chunk-size'', IntVar bo_chunk (\<lambda>v. bo_chunk_update (\<lambda>_. v))),
      (''compress'', BoolVar bo_compress (\<lambda>v. bo_compress_update (\<lambda>_. v))),
      (''remote-compressible'', BoolVar bo_remote_compressible (\<lambda>v. bo_remote_compressible_update (\<lambda>_. v))),
      (''count'', UintVar bo_count (\<lambda>v. bo_count_update (\<lambda>_. v))),
      (''verify'', BoolVar bo_verify (\<lambda>v. bo_verify_update (\<lambda>_. v))),
      (''pipe-cmd'', StringVar bo_pipe_cmd (\<lambda>v. bo_pipe_cmd_update (\<lambda>_. v))),
      (''pipe-size'', IntVar bo_pipe_bytes (\<lambda>v. bo_pipe_bytes_update (\<lambda>_. v))),
      (''core-binary'', StringVar bo_core_binary (\<lambda>v. bo_core_binary_update (\<lambda>_. v))),
      (''core-config'', StringVar bo_core_config (\<lambda>v. bo_core_config_update (\<lambda>_. v))),
      (''history-archive-urls'', StringVar bo_archives (\<lambda>v. bo_archives_update (\<lambda>_. v))),
      (''storage-dir'', StringVar bo_storage_dir (\<lambda>v. bo_storage_dir_update (\<lambda>_. v))),
      (''network-passphrase'', StringVar bo_passphrase (\<lambda>v. bo_passphrase_update (\<lambda>_. v)))]"

datatype 'e parse_failure = ParseFailed flag_failure | CheckFailed 'e

definition parseFlags :: "(nat \<Rightarrow> nat \<Rightarrow> nat \<Rightarrow> nat) \<Rightarrow> string list \<Rightarrow> flag_error parse_failure + daemon_options" where
  "parseFlags frac args =
     (case ParseArgs frac daemon_flags default_options args of
        Inl e \<Rightarrow> Inl (ParseFailed e)
      | Inr (opt, rest) \<Rightarrow> (case check_flags opt rest of Some e \<Rightarrow> Inl (CheckFailed e) | None \<Rightarrow> Inr opt))"

definition bench_parseFlags :: "(nat \<Rightarrow> nat \<Rightarrow> nat \<Rightarrow> nat) \<Rightarrow> string list \<Rightarrow> bench_error parse_failure + bench_options" where
  "bench_parseFlags frac args =
     (case ParseArgs frac bench_flags bench_defaults args of
        Inl e \<Rightarrow> Inl (ParseFailed e)
      | Inr (opt, rest) \<Rightarrow> (case check_bench_flags opt rest of Some e \<Rightarrow> Inl (CheckFailed e) | None \<Rightarrow> Inr opt))"

section \<open>From the command line to the exit\<close>

text \<open>A request for help is not an error of \<^verbatim>\<open>run\<close>. \<open>serve\<close> is listening and \<^verbatim>\<open>runServices\<close>.\<close>

datatype run_failure =
    RunFlags "flag_error parse_failure"
  | RunStart start_error
  | RunServices "string list"

definition daemon_run ::
  "(nat \<Rightarrow> nat \<Rightarrow> nat \<Rightarrow> nat) \<Rightarrow> (string \<Rightarrow> string \<Rightarrow> string) \<Rightarrow> (string \<Rightarrow> string option) \<Rightarrow> (string \<Rightarrow> 'i option) \<Rightarrow> captive_env
   \<Rightarrow> (int \<Rightarrow> nat \<Rightarrow> encoder option) \<Rightarrow> (string \<Rightarrow> source_plan \<times> store \<times> server \<Rightarrow> disk \<Rightarrow> string list \<times> disk)
   \<Rightarrow> string list \<Rightarrow> disk \<Rightarrow> run_failure option \<times> disk" where
  "daemon_run frac join abspath stat cenv mk serve args d =
     (case parseFlags frac args of
        Inl e \<Rightarrow> (if e = ParseFailed HelpRequested then None else Some (RunFlags e), d)
      | Inr opt \<Rightarrow>
          (case daemon_start join abspath stat cenv mk opt d of
             (Inl e, d) \<Rightarrow> (Some (RunStart e), d)
           | (Inr started, d) \<Rightarrow>
               (case serve (od_listen opt) started d of
                  (errs, d) \<Rightarrow> (if errs = [] then None else Some (RunServices errs), d))))"

definition bench_run :: "(nat \<Rightarrow> nat \<Rightarrow> nat \<Rightarrow> nat) \<Rightarrow> bench_world \<Rightarrow> (string \<Rightarrow> path) \<Rightarrow> string list \<Rightarrow> disk
    \<Rightarrow> (flag_failure option \<times> printed list \<times> bench_failure list) \<times> disk" where
  "bench_run frac w at args d =
     (case ParseArgs frac bench_flags bench_defaults args of
        Inl e \<Rightarrow> ((if e = HelpRequested then None else Some e, [], []), d)
      | Inr (opt, rest) \<Rightarrow> (case run_bench w at opt rest d of ((out, errs), d) \<Rightarrow> ((None, out, errs), d)))"

text \<open>The exit status: \<^verbatim>\<open>main\<close> leaves with 1 after any error.\<close>

definition daemon_main :: "run_failure option \<times> disk \<Rightarrow> nat" where
  "daemon_main r = (if fst r = None then 0 else 1)"

definition bench_main :: "(flag_failure option \<times> printed list \<times> bench_failure list) \<times> disk \<Rightarrow> nat" where
  "bench_main r = (case fst r of (flags, _, errs) \<Rightarrow> if flags = None \<and> errs = [] then 0 else 1)"

section \<open>A command line that names every flag\<close>

definition all_flags_fit :: "'o flag_set \<Rightarrow> 'o \<Rightarrow> bool" where
  "all_flags_fit flags opt \<longleftrightarrow> (\<forall>(name, var) \<in> set flags. var_fits var opt)"

definition all_arguments :: "'o flag_set \<Rightarrow> 'o \<Rightarrow> string list" where
  "all_arguments flags opt = map (flag_argument opt) flags"

lemma ParseArgs_all_arguments:
  assumes "distinct (map fst flags)" "list_all plain_name (map fst flags)" "all_flags_fit flags opt"
  shows "ParseArgs frac flags opt0 (all_arguments flags opt) = Inr (fold (\<lambda>(_, var). copy_var opt var) flags opt0, [])"
proof -
  have "\<forall>(name, var) \<in> set flags. map_of flags name = Some var \<and> plain_name name \<and> var_fits var opt"
    using assms by (auto simp: all_flags_fit_def list_all_iff)
  from ParseArgs_all_named [OF this, of frac opt0 "[]"] show ?thesis
    by (simp add: all_arguments_def)
qed

lemma daemon_flag_names: "distinct (map fst daemon_flags)" "list_all plain_name (map fst daemon_flags)"
  by (simp_all add: daemon_flags_def plain_name_def)

lemma bench_flag_names: "distinct (map fst bench_flags)" "list_all plain_name (map fst bench_flags)"
  by (simp_all add: bench_flags_def plain_name_def)

lemma daemon_flags_cover: "fold (\<lambda>(_, var). copy_var opt var) daemon_flags opt0 = opt"
  by (cases opt; cases opt0) (simp add: daemon_flags_def copy_var_def)

lemma bench_flags_cover: "fold (\<lambda>(_, var). copy_var opt var) bench_flags opt0 = opt"
  by (cases opt; cases opt0) (simp add: bench_flags_def copy_var_def)

lemma bench_arguments:
  assumes "all_flags_fit bench_flags opt"
  shows "bench_parseFlags frac (all_arguments bench_flags opt) =
    (case check_bench_flags opt [] of Some e \<Rightarrow> Inl (CheckFailed e) | None \<Rightarrow> Inr opt)"
  by (simp add: bench_parseFlags_def ParseArgs_all_arguments [OF bench_flag_names assms] bench_flags_cover)

text \<open>What \<^verbatim>\<open>Parse\<close> leaves, the checks refuse: every argument of an accepted command line was read.\<close>

lemma parseFlags_checked: "parseFlags frac args = Inr opt \<Longrightarrow> check_flags opt [] = None"
  by (auto simp: parseFlags_def check_flags_def split: sum.splits prod.splits option.splits if_splits)

lemma help_exits_zero:
  "ParseArgs frac daemon_flags default_options args = Inl HelpRequested \<Longrightarrow>
     daemon_main (daemon_run frac join abspath stat cenv mk serve args d) = 0"
  "ParseArgs frac bench_flags bench_defaults args = Inl HelpRequested \<Longrightarrow> bench_main (bench_run frac w at args d) = 0"
  by (simp_all add: daemon_run_def parseFlags_def daemon_main_def bench_run_def bench_main_def)

text \<open>The benchmark reads and checks what its own \<^verbatim>\<open>parseFlags\<close> does.\<close>

lemma bench_run_parsed:
  "bench_parseFlags frac args = Inr opt \<Longrightarrow>
     bench_run frac w at args d = (case run_bench w at opt [] d of ((out, errs), d) \<Rightarrow> ((None, out, errs), d))"
  by (auto simp: bench_parseFlags_def bench_run_def check_bench_flags_def
      split: sum.splits prod.splits option.splits if_splits)

section \<open>A synthetic daemon\<close>

text \<open>The configuration \<^verbatim>\<open>New\<close> leaves the source loop, and what the synthetic plan feeds it.\<close>

definition run_config :: "(bytes \<Rightarrow> u64) \<Rightarrow> (nat \<Rightarrow> i64) \<Rightarrow> (nat \<Rightarrow> bool) \<Rightarrow> server \<Rightarrow> paced_body source_cfg" where
  "run_config checksum clock busy srv = \<lparr>sc_chunk = sv_chunk srv, sc_max = DefaultMaxPayloadSize, sc_read = paced_read,
     sc_enc = sv_enc srv, sc_busy = busy, sc_sum = checksum, sc_now = clock\<rparr>"

definition synthetic_source :: "pace_env \<Rightarrow> nat \<Rightarrow> daemon_options \<Rightarrow> ledger_range \<Rightarrow> paced_body src_item list" where
  "synthetic_source env n opt rng =
     map fst (PacedSource env (od_window opt) (od_syn_interval opt) (rg_from rng)
       (SyntheticStream_RawLedgers n (NewSyntheticStream (od_syn_size opt)) (od_syn_compressible opt) (\<lambda>_. False) rng))"

lemma synthetic_plan:
  "od_source opt = ''synthetic'' \<Longrightarrow> daemon_plan join opt =
     Some (PlanSynthetic (NewSyntheticStream (od_syn_size opt)) (od_syn_compressible opt) (od_window opt) (od_syn_interval opt),
           CountedRange (start_ledger opt) (ledgerCount opt))"
  by (simp add: daemon_plan_def)

lemma checked_size: "check_flags opt args = None \<Longrightarrow> NewSyntheticStream (od_syn_size opt) \<le> DefaultMaxPayloadSize"
  by (auto simp: check_flags_def NewSyntheticStream_def DefaultSyntheticSize_def DefaultMaxPayloadSize_def split: if_splits)

text \<open>A counted range of checked options, as the source walks it.\<close>

lemma checked_counted:
  assumes "check_flags opt args = None" "ledgerCount opt \<noteq> 0"
  shows "start_ledger opt \<noteq> 0" "unat (start_ledger opt) + unat (ledgerCount opt) \<le> 2 ^ 32"
proof -
  note fits = plan_range_fits [OF assms(1)]
  show "start_ledger opt \<noteq> 0"
    using fits(1) by (simp add: plan_range_def)
  have "rg_bounded (plan_range opt)" "rg_from (plan_range opt) = start_ledger opt"
    using assms(2) by (simp_all add: plan_range_def)
  with fits(3) show "unat (start_ledger opt) + unat (ledgerCount opt) \<le> 2 ^ 32"
    by (simp add: word_less_nat_alt)
qed

text \<open>A synthetic daemon starts on a working disk, with an empty ring of its own.\<close>

lemma synthetic_starts:
  assumes "check_flags opt [] = None" "od_source opt = ''synthetic''"
    and "0 < od_retention opt" "validateCompressWorkers (od_workers opt) \<noteq> None" "od_compress opt \<Longrightarrow> \<forall>n w. mk n w \<noteq> None"
    and "clean_dir (join (od_data_dir opt) ''ledgers'') d" "flat_dir (join (od_data_dir opt) ''ledgers'') d"
      "ledgers_on (join (od_data_dir opt) ''ledgers'') d = {}" "faults d = []"
  shows "\<exists>plan s srv d'. daemon_start join abspath stat cenv mk opt d = (Inr (plan, s, srv), d') \<and>
    sv_range srv = CountedRange (start_ledger opt) (ledgerCount opt) \<and> 0 < sv_chunk srv \<and>
    ring_ok s d' \<and> faults d' = [] \<and> contents s d' = [] \<and> retention s = od_retention opt"
proof -
  obtain plan rng srv where new: "daemon_plan join opt = Some (plan, rng)" "New mk (daemon_config opt rng) = Inr srv"
    "sv_range srv = rng" "sv_chunk srv = od_chunk opt"
    using checked_flags_start [OF assms(1,4,5)] by blast
  from Open_empty [OF assms(6,7,9,3,8)] obtain s d' where
    ring: "Open (join (od_data_dir opt) ''ledgers'') (od_retention opt) d = (Inr s, d')" "faults d' = []" "ring_ok s d'"
      "retention s = od_retention opt" "contents s d' = []" by blast
  have "0 < od_chunk opt"
    using check_flags_None(3) [OF assms(1)] by (simp add: ValidateChunkSize_def MinChunkSize_def)
  moreover have "daemon_start join abspath stat cenv mk opt d = (Inr (plan, s, srv), d')"
    using new ring(1) assms(2) synthetic_plan [OF assms(2), of join]
    by (auto simp: daemon_start_def build_source_def)
  moreover have "rng = CountedRange (start_ledger opt) (ledgerCount opt)"
    using new(1) synthetic_plan [OF assms(2), of join] by simp
  ultimately show ?thesis
    using new(3,4) ring(2-5) by simp
qed

section \<open>Properties\<close>

text \<open>
  C30: every configuration can be said on the command line, and what is said is what is read. The
  arguments that name each flag of the daemon with its value, any strings, booleans and words
  and any integers and durations of 64 bits, parse to exactly those options, whatever the
  defaults; so \<^verbatim>\<open>parseFlags\<close> accepts them or refuses them exactly as its checks say.
\<close>

theorem daemon_flags_roundtrip:
  assumes "all_flags_fit daemon_flags opt"
  shows "parseFlags frac (all_arguments daemon_flags opt) =
    (case check_flags opt [] of Some e \<Rightarrow> Inl (CheckFailed e) | None \<Rightarrow> Inr opt)"
  by (simp add: parseFlags_def ParseArgs_all_arguments [OF daemon_flag_names assms] daemon_flags_cover)

definition odd_options :: daemon_options where
  "odd_options = default_options\<lparr>od_data_dir := ''--a=b'', od_window := - 5, od_start := 18446744073709551615\<rparr>"

theorem daemon_flags_roundtrip_witness:
  "parseFlags (\<lambda>_ _ _. 0) (all_arguments daemon_flags odd_options) = Inl (CheckFailed (FlagStartTooLarge 18446744073709551615)) \<and>
   parseFlags (\<lambda>_ _ _. 0) (all_arguments daemon_flags default_options) = Inr default_options"
proof -
  have "all_flags_fit daemon_flags odd_options" "all_flags_fit daemon_flags default_options"
    by (simp_all add: all_flags_fit_def daemon_flags_def var_fits_def odd_options_def default_options_def fits_int_def
        DefaultPipeBytes_def DefaultChunkSize_def millisecond_def DefaultSyntheticSize_def)
  from this [THEN daemon_flags_roundtrip, of "\<lambda>_ _ _. 0"] show ?thesis
    by (simp add: default_options_pass) (simp add: check_flags_def odd_options_def default_options_def word_less_nat_alt)
qed


text \<open>A command line in the forms \<^verbatim>\<open>flag\<close> knows: one dash or two, values joined or separate, numbers in any base.\<close>

definition demo_args :: "string list" where
  "demo_args = [''-synthetic-count'', ''2'', ''--synthetic-size=3'', ''--start-ledger'', ''0x7'', ''--compress=false'',
     ''--retention=1_0'', ''--emit-window'', ''750us'']"

definition demo_options :: daemon_options where
  "demo_options = default_options\<lparr>od_syn_count := 2, od_syn_size := 3, od_start := 7, od_compress := False,
     od_retention := 10, od_window := 750000\<rparr>"

lemma demo_parsed: "ParseArgs (\<lambda>_ _ _. 0) daemon_flags default_options demo_args = Inr (demo_options, [])"
  by (simp add: demo_args_def demo_options_def ParseArgs.simps parseOne_def split_flag_def daemon_flags_def assign_def set_var_def
      ParseUint0_def number_base_def base_digit_def is_digit_def digit_val_def lower_code_def ParseInt0_def unsigned_part_def
      ParseBool_def ParseDuration_def duration_loop.simps duration_term_def duration_number_def unit_char_def duration_unit_def
      underscoreOK_def)

lemma demo_checked: "check_flags demo_options [] = None"
  by (simp add: check_flags_def demo_options_def default_options_def check_source_flags_def lastSequence_def start_or_one_def
      ledgerCount_def ValidateChunkSize_def MinChunkSize_def MaxChunkSize_def DefaultChunkSize_def millisecond_def
      DefaultMaxPayloadSize_def word_le_nat_alt word_less_nat_alt)


end
