(* ===== verification/Client_Options.thy ===== *)
theory Client_Options
  imports Protocol
begin

text \<open>
  How a client is configured: \<^verbatim>\<open>New\<close> of \<^verbatim>\<open>remoteledger/stream.go\<close> and its functional options,
  and the limits the read loop then runs under. The lemmas say which servers such a client can
  read: with the defaults every one whose chunk size a flag can set, with a smaller cap none of
  the larger ones.
\<close>

text \<open>
  The fields of \<^verbatim>\<open>Stream\<close>; of the HTTP client and the observer only whether one was given.
  Durations are nanoseconds.
\<close>

record stream_opts =
  so_url :: string
  so_http :: bool
  so_max_payload :: int
  so_max_chunk :: int
  so_dial_timeout :: int
  so_observe :: bool

datatype stream_option =
    WithHTTPClient
  | WithMaxMessageSize int
  | WithMaxChunkSize int
  | WithDialTimeout int
  | WithObserver

fun apply_option :: "stream_opts \<Rightarrow> stream_option \<Rightarrow> stream_opts" where
  "apply_option s WithHTTPClient = s\<lparr>so_http := True\<rparr>"
| "apply_option s (WithMaxMessageSize n) = s\<lparr>so_max_payload := n\<rparr>"
| "apply_option s (WithMaxChunkSize n) = s\<lparr>so_max_chunk := n\<rparr>"
| "apply_option s (WithDialTimeout d) = s\<lparr>so_dial_timeout := d\<rparr>"
| "apply_option s WithObserver = s\<lparr>so_observe := True\<rparr>"

definition DefaultDialTimeout :: int where "DefaultDialTimeout = 30 * 10 ^ 9"

definition New_stream :: "string \<Rightarrow> stream_option list \<Rightarrow> stream_opts" where
  "New_stream rawURL opts =
     foldl apply_option
       \<lparr>so_url = rawURL, so_http = False, so_max_payload = DefaultMaxPayloadSize, so_max_chunk = 0,
        so_dial_timeout = DefaultDialTimeout, so_observe = False\<rparr> opts"

text \<open>The read loop's configuration: \<open>dec\<close> is the decoder it built, the rest the world's.\<close>

definition stream_cfg :: "stream_opts \<Rightarrow> decoder \<Rightarrow> (bytes \<Rightarrow> u64) \<Rightarrow> (nat \<Rightarrow> i64) \<Rightarrow> (nat \<Rightarrow> bool) \<Rightarrow> client_cfg" where
  "stream_cfg s dec sum64 now keep = \<lparr>cc_max_payload = so_max_payload s, cc_max_chunk = so_max_chunk s, cc_dec = dec,
     cc_sum = sum64, cc_observe = so_observe s, cc_now = now, cc_keep = keep\<rparr>"

text \<open>Options that leave the two limits alone.\<close>

definition no_limits :: "stream_option list \<Rightarrow> bool" where
  "no_limits opts \<longleftrightarrow> (\<forall>opt \<in> set opts. case opt of WithMaxMessageSize n \<Rightarrow> False | WithMaxChunkSize n \<Rightarrow> False | _ \<Rightarrow> True)"

lemma New_stream_limits:
  assumes "no_limits opts"
  shows "so_max_payload (New_stream url opts) = DefaultMaxPayloadSize" "so_max_chunk (New_stream url opts) = 0"
proof -
  have "so_max_payload (foldl apply_option s opts) = so_max_payload s \<and> so_max_chunk (foldl apply_option s opts) = so_max_chunk s" for s
    using assms
  proof (induction opts arbitrary: s)
    case (Cons opt opts)
    then show ?case by (cases opt) (auto simp: no_limits_def)
  qed simp
  then show "so_max_payload (New_stream url opts) = DefaultMaxPayloadSize" "so_max_chunk (New_stream url opts) = 0"
    by (simp_all add: New_stream_def)
qed

text \<open>Whether a cap admits the chunk messages of a server with chunk size \<open>c\<close>.\<close>

lemma readLimit_admits:
  assumes "ValidateChunkSize c" "n \<le> 0 \<or> c \<le> n"
  shows "readLimit n \<ge> 0 \<longrightarrow> int (ChunkHeaderSize + nat c) \<le> readLimit n"
  using assms by (auto simp: readLimit_def Let_def ValidateChunkSize_def MinChunkSize_def MaxChunkSize_def max_int64_def
      ChunkHeaderSize_def)

lemma readLimit_refuses:
  assumes "ValidateChunkSize c" "0 < n" "n < c"
  shows "0 \<le> readLimit n \<and> readLimit n < int (ChunkHeaderSize + nat c)"
  using assms by (auto simp: readLimit_def Let_def ValidateChunkSize_def MinChunkSize_def MaxChunkSize_def max_int64_def
      ChunkHeaderSize_def EndSize_def)

lemma default_client_accepts:
  assumes "no_limits opts" "ValidateChunkSize c" "\<forall>q. int (length (L q)) \<le> DefaultMaxPayloadSize"
    and "0 < start" "rg_from rng = 0 \<or> unat (rg_from rng) = start" "\<forall>k. keep k"
  shows "accepts_stream (stream_cfg (New_stream url opts) dec sum64 now keep) rng L (nat c) start"
  using assms(3-6) readLimit_admits [OF assms(2), of 0]
  by (simp add: accepts_stream_def stream_cfg_def New_stream_limits [OF assms(1)])

section \<open>Properties\<close>

text \<open>
  C35: a chunk cap admits a server or refuses its chunks, and nothing in between. A client whose
  cap is unset, disabled or at least the server's chunk size reads any chunk message the server
  can send; with a smaller positive cap the first full raw chunk is refused.
\<close>

theorem chunk_cap_decides:
  assumes "ValidateChunkSize c"
  shows "if n \<le> 0 \<or> c \<le> n
    then \<forall>m. int (length m) \<le> int ChunkHeaderSize + c \<longrightarrow> readMessage (readLimit n) (Binary m) = Inr m
    else \<forall>sq idx payload. int (length payload) = c \<longrightarrow>
      readMessage (readLimit n) (Binary (AppendChunk [] sq idx CodecRaw payload)) = Inl Transport"
proof -
  have c: "int (ChunkHeaderSize + nat c) = int ChunkHeaderSize + c"
    using assms by (simp add: ValidateChunkSize_def MinChunkSize_def)
  show ?thesis
  proof (cases "n \<le> 0 \<or> c \<le> n")
    case True
    with readLimit_admits [OF assms this] c show ?thesis
      by (auto simp: readMessage_def)
  next
    case False
    with readLimit_refuses [OF assms, of n] c show ?thesis
      by (auto simp: readMessage_def)
  qed
qed

theorem chunk_cap_decides_witness:
  "readMessage (readLimit 0) (Binary [1, 2, 3]) = Inr [1, 2, 3]"
proof -
  have "ValidateChunkSize 4096"
    by (simp add: ValidateChunkSize_def MinChunkSize_def MaxChunkSize_def)
  from chunk_cap_decides [OF this, of 0] show ?thesis by simp
qed

end
