(* ===== verification/Startup.thy ===== *)
theory Startup
  imports Command_Line Fleet Client_Options
begin

text \<open>
  What \<^verbatim>\<open>run\<close> of \<^verbatim>\<open>corestreamd\<close> hands to its services: a hub with a new broadcaster and the ring that
  \<open>Open\<close> found. Whatever calls failed on the way, a start that succeeded leaves a ring whose
  files are a gapless range and hold what they held before; so every server the daemon starts,
  over an old directory or a new one, is one that the theory of whole servers is about.
\<close>

section \<open>A daemon that started\<close>

lemma build_source_entry: "build_source cenv plan d = (built, d') \<Longrightarrow> entry d' = entry d"
  by (auto simp: build_source_def NewFileStream_def ScanLedgerDir_def os_read_dir_def Let_def
      split: source_plan.splits prod.splits sum.splits option.splits fault.splits if_splits)

definition ring_dir :: "(string \<Rightarrow> string \<Rightarrow> string) \<Rightarrow> daemon_options \<Rightarrow> string" where
  "ring_dir join opt = join (od_data_dir opt) ''ledgers''"

definition started_hub :: "store \<Rightarrow> disk \<Rightarrow> hub" where
  "started_hub s d = \<lparr>hb_bc = newBroadcaster, hb_store = s, hb_disk = d\<rparr>"

lemma daemon_start_parts:
  assumes "daemon_start join abspath stat cenv mk opt d = (Inr (plan, s, srv), d')"
  obtains d1 rng where "entry d1 = entry d" "Open (ring_dir join opt) (od_retention opt) d1 = (Inr s, d')"
    "New mk (daemon_config opt rng) = Inr srv" "daemon_plan join opt = Some (plan, rng)"
  using assms build_source_entry [of cenv _ d]
  by (fastforce simp: daemon_start_def Let_def ring_dir_def split: option.splits prod.splits if_splits sum.splits)

text \<open>What the old ring holds agrees with the ledgers this server is to stream.\<close>

definition old_ring_agrees :: "(u32 \<Rightarrow> bytes) \<Rightarrow> string \<Rightarrow> disk \<Rightarrow> bool" where
  "old_ring_agrees L dr d \<longleftrightarrow> clean_dir dr d \<and> (\<forall>q b. file_bytes (dr, LedgerFileName q) d = Some b \<longrightarrow> b = L q)"

lemma daemon_start_hub:
  assumes "daemon_start join abspath stat cenv mk opt d = (Inr (plan, s, srv), d')"
    and "old_ring_agrees L (ring_dir join opt) d"
  shows "hub_ok cfg L (Idle 0) (started_hub s d')" "ValidateChunkSize (sv_chunk srv)"
proof -
  obtain d1 rng where start: "entry d1 = entry d" "Open (ring_dir join opt) (od_retention opt) d1 = (Inr s, d')"
    "New mk (daemon_config opt rng) = Inr srv"
    using daemon_start_parts [OF assms(1)] by metis
  then have "clean_dir (ring_dir join opt) d1"
    using assms(2) by (simp add: old_ring_agrees_def clean_dir_def)
  from Open_inv [OF start(2) this] have ring: "ring_inv s d'" "dir s = ring_dir join opt" "only_removes d1 d'" by auto
  have "files_agree L s d'"
    using assms(2) only_removes_file_bytes [OF ring(3)] file_bytes_entry [of _ d1] file_bytes_entry [of _ d] start(1)
    by (simp add: files_agree_def old_ring_agrees_def ring(2))
  with ring(1) show "hub_ok cfg L (Idle 0) (started_hub s d')"
    by (simp add: hub_ok_def started_hub_def)
  show "ValidateChunkSize (sv_chunk srv)"
    by (rule New_chunk [OF start(3)])
qed

end
