(* ===== verification/Pipe_Teardown.thy ===== *)
theory Pipe_Teardown
  imports Pipe_Source
begin

text \<open>
  The end of \<^verbatim>\<open>pipeStream.Emissions\<close> (\<^verbatim>\<open>pipesource.go\<close>) beside the processes it tears down. Theory
  \<open>Pipe_Source\<close> has the order of the teardown; here its actions run among the command's processes,
  which exit, heed or ignore SIGTERM, write to the pipe, fork, and leave the process group as
  they like.

  What is used of the system is what its manuals state: a signal to a group reaches every
  process in it, SIGKILL cannot be ignored, a write to a pipe without a reader ends the writer,
  and \<^verbatim>\<open>exec.Cmd.Wait\<close> returns when the child has exited; \<^verbatim>\<open>WaitDelay\<close> kills the child, and only the
  child, some time after the context has ended.

  The lemmas: whatever the processes do, a teardown that is done leaves none in the group; once
  the context has ended it needs nobody's cooperation; before that, it waits for its child.
\<close>

section \<open>The processes and the teardown\<close>

record process =
  pr_alive :: bool
  pr_group :: bool
  pr_heeds :: bool
  pr_writes :: bool
  pr_termed :: bool

record teardown =
  td_ctx :: bool
  td_read :: bool
  td_child :: process
  td_others :: "process list"
  td_todo :: "pipe_action list"

definition signal_group :: "(process \<Rightarrow> process) \<Rightarrow> teardown \<Rightarrow> teardown" where
  "signal_group f t =
     t\<lparr>td_child := f (td_child t), td_others := map (\<lambda>p. if pr_group p then f p else p) (td_others t)\<rparr>"

definition sigterm :: "process \<Rightarrow> process" where
  "sigterm p = p\<lparr>pr_termed := True\<rparr>"

definition sigkill :: "process \<Rightarrow> process" where
  "sigkill p = p\<lparr>pr_alive := False\<rparr>"

text \<open>What makes a process exit: itself, a signal it heeds, a write to the closed pipe.\<close>

definition may_exit :: "teardown \<Rightarrow> process \<Rightarrow> bool" where
  "may_exit t p \<longleftrightarrow> pr_termed p \<and> pr_heeds p \<or> pr_writes p \<and> \<not> td_read t"

text \<open>
  What the processes and the context do. A forked process starts in its parent's group and may
  leave it; the child leads the group and stays. When the context ends, \<^verbatim>\<open>CommandContext\<close> calls
  \<^verbatim>\<open>Cancel\<close>, which signals the group.
\<close>

inductive world_step :: "teardown \<Rightarrow> teardown \<Rightarrow> bool" where
  td_exit: "may_exit t (td_child t) \<Longrightarrow> world_step t (t\<lparr>td_child := sigkill (td_child t)\<rparr>)"
| td_quit: "world_step t (t\<lparr>td_child := sigkill (td_child t)\<rparr>)"
| td_quit_other: "td_others t = ps @ p # qs \<Longrightarrow> world_step t (t\<lparr>td_others := ps @ sigkill p # qs\<rparr>)"
| td_fork: "pr_alive (td_child t) \<or> (\<exists>q \<in> set (td_others t). pr_alive q \<and> (pr_group p \<longrightarrow> pr_group q)) \<Longrightarrow>
    world_step t (t\<lparr>td_others := p # td_others t\<rparr>)"
| td_leave: "td_others t = ps @ p # qs \<Longrightarrow> world_step t (t\<lparr>td_others := ps @ p\<lparr>pr_group := False\<rparr> # qs\<rparr>)"
| td_cancel: "td_ctx t \<Longrightarrow> world_step t (signal_group sigterm (t\<lparr>td_ctx := False\<rparr>))"

text \<open>The deferred function, action by action; \<open>td_delay\<close> is \<^verbatim>\<open>WaitDelay\<close> running out.\<close>

inductive own_step :: "teardown \<Rightarrow> teardown \<Rightarrow> bool" where
  td_close: "td_todo t = CloseRead # acts \<Longrightarrow> own_step t (t\<lparr>td_read := False, td_todo := acts\<rparr>)"
| td_term: "td_todo t = TermGroup # acts \<Longrightarrow> td_ctx t \<Longrightarrow> own_step t (signal_group sigterm (t\<lparr>td_todo := acts\<rparr>))"
| td_ended: "td_todo t = TermGroup # acts \<Longrightarrow> \<not> td_ctx t \<Longrightarrow> own_step t (t\<lparr>td_todo := acts\<rparr>)"
| td_delay: "td_todo t = WaitChild # acts \<Longrightarrow> \<not> td_ctx t \<Longrightarrow> pr_alive (td_child t) \<Longrightarrow>
    own_step t (t\<lparr>td_child := sigkill (td_child t)\<rparr>)"
| td_wait: "td_todo t = WaitChild # acts \<Longrightarrow> \<not> pr_alive (td_child t) \<Longrightarrow> own_step t (t\<lparr>td_todo := acts\<rparr>)"
| td_kill: "td_todo t = KillGroup # acts \<Longrightarrow> own_step t (signal_group sigkill (t\<lparr>td_todo := acts\<rparr>))"

definition td_step :: "teardown \<Rightarrow> teardown \<Rightarrow> bool" where
  "td_step t t' \<longleftrightarrow> world_step t t' \<or> own_step t t'"

text \<open>Where it begins: a child that was waited for has exited; one whose context ended was signalled.\<close>

definition td_begins :: "bool \<Rightarrow> teardown \<Rightarrow> bool" where
  "td_begins waited t \<longleftrightarrow> td_todo t = pipe_teardown waited (\<not> td_ctx t) \<and>
     (waited \<longrightarrow> \<not> pr_alive (td_child t)) \<and> (\<not> td_ctx t \<longrightarrow> pr_termed (td_child t))"

section \<open>What every interleaving keeps\<close>

definition group_gone :: "teardown \<Rightarrow> bool" where
  "group_gone t \<longleftrightarrow> \<not> pr_alive (td_child t) \<and> (\<forall>p \<in> set (td_others t). pr_group p \<longrightarrow> \<not> pr_alive p)"

definition td_inv :: "teardown \<Rightarrow> bool" where
  "td_inv t \<longleftrightarrow> subseq (td_todo t) [CloseRead, TermGroup, WaitChild, KillGroup] \<and>
     (td_todo t \<noteq> [] \<longrightarrow> last (td_todo t) = KillGroup) \<and>
     (CloseRead \<notin> set (td_todo t) \<longrightarrow> \<not> td_read t) \<and>
     (TermGroup \<notin> set (td_todo t) \<or> \<not> td_ctx t \<longrightarrow> pr_termed (td_child t)) \<and>
     (WaitChild \<notin> set (td_todo t) \<longrightarrow> \<not> pr_alive (td_child t)) \<and>
     (td_todo t = [] \<longrightarrow> group_gone t)"

definition td_measure :: "teardown \<Rightarrow> nat" where
  "td_measure t = 2 * length (td_todo t) + (if pr_alive (td_child t) then 1 else 0)"

lemmas signal_defs = signal_group_def sigterm_def sigkill_def

lemma td_begins_inv: "td_begins waited t \<Longrightarrow> td_inv t"
  by (auto simp: td_begins_def td_inv_def pipe_teardown_def)

lemma world_step_inv:
  "world_step t t' \<Longrightarrow> td_inv t \<Longrightarrow> td_inv t' \<and> td_measure t' \<le> td_measure t"
  by (induction rule: world_step.induct) (auto simp: td_inv_def td_measure_def signal_defs group_gone_def)

lemma own_step_inv:
  assumes "own_step t t'" "td_inv t"
  shows "td_inv t' \<and> td_measure t' < td_measure t"
  using assms
proof (induction rule: own_step.induct)
  case (td_close t acts)
  then have "subseq acts [TermGroup, WaitChild, KillGroup]" by (simp add: td_inv_def)
  with td_close show ?case
    by (auto simp: td_inv_def td_measure_def)
next
  case (td_kill t acts)
  then have "acts = []" by (auto simp: td_inv_def dest: list_emb_Nil2)
  with td_kill show ?case
    by (auto simp: td_inv_def td_measure_def signal_defs group_gone_def)
qed (auto simp: td_inv_def td_measure_def signal_defs)

definition td_reach :: "teardown \<Rightarrow> teardown \<Rightarrow> bool" where
  "td_reach t0 t \<longleftrightarrow> td_step\<^sup>*\<^sup>* t0 t"

lemma td_reach_inv: "td_reach t0 t \<Longrightarrow> td_inv t0 \<Longrightarrow> td_inv t"
  unfolding td_reach_def
  by (induction rule: rtranclp_induct) (auto simp: td_step_def dest: world_step_inv own_step_inv)

text \<open>A teardown that is not done can go on, or it waits for a child that nobody has killed.\<close>

lemma own_step_possible:
  assumes "td_inv t" "td_todo t \<noteq> []" "\<nexists>t'. own_step t t'"
  shows "hd (td_todo t) = WaitChild \<and> td_ctx t \<and> pr_alive (td_child t)"
proof (cases "td_todo t")
  case (Cons act acts)
  have "act = WaitChild"
    using assms(3) Cons td_close [of t acts] td_term [of t acts] td_ended [of t acts] td_kill [of t acts]
    by (cases act; cases "td_ctx t") auto
  with Cons assms(3) show ?thesis
    using td_delay [of t acts] td_wait [of t acts] by auto
qed (use assms(2) in simp)

lemma waiting_child:
  assumes "td_inv t" "td_todo t \<noteq> []" "hd (td_todo t) = WaitChild"
  shows "may_exit t (td_child t) \<longleftrightarrow> pr_heeds (td_child t) \<or> pr_writes (td_child t)"
proof -
  obtain acts where todo: "td_todo t = WaitChild # acts"
    using assms(2,3) by (cases "td_todo t") auto
  have "subseq acts [KillGroup]"
    using assms(1) by (simp add: td_inv_def todo)
  then have "acts = [] \<or> acts = [KillGroup]"
    by (cases acts) (auto dest: list_emb_Nil2 split: if_splits)
  then have acts: "CloseRead \<notin> set acts" "TermGroup \<notin> set acts" by auto
  have "\<not> td_read t" "pr_termed (td_child t)"
    using assms(1) acts by (simp_all add: td_inv_def todo)
  then show ?thesis by (simp add: may_exit_def)
qed

section \<open>Properties\<close>

text \<open>
  C27: the pipe source leaves no process of its command behind. However the command's processes
  exit, ignore signals, write, fork and leave, and whenever the context ends: a teardown that
  is done has closed the pipe and left nothing alive in the process group. It takes a bounded
  number of steps of its own, and the processes cannot add to them. Once the context has ended
  it needs no process's cooperation; before that the one thing it can wait for is the child's
  exit, which a child that heeds SIGTERM or writes to the closed pipe owes it, and no other.
\<close>

theorem pipe_teardown_complete:
  assumes "td_begins waited t0" "td_reach t0 t"
  shows "(td_todo t = [] \<longrightarrow> group_gone t \<and> \<not> td_read t) \<and>
    (\<forall>t'. own_step t t' \<longrightarrow> td_measure t' < td_measure t) \<and> (\<forall>t'. world_step t t' \<longrightarrow> td_measure t' \<le> td_measure t) \<and>
    (td_todo t \<noteq> [] \<longrightarrow> (\<exists>t'. own_step t t') \<or>
       td_ctx t \<and> pr_alive (td_child t) \<and> (may_exit t (td_child t) \<longleftrightarrow> pr_heeds (td_child t) \<or> pr_writes (td_child t)))"
proof -
  note inv = td_reach_inv [OF assms(2) td_begins_inv [OF assms(1)]]
  have "td_todo t = [] \<longrightarrow> group_gone t \<and> \<not> td_read t"
    using inv by (simp add: td_inv_def)
  with inv show ?thesis
    using own_step_possible [OF inv] waiting_child [OF inv] own_step_inv world_step_inv by blast
qed

text \<open>The witness: an early stop while a grandchild that ignores SIGTERM holds the pipe.\<close>

definition sh_child :: process where
  "sh_child = \<lparr>pr_alive = True, pr_group = True, pr_heeds = True, pr_writes = False, pr_termed = False\<rparr>"

definition deaf_grandchild :: process where
  "deaf_grandchild = \<lparr>pr_alive = True, pr_group = True, pr_heeds = False, pr_writes = False, pr_termed = False\<rparr>"

definition early_stop :: teardown where
  "early_stop = \<lparr>td_ctx = True, td_read = True, td_child = sh_child, td_others = [deaf_grandchild],
     td_todo = pipe_teardown False False\<rparr>"

theorem pipe_teardown_complete_witness:
  "\<exists>t. td_reach early_stop t \<and> td_todo t = [] \<and> group_gone t \<and> \<not> td_read t"
proof -
  let ?t1 = "early_stop\<lparr>td_read := False, td_todo := [TermGroup, WaitChild, KillGroup]\<rparr>"
  let ?t2 = "signal_group sigterm (?t1\<lparr>td_todo := [WaitChild, KillGroup]\<rparr>)"
  let ?t3 = "?t2\<lparr>td_child := sigkill (td_child ?t2)\<rparr>"
  let ?t4 = "?t3\<lparr>td_todo := [KillGroup]\<rparr>"
  let ?t5 = "signal_group sigkill (?t4\<lparr>td_todo := []\<rparr>)"
  have "own_step early_stop ?t1" "own_step ?t1 ?t2" "world_step ?t2 ?t3" "own_step ?t3 ?t4" "own_step ?t4 ?t5"
    using td_close [of early_stop "[TermGroup, WaitChild, KillGroup]"] td_term [of ?t1 "[WaitChild, KillGroup]"]
      td_exit [of ?t2] td_wait [of ?t3 "[KillGroup]"] td_kill [of ?t4 "[]"]
    by (simp_all add: early_stop_def pipe_teardown_def may_exit_def signal_defs sh_child_def)
  then have steps: "td_step early_stop ?t1" "td_step ?t1 ?t2" "td_step ?t2 ?t3" "td_step ?t3 ?t4" "td_step ?t4 ?t5"
    unfolding td_step_def by blast+
  have reach: "td_reach early_stop ?t5"
    unfolding td_reach_def using steps
    by (meson converse_rtranclp_into_rtranclp rtranclp.rtrancl_refl)
  have "td_begins False early_stop"
    by (simp add: td_begins_def early_stop_def)
  from pipe_teardown_complete [OF this reach] reach show ?thesis
    by (intro exI [of _ ?t5]) (simp add: signal_group_def)
qed

text \<open>
  An early stop with the context still live waits without a bound for a silent child that
  ignores SIGTERM: none of the teardown's own steps is possible, whatever others do, until the
  child exits by itself or the context ends.
\<close>

lemma early_stop_unbounded:
  assumes "td_todo t = WaitChild # acts" "td_ctx t" "pr_alive (td_child t)"
  shows "\<nexists>t'. own_step t t'"
  using assms by (auto elim: own_step.cases)

end
