(* ===== verification/Spec2Isabelle.thy ===== *)
theory Spec2Isabelle
  imports Examples Startup Pipe_Teardown
begin

text \<open>
  remote-core-poc: the ledger stream of a stellar-core, served over WebSocket to any number of
  subscribers and read back as a \<^verbatim>\<open>LedgerStream\<close>. This development models the Go code of
  \<^verbatim>\<open>internal/wire\<close>, \<^verbatim>\<open>internal/store\<close>, \<^verbatim>\<open>internal/server\<close>, \<^verbatim>\<open>remoteledger\<close> and the two commands
  \<^verbatim>\<open>cmd/corestreamd\<close> and \<^verbatim>\<open>cmd/benchrunner\<close>, as executable definitions with the names of the code.

  \<^bold>\<open>The program.\<close> One goroutine, \<^verbatim>\<open>Server.Run\<close>, reads emissions from a source, hashes and
  frames their bytes in chunks, optionally through a compressing pipeline, and publishes BEGIN,
  chunks and END of each ledger to the broadcaster; after END it puts the ledger into the
  retention ring on disk. Each subscription is a cursor: \<^verbatim>\<open>serve\<close> watches the broadcaster, writes
  what the current flow has beyond what it sent, falls back to the ring when it is overtaken,
  sleeps on the broadcaster's channel, and closes with a code that says why. The client
  reassembles, verifies and hands up ledgers. No queue connects source and subscribers; what
  they share is the broadcaster (one mutex), the ring (one mutex) and its files.

  \<^bold>\<open>Theories.\<close>
  \<^item> \<^theory_text>\<open>Prelude\<close>: machine types, big-endian fields, decimal numbers, slices; the locale
    \<open>fixed_codec\<close>, interpreted for both field widths. \<^theory_text>\<open>Disk\<close>: the file operations of \<^verbatim>\<open>os\<close>, each
    of which may fail, by a list of faults to come.
  \<^item> \<^theory_text>\<open>Wire\<close> (\<^verbatim>\<open>wire.go\<close>): message encoders and decoder, limits, the close reason. The decoder
    inverts exactly the well-formed encodings.
  \<^item> \<^theory_text>\<open>Ring\<close>: the locale of what the server relies on of the ring; \<^theory_text>\<open>Store\<close> (\<^verbatim>\<open>store.go\<close>): the ring
    over the faulty disk and its invariant; \<^theory_text>\<open>Store_Ring\<close>: the interpretation of that locale,
    refinement of the abstract list of retained ledgers, crash and reopen.
  \<^item> \<^theory_text>\<open>Broadcast\<close> (\<^verbatim>\<open>broadcast.go\<close>): flows, snapshots, channel generations, panics; the locale
    \<open>wakeup_source\<close>. \<^theory_text>\<open>Compress\<close> (\<^verbatim>\<open>compress.go\<close>): framing of a chunk and the pipeline as a step
    relation. \<^theory_text>\<open>LedgerWork\<close> (\<^verbatim>\<open>ledgerwork.go\<close>): chunk filling over any reader, the locales
    \<open>byte_reader\<close> and \<open>calm_reader\<close>, the hasher. \<^theory_text>\<open>Emit\<close> (\<^verbatim>\<open>emit.go\<close>): emissions and the paced source.
  \<^item> \<^theory_text>\<open>Source_Loop\<close> (\<^verbatim>\<open>Server.Run\<close>), \<^theory_text>\<open>Grammar\<close> (the abstract traces it refines), \<^theory_text>\<open>Source_Calm\<close> and
    \<^theory_text>\<open>Source_Run\<close> (what a run publishes and retains).
  \<^item> \<^theory_text>\<open>Serve\<close> (the rest of \<^verbatim>\<open>server.go\<close>): configuration, request, and a subscriber as a machine whose
    steps are the accesses to shared state. \<^theory_text>\<open>Client\<close> (\<^verbatim>\<open>stream.go\<close>, \<^verbatim>\<open>decompress.go\<close>) and
    \<^theory_text>\<open>Client_Options\<close> (its options). \<^theory_text>\<open>Protocol\<close>: the language of message sequences a subscription may
    consist of, and the client on it.
  \<^item> \<^theory_text>\<open>Session\<close> and \<^theory_text>\<open>Session_Live\<close>: a subscriber among the source and all other subscribers, its
    invariant, its progress and its closes. \<^theory_text>\<open>Pipelined\<close>: the source loop beside the workers and the
    publisher of its compressing pipeline, by the locale \<open>event_simulation\<close> a simulation of the
    grammar; what the fallback counter counts. \<^theory_text>\<open>Fleet\<close>: \<^verbatim>\<open>handleStream\<close> with any number of
    connections over that source and the counters of \<^verbatim>\<open>/healthz\<close>, projected to each connection. \<^theory_text>\<open>Accounting\<close>: the
    fallbacks the server counts and those the client counts, from the messages alone.
    \<^theory_text>\<open>Examples\<close>: the session the witnesses use.
  \<^item> \<^theory_text>\<open>Ranges\<close>, \<^theory_text>\<open>File_Source\<close> (\<^verbatim>\<open>filesource.go\<close>), \<^theory_text>\<open>Synthetic\<close> (\<^verbatim>\<open>synthetic.go\<close>, with the PCG generator of
    \<^verbatim>\<open>math/rand/v2\<close>), \<^theory_text>\<open>Pipe_Source\<close> (\<^verbatim>\<open>pipesource.go\<close>, \<^verbatim>\<open>pipesize_linux.go\<close>)
    and \<^theory_text>\<open>Pipe_Teardown\<close> (its end, among the processes of its command), \<^theory_text>\<open>Captive\<close> (\<^verbatim>\<open>captive.go\<close>): the
    sources; \<^theory_text>\<open>Streaming\<close>: the synthetic source under the loop into the ring.
  \<^item> \<^theory_text>\<open>Flags\<close>: Go's \<^verbatim>\<open>flag\<close> package with the numbers and durations it reads; the locale
    \<open>value_text\<close>, interpreted for every kind of flag. \<^theory_text>\<open>Daemon\<close> (\<^verbatim>\<open>corestreamd\<close>): options, start-up, the
    services that end together. \<^theory_text>\<open>Command_Line\<close>: the flags of both programs, from the command line to
    the exit and, for a synthetic daemon, to the ring; \<^theory_text>\<open>Startup\<close>: the hub a started daemon has. \<^theory_text>\<open>Bench\<close>
    (\<^verbatim>\<open>benchrunner\<close>): options, samples, report, verification, the local modes. \<^theory_text>\<open>Loopback\<close>: client and
    consumer together, and the wait for a subscriber. \<^theory_text>\<open>Bench_Main\<close>: the consumer with its observer,
    the loopback and the other modes from the flags to the exit, the CSV file.
  \<^item> This theory: the properties of a whole session and of the whole server.

  \<^bold>\<open>How the state is modelled.\<close> A \<open>hub\<close> is what the goroutines share: broadcaster, ring, disk.
  Every broadcaster operation runs under its mutex and is one atomic event; a subscriber's step
  is one access (watch, bounds, copy of the bounds, file read, wakeup), so a put or a prune can
  come between any two. Flows are kept in a list and referred to by index, as the code does by
  pointer, so two flows of one sequence are distinct. Channels are numbered by generation.
  Sequences are 32-bit words in messages and in the ring; a cursor is a natural number, as the
  code's \<^verbatim>\<open>uint64\<close> is, and reaches \<open>2 ^ 32\<close>. Errors are values; a Go panic is a value too, and
  shown unreachable.

  \<^bold>\<open>Bounds and fuel.\<close> A consumer of a stream pulls \<open>n\<close> times; statements hold for every \<open>n\<close> or for
  those that cover the range. A body of \<open>m\<close> declared bytes is drained by at most \<open>m + 1\<close> reads that
  each return a byte or end. The wait for a subscriber is a number of polls. After the source
  has ended a subscriber takes at most \<open>12 * (2 ^ 32 + 2)\<close> steps: twelve for each sequence it can
  still have to send. Other loops terminate by their measures.

  \<^bold>\<open>Parameters.\<close> The zstd codec (an encoder and a partial decoder, with \<open>codec_ok\<close>: a frame within
  the decoder's memory decodes to its payload), xxhash (any function; two ends use the same),
  the clocks, the WebSocket connection (what the next read returns, when writing fails), URL
  parsing, the SDK's captive core and its two frame readers (\<open>reads_markers\<close>), what a child process writes.

  \<^bold>\<open>Not modelled.\<close> Network and process input and output, logging, signals, the usage text. The
  fraction of a duration flag is float arithmetic, a parameter of the parser. A
  write that fails or times out is a step that breaks the connection. Inside a paced body
  the due time of a byte is float arithmetic that only decides how long a wait is; a wait is
  whether the context ended it. \<^verbatim>\<open>TrimSpace\<close> is that of ASCII text; opening a directory as a
  ledger fails at once instead of at the first read. Floats of the printed report are kept as
  the numbers they are formatted from. \<^verbatim>\<open>pipesize_other.go\<close> is a stub.
\<close>

section \<open>Properties of a whole session\<close>







text \<open>
  C16: the two ends agree on the fallbacks. For every connection of a server, whatever the
  interleaving, the partial deliveries a client that read the whole stream has thrown away are
  those its server abandoned, less the last one while the client still holds its partial; once
  it holds none, the fallbacks a benchmark on top of it prints are the server's count. At any earlier point
  of the stream it has thrown away no more than the health report owns up to, so a window that
  is clean at the server is clean at every client.
\<close>

theorem fallbacks_agree:
  assumes "fleet_steps cfg workers scfg L (fleet_start h0) f" "c \<in> set (fe_conns f)"
    and "hub_ok cfg L (Idle 0) h0" "server_ok cfg scfg dec lim"
    and "cc_dec ccfg = dec" "cc_sum ccfg = sc_sum cfg" "cc_observe ccfg"
      "\<And>start. 0 < start \<Longrightarrow> rq_start (sb_req (cn_sub c)) = 0 \<or> unat (rq_start (sb_req (cn_sub c))) = start \<Longrightarrow>
         accepts_stream ccfg (req_range (sb_req (cn_sub c))) L lim start"
    and "cl = client_run ccfg (req_range (sb_req (cn_sub c))) (map Binary (sb_out (cn_sub c)))"
  shows "partials cl + (if cl_active cl \<and> \<not> sb_begun (cn_sub c) then 1 else 0) = sb_abandons (cn_sub c) \<and>
    (\<not> cl_active cl \<longrightarrow>
       fallbacks (fst (consume_loop False shape clock 0 [] (arrivals cl) (newCollector label))) = sb_abandons (cn_sub c)) \<and>
    (\<forall>msgs. prefix msgs (sb_out (cn_sub c)) \<longrightarrow>
       partials (client_run ccfg (req_range (sb_req (cn_sub c))) (map Binary msgs)) \<le> he_live_abandons (fleet_health f))"
proof -
  obtain h1 ph1 where hub: "hub_ok cfg L ph1 h1" and run:
    "sys_steps cfg scfg L (h1, ph1, new_subscriber (sb_req (cn_sub c))) (fe_hub f, piped_view (fe_source f), cn_sub c)"
    using fleet_connections [OF assms(1,3,2)] .
  note own = session_partials [OF run hub assms(4-9)]
  have total: "sb_abandons (cn_sub c) \<le> he_live_abandons (fleet_health f)"
    using fleet_counters [OF assms(1)] member_le_sum_list [of "sb_abandons (cn_sub c)" "map (\<lambda>c. sb_abandons (cn_sub c)) (fe_conns f)"] assms(2)
    by (auto simp: counters_ok_def fleet_health_def handleHealth_def split: prod.splits)
  have earlier: "partials (client_run ccfg (req_range (sb_req (cn_sub c))) (map Binary msgs)) \<le> partials cl"
    if "prefix msgs (sb_out (cn_sub c))" for msgs
    unfolding assms(9) by (rule partials_run [OF assms(7)]) (use that in \<open>auto simp: prefix_def\<close>)
  note printed = arrivals_fallbacks [OF assms(7), of shape clock "req_range (sb_req (cn_sub c))" "map Binary (sb_out (cn_sub c))" label,
      folded assms(9)]
  show ?thesis
    using own total printed by (auto simp: partials_def [of cl] dest!: earlier)
qed

theorem fallbacks_agree_witness:
  "sb_abandons demo_dropped = 1 \<and>
     partials (client_run one_client (req_range demo_request) (map Binary (sb_out demo_dropped))) +
       (if cl_active (client_run one_client (req_range demo_request) (map Binary (sb_out demo_dropped))) then 1 else 0) = 1"
proof -
  obtain h ph where run:
    "fleet_steps demo_src 4 demo_serve demo_ledgers (fleet_start (demo_hub [] 0)) (demo_fleet h ph demo_dropped)"
    using demo_dropped_run by blast
  let ?c = "\<lparr>cn_phase = Serving, cn_sub = demo_dropped\<rparr>"
  have c: "?c \<in> set (fe_conns (demo_fleet h ph demo_dropped))" "sb_req (cn_sub ?c) = demo_request"
    "sb_abandons demo_dropped = 1" "\<not> sb_begun demo_dropped"
    by (simp_all add: demo_fleet_def demo_dropped_def demo_opened_def demo_sub_def)
  have "cc_dec one_client = (\<lambda>_. None)" "cc_sum one_client = sc_sum demo_src" "cc_observe one_client"
    by (simp_all add: one_client_def demo_src_def)
  with fallbacks_agree [OF run c(1) demo_hub_ok demo_server_ok this, unfolded c(2), OF demo_accepts refl] c(3,4)
  show ?thesis by simp
qed


text \<open>The witness: a daemon over an empty disk, its one connection that of the demo session.\<close>

definition one_daemon :: daemon_options where
  "one_daemon = default_options\<lparr>od_chunk := 4096, od_compress := False, od_retention := 2, od_start := 7, od_syn_count := 1\<rparr>"

lemma one_daemon_up:
  "\<exists>plan srv. daemon_start (\<lambda>_ _. ''d'') Some (\<lambda>_. None :: nat option) cenv (\<lambda>_ _. None) one_daemon empty_disk =
     (Inr (plan, empty_ring 2, srv), empty_disk) \<and> serves srv demo_src demo_serve \<and> sv_enc srv = None \<and> sv_ring_enc srv = None"
  by (simp add: daemon_start_def one_daemon_def default_options_def daemon_plan_def ledgerCount_def start_ledger_def
      build_source_def Open_def os_mkdir_all_def next_fault_def tick_def empty_disk_def empty_ring_def rescan_def
      ScanLedgerDir_def os_read_dir_def dir_names_def pruneLocked_def List.map_filter_simps New_def daemon_config_def
      CountedRange_def ValidateChunkSize_def MinChunkSize_def MaxChunkSize_def validateCompressWorkers_def serves_def
      demo_src_def demo_serve_def Let_def)


text \<open>
  C3: a normal close of a bounded subscription means the whole range was delivered. Every ledger
  from the start through the requested end has been written and the client hands each of them
  up; the source ending early, its failure and a reader that fell behind never close normally.
\<close>

theorem normal_close_is_complete:
  assumes "sys_steps cfg scfg L (h0, ph0, new_subscriber req) (h, ph, s)"
    and "hub_ok cfg L ph0 h0" "server_ok cfg scfg dec lim"
    and "cc_dec ccfg = dec" "cc_sum ccfg = sc_sum cfg"
      "\<And>start. 0 < start \<Longrightarrow> rq_start req = 0 \<or> unat (rq_start req) = start \<Longrightarrow>
         accepts_stream ccfg (req_range req) L lim start"
    and "rq_bounded req" "sb_pc s = PcClosed StatusNormalClosure reason"
  shows "\<exists>start. 0 < start \<and> (rq_start req = 0 \<or> unat (rq_start req) = start) \<and>
    cl_yields (client_run ccfg (req_range req) (map Binary (sb_out s))) = delivered L start (unat (rq_end req) + 1)"
proof -
  have req: "sb_req s = req"
    using sys_steps_req [OF assms(1)] by (simp add: new_subscriber_def)
  have "view_ok h s"
    using sys_steps_view [OF assms(1,3)] assms(2) by simp
  with assms(7,8) req have past: "sb_next s \<noteq> 0" "unat (rq_end req) < sb_next s"
    by (auto simp: view_ok_def honest_close_def past_end_def status_defs)
  from session_position [OF assms(1-6) past(1)] obtain start where start: "0 < start"
      "rq_start req = 0 \<or> unat (rq_start req) = start" "sb_next s = start \<or> sb_next s \<le> unat (rq_end req) + 1"
      "cl_yields (client_run ccfg (req_range req) (map Binary (sb_out s))) = delivered L start (sb_next s)"
    using assms(7) by blast
  have "delivered L start (sb_next s) = delivered L start (unat (rq_end req) + 1)"
  proof (cases "sb_next s = unat (rq_end req) + 1")
    case False
    with start(3) past(2) have "sb_next s = start" "unat (rq_end req) + 1 \<le> start" by auto
    then show ?thesis by (simp add: delivered_def)
  qed simp
  with start show ?thesis by (intro exI [of _ start]) simp
qed

theorem normal_close_is_complete_witness:
  "\<exists>start. 0 < start \<and> start = 7 \<and>
     cl_yields (client_run one_client (req_range demo_request) (map Binary (sb_out demo_closed))) = delivered demo_ledgers start 8"
proof -
  have "cc_dec one_client = (\<lambda>_. None)" "cc_sum one_client = sc_sum demo_src" "rq_start demo_request = 7"
      "rq_end demo_request = 7" "rq_bounded demo_request" "sb_pc demo_closed = PcClosed StatusNormalClosure []"
    by (simp_all add: one_client_def demo_src_def demo_request_def demo_closed_def)
  with normal_close_is_complete [OF demo_closed_run demo_hub_ok demo_server_ok this(1,2) demo_accepts this(5,6)]
  show ?thesis by auto
qed



text \<open>
  C7: no subscriber sleeps while there is something for it. One blocked on a channel nobody has
  closed is waiting for the source to publish, with everything the current flow holds already
  written, or it is behind the current ledger and the ring does not hold what it needs.
\<close>

theorem sleeper_has_nothing_to_do:
  assumes "sys_steps cfg scfg L (h0, ph0, new_subscriber req) (h, ph, s)"
    and "hub_ok cfg L ph0 h0" "server_ok cfg scfg dec lim"
    and "sb_pc s = PcSleep ch" "\<not> ch_closed (hb_bc h) ch"
  shows "awaits h s \<or> behind h s \<and> \<not> servable (hb_store h) (sb_next s)"
proof -
  have "view_ok h s"
    using sys_steps_view [OF assms(1,3)] assms(2) by simp
  with assms(4,5) show ?thesis by (simp add: view_ok_def idle_def)
qed

theorem sleeper_has_nothing_to_do_witness:
  "awaits (demo_hub [] 0) demo_asleep \<or>
     behind (demo_hub [] 0) demo_asleep \<and> \<not> servable (hb_store (demo_hub [] 0)) (sb_next demo_asleep)"
  by (rule sleeper_has_nothing_to_do [OF demo_sleeps demo_hub_ok demo_server_ok, of 0])
    (simp_all add: demo_asleep_def demo_hub_def ch_closed_def)

text \<open>
  C5: every subscription closes. Once the source has ended, a subscriber in any reachable state
  reaches a close (or a broken connection) within a bounded number of its own steps; it can
  neither loop nor block for ever.
\<close>

theorem every_subscription_closes:
  assumes "sys_steps cfg scfg L (h0, ph0, new_subscriber req) (h, ph, s)"
    and "hub_ok cfg L ph0 h0" "server_ok cfg scfg dec lim" and "ended (hb_bc h)"
  shows "\<exists>k \<le> 12 * (2 ^ 32 + 2). finished (sb_pc (snd (((\<lambda>(h, s). serve_step scfg h s) ^^ k) (h, s))))"
proof -
  have "sys_ok cfg L dec lim (h, ph, s)" "view_ok h s"
    using sys_steps_ok [OF assms(1,3)] sys_steps_view [OF assms(1,3)] assms(2) by auto
  then obtain k where "k \<le> steps_left h s" "finished (sb_pc (snd (((\<lambda>(h, s). serve_step scfg h s) ^^ k) (h, s))))"
    using serve_closes [OF assms(3), of L ph h s] assms(4) by auto
  with steps_left_bound [of h s] show ?thesis by (blast intro: le_trans)
qed

theorem every_subscription_closes_witness:
  "\<exists>k \<le> 12 * (2 ^ 32 + 2). finished (sb_pc (snd (((\<lambda>(h, s). serve_step demo_serve h s) ^^ k)
     (demo_over, new_subscriber demo_request))))"
  by (rule every_subscription_closes [OF demo_over_run demo_hub_ok demo_server_ok])
    (simp add: demo_over_def bc_finish_def newBroadcaster_def)

text \<open>
  C18: the whole path verifies. With the synthetic source behind the server, however source,
  handler and connection interleave and wherever the connection is cut, the consumer that
  regenerates each payload from the sequence its observer was told finds no mismatch.
\<close>

theorem loopback_verifies:
  assumes "sys_steps cfg scfg L (h0, ph0, new_subscriber req) (h, ph, s)"
    and "hub_ok cfg L ph0 h0" "server_ok cfg scfg dec lim"
    and "cc_dec ccfg = dec" "cc_sum ccfg = sc_sum cfg"
      "\<And>start. 0 < start \<Longrightarrow> rq_start req = 0 \<or> unat (rq_start req) = start \<Longrightarrow>
         accepts_stream ccfg (req_range req) L lim start"
    and "prefix msgs (sb_out s)"
    and "L = (\<lambda>q. FillSyntheticPayload (replicate sz 0) q shape)" "rq_start req \<noteq> 0" "cc_observe ccfg"
  shows "consume True shape [] (map (\<lambda>(sq, raw). (sq, Some raw))
    (received (client_run ccfg (req_range req) (map Binary msgs)))) = Consumed"
proof -
  obtain start n where "unat (rq_start req) = start"
    "cl_yields (client_run ccfg (req_range req) (map Binary msgs)) = delivered L start n"
    using session_delivers [OF assms(1-7)] assms(9) by blast
  then have "set (received (client_run ccfg (req_range req) (map Binary msgs))) \<subseteq> {(q, L q) | q. True}"
    using assms(9,10) by (intro received_delivered) (simp_all add: req_range_def)
  moreover have "genuine shape q (L q)" for q
    using Fill_frame [of "replicate sz 0" q shape] by (simp add: genuine_def assms(8))
  ultimately show ?thesis
    by (subst consume_verified) auto
qed

theorem loopback_verifies_witness:
  "consume True False [] (map (\<lambda>(sq, raw). (sq, Some raw))
     (received (client_run one_client (req_range demo_request) (map Binary (sb_out demo_done))))) = Consumed"
proof -
  have demo: "cc_dec one_client = (\<lambda>_. None)" "cc_sum one_client = sc_sum demo_src" "rq_start demo_request \<noteq> 0"
      "cc_observe one_client"
    by (simp_all add: one_client_def demo_src_def demo_request_def)
  have L: "demo_ledgers = (\<lambda>q. FillSyntheticPayload (replicate 1 0) q False)"
    by (simp add: demo_ledgers_def fun_eq_iff Fill_short)
  show ?thesis
    by (rule loopback_verifies [OF demo_run demo_hub_ok demo_server_ok demo(1,2) demo_accepts _ L demo(3,4)]) simp_all
qed

text \<open>
  C19: client and server agree on the request. The URL a client builds for a range, with whatever
  other parameters it was configured with, is parsed by the server as exactly that range; the
  one exception is a bounded range that ends at zero, which the server refuses.
\<close>

theorem subscription_request_roundtrip:
  assumes "endpoint parse raw rng = Inr u"
  shows "parseStreamRequest (u_query u) =
    (if rg_bounded rng \<and> rg_to rng = 0 then Inl InvalidEndZero
     else Inr \<lparr>rq_start = rg_from rng, rq_end = (if rg_bounded rng then rg_to rng else 0), rq_bounded = rg_bounded rng\<rparr>)"
proof -
  have num: "parse_uint 32 (format_uint (unat w)) = Some (unat w)" for w :: u32
    by (rule parse_format_uint) simp
  from assms have "rg_from rng \<noteq> max_u32" "rg_bounded rng \<longrightarrow> rg_to rng \<noteq> max_u32 \<and> \<not> rg_to rng < rg_from rng"
      "u_query u ''start'' = Some [format_uint (unat (rg_from rng))]"
      "u_query u ''end'' = (if rg_bounded rng then Some [format_uint (unat (rg_to rng))] else None)"
    by (auto simp: endpoint_def Let_def split: option.splits if_splits)
  then have "get_param (u_query u) ''start'' = Inr (rg_from rng, True)"
      "get_param (u_query u) ''end'' = (if rg_bounded rng then Inr (rg_to rng, True) else Inr (0, False))"
    by (simp_all add: get_param_def num)
  with \<open>rg_from rng \<noteq> max_u32\<close> \<open>rg_bounded rng \<longrightarrow> rg_to rng \<noteq> max_u32 \<and> \<not> rg_to rng < rg_from rng\<close> show ?thesis
    by (simp add: parseStreamRequest_def)
qed

theorem subscription_request_roundtrip_witness:
  "\<exists>u. endpoint (\<lambda>_. Some \<lparr>u_scheme = ''ws'', u_host = ''box'', u_path = [], u_query = (\<lambda>_. None)\<rparr>) [] seven = Inr u \<and>
     parseStreamRequest (u_query u) = Inr \<lparr>rq_start = 7, rq_end = 7, rq_bounded = True\<rparr>"
proof -
  let ?parse = "\<lambda>_ :: string. Some \<lparr>u_scheme = ''ws'', u_host = ''box'', u_path = [], u_query = (\<lambda>_. None)\<rparr>"
  obtain u where u: "endpoint ?parse [] seven = Inr u"
    by (simp add: endpoint_def seven_def Let_def)
  from subscription_request_roundtrip [OF u] u show ?thesis
    by (simp add: seven_def)
qed

text \<open>
  C20: a request that is accepted makes sense. It names no unstreamable sequence, a bounded one
  ends at a real sequence not before its start, and an unbounded one carries no end.
\<close>

theorem accepted_request_valid:
  assumes "parseStreamRequest q = Inr r"
  shows "rq_start r \<noteq> max_u32 \<and> rq_end r \<noteq> max_u32 \<and>
    (rq_bounded r \<longrightarrow> rq_end r \<noteq> 0 \<and> rq_start r \<le> rq_end r) \<and> (\<not> rq_bounded r \<longrightarrow> rq_end r = 0)"
  using assms
  by (auto simp: parseStreamRequest_def get_param_def split: sum.splits option.splits list.splits if_splits)

theorem accepted_request_valid_witness:
  "rq_start \<lparr>rq_start = 0, rq_end = 0, rq_bounded = False\<rparr> \<noteq> max_u32"
  using accepted_request_valid [of "\<lambda>_. None" "\<lparr>rq_start = 0, rq_end = 0, rq_bounded = False\<rparr>"]
  by (simp add: parseStreamRequest_def get_param_def)


end
